(* ===== verification/HftPrelude.thy ===== *)
theory HftPrelude
  imports Main "HOL-Library.Word" "HOL-Library.Signed_Division"
begin

text \<open>
  The prelude of the hft-engine development: the fixed-width integer types of the
  C++ code, the conversions between them, the little-endian byte layout of a
  packed struct field, and the generic facts on words and lists that the component
  theories share.

  \<^item> \<open>u8\<close> .. \<open>u64\<close> are \<open>std::uint8_t\<close> .. \<open>std::uint64_t\<close>; \<open>i32\<close> and \<open>i64\<close> are the
    signed types, kept as words and read by \<^const>\<open>sint\<close>. Signed overflow is undefined in
    C++; the words wrap as the targets' instructions do, and every theorem whose
    conclusion depends on it carries a hypothesis that excludes the overflow.
  \<^item> \<open>i64_div\<close> is C++'s \<open>/\<close> on \<open>std::int64_t\<close>: it truncates towards zero.
  \<^item> \<open>le_bytes\<close> and \<open>le_word\<close> are what \<open>std::memcpy\<close> does with one field of a packed
    struct on the little-endian targets of the build (x86-64 and AArch64).
\<close>

unbundle bit_operations_syntax

type_synonym u8 = "8 word"
type_synonym u16 = "16 word"
type_synonym u32 = "32 word"
type_synonym u64 = "64 word"
type_synonym i32 = "32 word"
type_synonym i64 = "64 word"

named_theorems word_range \<open>ranges and conversions of machine integers\<close>
named_theorems layout \<open>byte layouts of packed structs\<close>
named_theorems preserves \<open>an operation keeps its component's invariant\<close>
named_theorems frame \<open>an operation leaves a field alone\<close>


subsection \<open>Signed arithmetic\<close>

definition i64_div :: "i64 \<Rightarrow> i64 \<Rightarrow> i64" where
  "i64_div a b = word_of_int (sint a sdiv sint b)"

definition in_i64 :: "int \<Rightarrow> bool" where
  "in_i64 x \<longleftrightarrow> - (2 ^ 63) \<le> x \<and> x < 2 ^ 63"

lemma sint_of_int_i64 [word_range]: "in_i64 x \<Longrightarrow> sint (word_of_int x :: i64) = x"
  by (simp add: in_i64_def signed_of_int signed_take_bit_int_eq_self)

lemma sint_of_int_i32: "- (2 ^ 31) \<le> x \<Longrightarrow> x < 2 ^ 31 \<Longrightarrow> sint (word_of_int x :: i32) = x"
  by (simp add: signed_of_int signed_take_bit_int_eq_self)

lemma in_i64_sint [simp, intro]: "in_i64 (sint (w :: i64))"
  using sint_ge [of w] sint_lt [of w] by (simp add: in_i64_def)

lemma sint_add_i64: "in_i64 (sint a + sint b) \<Longrightarrow> sint (a + b :: i64) = sint a + sint b"
  by (simp add: sint_word_add in_i64_def signed_take_bit_int_eq_self)

lemma sint_diff_i64: "in_i64 (sint a - sint b) \<Longrightarrow> sint (a - b :: i64) = sint a - sint b"
  by (simp add: sint_word_diff in_i64_def signed_take_bit_int_eq_self)

lemma sint_mult_i64: "in_i64 (sint a * sint b) \<Longrightarrow> sint (a * b :: i64) = sint a * sint b"
  by (simp add: sint_word_mult in_i64_def signed_take_bit_int_eq_self)

lemma sint_uminus_i64: "in_i64 (- sint a) \<Longrightarrow> sint (- a :: i64) = - sint a"
  by (simp add: sint_word_minus in_i64_def signed_take_bit_int_eq_self)

lemma sint_i64_eq_iff: "sint (a :: i64) = sint b \<longleftrightarrow> a = b"
  by (auto intro: signed_word_eqI)

lemma unat_of_nat_small [word_range]: "n < 2 ^ LENGTH('a) \<Longrightarrow> unat (of_nat n :: 'a::len word) = n"
  by (simp add: unat_of_nat)

lemma unat_of_nat_u64: "n < 2 ^ 64 \<Longrightarrow> unat (of_nat n :: u64) = n"
  and unat_of_nat_u32: "n < 2 ^ 32 \<Longrightarrow> unat (of_nat n :: u32) = n"
  by (simp_all add: unat_of_nat_small)

lemma unat_lt_u32: "unat (w :: u32) < 2 ^ 32" and unat_lt_u64: "unat (v :: u64) < 2 ^ 64"
  using unsigned_less [of w, where 'a = nat] unsigned_less [of v, where 'a = nat] by simp_all

lemma unat_nonzero: "w \<noteq> 0 \<Longrightarrow> 0 < unat w"
  by (simp add: unat_gt_0)

lemma unat_drop_bit_div: "unat (drop_bit n w) = unat w div 2 ^ n"
  by (rule trans [OF unat_drop_bit_eq drop_bit_eq_div])

lemma of_nat_unat_self: "(of_nat (unat w) :: 'a::len word) = w"
  by simp

lemma ucast_via_nat: "unat w = n \<Longrightarrow> (ucast w :: 'a::len word) = of_nat n"
  by (metis of_nat_unat)

lemma unat_and_mask: "k < 64 \<Longrightarrow> unat ((of_nat n :: u64) AND (of_nat (2 ^ k) - 1)) = n mod 2 ^ k"
proof -
  assume "k < 64"
  have "(of_nat (2 ^ k) - 1 :: u64) = mask k"
    by (simp add: mask_eq_exp_minus_1)
  then have "(of_nat n :: u64) AND (of_nat (2 ^ k) - 1) = take_bit k (of_nat n)"
    by (simp add: take_bit_eq_mask)
  with \<open>k < 64\<close> show ?thesis
    by (simp add: unsigned_take_bit_eq unsigned_of_nat min_def) (simp add: take_bit_eq_mod)
qed

text \<open>A \<open>std::uint32_t\<close> converted to \<open>std::int64_t\<close> keeps its value.\<close>

lemma uint_lt_u32: "uint (w :: u32) < 2 ^ 32"
  using uint_bounded [of w] by simp

lemma uint_u32_bounds: "0 \<le> uint (w :: u32)" "uint w \<le> 4294967295"
  using uint_lt_u32 [of w] by simp_all

lemma in_i64I: "- 9223372036854775808 \<le> x \<Longrightarrow> x \<le> 9223372036854775807 \<Longrightarrow> in_i64 x"
  by (simp add: in_i64_def)

lemma in_i64_u32 [simp]: "in_i64 (uint (w :: u32))" "in_i64 (- uint (w :: u32))"
proof -
  have "0 \<le> uint w" "uint w < 4294967296"
    using uint_lt_u32 [of w] by simp_all
  then have "- 9223372036854775808 \<le> uint w" "uint w < 9223372036854775808"
    "- 9223372036854775808 \<le> - uint w" "- uint w < 9223372036854775808"
    by linarith+
  then show "in_i64 (uint w)" "in_i64 (- uint w)"
    by (simp_all add: in_i64_def)
qed

lemma sint_ucast_u32 [simp]: "sint (ucast (w :: u32) :: i64) = uint w"
proof -
  have "(ucast w :: i64) = word_of_int (uint w)"
    by simp
  then show ?thesis
    using sint_of_int_i64 [OF in_i64_u32(1), of w] by metis
qed

lemma sint_uminus_ucast_u32 [simp]: "sint (- (ucast (w :: u32) :: i64)) = - uint w"
  by (subst sint_uminus_i64) simp_all

text \<open>C++'s truncated division, as far as the book uses it.\<close>

lemma sdiv_nonneg: "0 \<le> a \<Longrightarrow> 0 < b \<Longrightarrow> (a :: int) sdiv b = a div b"
  by (simp add: signed_divide_int_eq_divide_int signed_divide_int_def sgn_if)

lemma sdiv_neg: "a < 0 \<Longrightarrow> 0 < b \<Longrightarrow> (a :: int) sdiv b = - ((- a) div b)"
  by (simp add: signed_divide_int_def sgn_if)

lemma int_div_less: "0 < t \<Longrightarrow> a < n * t \<Longrightarrow> a div t < n" for a t n :: int
proof (rule ccontr)
  assume "0 < t" "a < n * t" "\<not> a div t < n"
  then have "n * t \<le> a div t * t"
    by (intro mult_right_mono) auto
  moreover have "a div t * t + a mod t = a" "0 \<le> a mod t"
    using \<open>0 < t\<close> by simp_all
  ultimately show False
    using \<open>a < n * t\<close> by linarith
qed


subsection \<open>Little-endian fields\<close>

primrec le_bytes :: "nat \<Rightarrow> 'a::len word \<Rightarrow> u8 list" where
  "le_bytes 0 w = []"
| "le_bytes (Suc n) w = ucast w # le_bytes n (drop_bit 8 w)"

primrec le_word :: "u8 list \<Rightarrow> 'a::len word" where
  "le_word [] = 0"
| "le_word (b # bs) = ucast b OR push_bit 8 (le_word bs)"

lemma length_le_bytes [simp, layout]: "length (le_bytes n w) = n"
  by (induction n arbitrary: w) auto

lemma le_word_le_bytes: "le_word (le_bytes n w) = take_bit (8 * n) (w :: 'a::len word)"
proof (induction n arbitrary: w)
  case 0
  then show ?case by simp
next
  case (Suc n)
  have "ucast (ucast w :: u8) OR push_bit 8 (take_bit (8 * n) (drop_bit 8 w))
      = take_bit (8 * Suc n) w"
    by (rule bit_eqI) (auto simp: bit_simps not_le)
  with Suc show ?case by simp
qed

lemma le_word_le_bytes_full [simp, layout]:
  "8 * n = LENGTH('a) \<Longrightarrow> le_word (le_bytes n w) = (w :: 'a::len word)"
  by (simp add: le_word_le_bytes take_bit_word_eq_self)

lemma bit_le_word_high: "8 * length bs \<le> i \<Longrightarrow> \<not> bit (le_word bs :: 'a::len word) i"
proof (induction bs arbitrary: i)
  case Nil
  then show ?case by simp
next
  case (Cons b bs)
  then show ?case
    using bit_imp_le_length [of b i] by (auto simp: bit_simps not_le)
qed

lemma le_bytes_le_word:
  "8 * length bs \<le> LENGTH('a) \<Longrightarrow> le_bytes (length bs) (le_word bs :: 'a::len word) = bs"
proof (induction bs)
  case Nil
  then show ?case by simp
next
  case (Cons b bs)
  have "ucast (le_word (b # bs) :: 'a word) = b"
    using Cons.prems by (intro bit_eqI) (auto simp: bit_simps)
  moreover have "drop_bit 8 (le_word (b # bs) :: 'a word) = le_word bs"
  proof (rule bit_eqI)
    fix i
    assume "possible_bit TYPE('a word) i"
    show "bit (drop_bit 8 (le_word (b # bs) :: 'a word)) i = bit (le_word bs :: 'a word) i"
      using Cons.prems bit_le_word_high [of bs i, where 'a = 'a] bit_imp_le_length [of b "8 + i"]
      by (auto simp: bit_simps not_less)
  qed
  ultimately show ?case
    using Cons by simp
qed

lemma le_bytes_le_word_full [simp, layout]:
  "length bs = n \<Longrightarrow> 8 * n = LENGTH('a) \<Longrightarrow> le_bytes n (le_word bs :: 'a::len word) = bs"
  using le_bytes_le_word [of bs, where 'a = 'a] by simp


subsection \<open>Splitting at a separator\<close>

fun split_on :: "'a \<Rightarrow> 'a list \<Rightarrow> 'a list list" where
  "split_on c [] = [[]]"
| "split_on c (x # xs) =
     (if x = c then [] # split_on c xs
      else case split_on c xs of [] \<Rightarrow> [[x]] | w # ws \<Rightarrow> (x # w) # ws)"

lemma split_on_field [simp]: "c \<notin> set w \<Longrightarrow> split_on c w = [w]"
  by (induction w) auto

lemma split_on_sep [simp]: "c \<notin> set w \<Longrightarrow> split_on c (w @ c # rest) = w # split_on c rest"
  by (induction w) auto

lemma split_on_lines: "(\<And>l. l \<in> set ls \<Longrightarrow> c \<notin> set l) \<Longrightarrow> split_on c (concat (map (\<lambda>l. l @ [c]) ls)) = ls @ [[]]"
  by (induction ls) simp_all

text \<open>The same as a scan for the next separator.\<close>

lemma split_on_takeWhile:
  "split_on c s =
     (let h = takeWhile (\<lambda>d. d \<noteq> c) s
      in if length h < length s then h # split_on c (drop (length h + 1) s) else [h])"
  by (induction s) (auto simp: Let_def)


lemma length_filter_imp: "(\<And>x. x \<in> set xs \<Longrightarrow> P x \<Longrightarrow> Q x) \<Longrightarrow> length (filter P xs) \<le> length (filter Q xs)"
  by (induction xs) (auto intro: le_SucI)


subsection \<open>Waiting\<close>

text \<open>
  A loop that does nothing but read until a condition is over, from the \<open>k\<close>-th reading on: the number of the reading
  that ended it, \<^const>\<open>None\<close> when no reading does.
\<close>

partial_function (option) spin_while :: "(nat \<Rightarrow> bool) \<Rightarrow> nat \<Rightarrow> nat option" where
  "spin_while busy k = (if busy k then spin_while busy (k + 1) else Some k)"

lemma spin_while_first:
  assumes "\<And>i. k \<le> i \<Longrightarrow> i < k + n \<Longrightarrow> busy i" "\<not> busy (k + n)"
  shows "spin_while busy k = Some (k + n)"
  using assms
proof (induction n arbitrary: k)
  case 0
  then show ?case
    by (simp add: spin_while.simps [of _ k])
next
  case (Suc n)
  then have "busy k" "spin_while busy (k + 1) = Some (k + 1 + n)"
    by (simp_all add: Suc.IH)
  then show ?case
    by (simp add: spin_while.simps [of _ k])
qed

text \<open>It returns when, and only when, some reading ends it, and then at the first that does.\<close>

lemma spin_while_returns:
  assumes "\<not> busy j" "k \<le> j"
  obtains i where "spin_while busy k = Some i" "k \<le> i" "i \<le> j" "\<not> busy i"
proof -
  define n where "n = (LEAST n. \<not> busy (k + n))"
  have j: "\<not> busy (k + (j - k))"
    using assms by simp
  then have n: "\<not> busy (k + n)" "n \<le> j - k"
    unfolding n_def by (rule LeastI [where P = "\<lambda>n. \<not> busy (k + n)"], intro Least_le)
  moreover have "busy i" if "k \<le> i" "i < k + n" for i
    using not_less_Least [of "i - k" "\<lambda>n. \<not> busy (k + n)"] that unfolding n_def by fastforce
  ultimately have "spin_while busy k = Some (k + n)"
    by (intro spin_while_first)
  with n assms(2) show thesis
    by (intro that [of "k + n"]) auto
qed

lemma spin_while_result:
  "spin_while busy k = Some i \<Longrightarrow> k \<le> i \<and> \<not> busy i \<and> (\<forall>j. k \<le> j \<longrightarrow> j < i \<longrightarrow> busy j)"
proof (induction rule: spin_while.raw_induct [rotated, consumes 1, case_names step])
  case (step spin busy k i)
  show ?case
  proof (cases "busy k")
    case True
    then have "k + 1 \<le> i \<and> \<not> busy i \<and> (\<forall>j. k + 1 \<le> j \<longrightarrow> j < i \<longrightarrow> busy j)"
      using step.IH [of busy "k + 1" i] step.hyps by simp
    moreover have "busy j" if "k \<le> j" "\<not> k + 1 \<le> j" for j
      using that True by (cases "j = k") auto
    ultimately show ?thesis
      by auto
  qed (use step in auto)
qed

lemma spin_while_stuck: "(\<And>i. k \<le> i \<Longrightarrow> busy i) \<Longrightarrow> spin_while busy k = None"
  using spin_while_result [of busy k] by (cases "spin_while busy k") auto

end
