(* ===== verification/WireMessages.thy ===== *)
theory WireMessages
  imports HftPrelude
begin

text \<open>
  The wire structs and the frame reader: \<open>include/hft/itch_message.hpp\<close>,
  \<open>include/hft/order_msg.hpp\<close> and \<open>include/hft/itch_parser.hpp\<close>.

  A packed struct is a record of words; \<open>std::memcpy\<close> of the struct to or from a byte
  buffer is \<open>encode_*\<close> and \<open>parse_*\<close>, with the fields at the offsets the
  \<open>static_assert\<close>s of the source fix. An enum class is a datatype and a map to its byte; a
  byte that is no enumerator (which the C++ enum can hold) reads as \<^const>\<open>None\<close>. A
  pointer into a buffer is an index into the byte list; a read past its end is \<^const>\<open>None\<close>.

  The locale \<open>wire_codec\<close> states what a fixed-size frame format promises; it is
  interpreted for the three structs, and its lemma on concatenated frames is what the feed
  handler and the simulated exchange rely on.
\<close>


subsection \<open>Field encodings\<close>

datatype msg_type = kUnknown | kAdd | kExecute | kCancel | kDelete | kTrade

primrec msg_type_code :: "msg_type \<Rightarrow> u8" where
  "msg_type_code kUnknown = 0"
| "msg_type_code kAdd = 65"
| "msg_type_code kExecute = 69"
| "msg_type_code kCancel = 88"
| "msg_type_code kDelete = 68"
| "msg_type_code kTrade = 80"

definition msg_type_of :: "u8 \<Rightarrow> msg_type option" where
  "msg_type_of b =
     (if b = 0 then Some kUnknown
      else if b = 65 then Some kAdd
      else if b = 69 then Some kExecute
      else if b = 88 then Some kCancel
      else if b = 68 then Some kDelete
      else if b = 80 then Some kTrade
      else None)"

datatype side = kNone | kBuy | kSell

primrec side_code :: "side \<Rightarrow> u8" where
  "side_code kNone = 0"
| "side_code kBuy = 66"
| "side_code kSell = 83"

definition side_of :: "u8 \<Rightarrow> side option" where
  "side_of b =
     (if b = 0 then Some kNone else if b = 66 then Some kBuy else if b = 83 then Some kSell else None)"

datatype order_action = kNew | kCancelOrder

primrec order_action_code :: "order_action \<Rightarrow> u8" where
  "order_action_code kNew = 78"
| "order_action_code kCancelOrder = 67"

definition order_action_of :: "u8 \<Rightarrow> order_action option" where
  "order_action_of b = (if b = 78 then Some kNew else if b = 67 then Some kCancelOrder else None)"

datatype exec_status = kAck | kFilled | kPartial | kRejected | kCanceled

primrec exec_status_code :: "exec_status \<Rightarrow> u8" where
  "exec_status_code kAck = 65"
| "exec_status_code kFilled = 70"
| "exec_status_code kPartial = 80"
| "exec_status_code kRejected = 82"
| "exec_status_code kCanceled = 88"

definition exec_status_of :: "u8 \<Rightarrow> exec_status option" where
  "exec_status_of b =
     (if b = 65 then Some kAck else if b = 70 then Some kFilled else if b = 80 then Some kPartial
      else if b = 82 then Some kRejected else if b = 88 then Some kCanceled else None)"

lemma msg_type_of_code [simp]: "msg_type_of (msg_type_code t) = Some t"
  by (cases t) (simp_all add: msg_type_of_def)

lemma msg_type_of_num [simp]:
  "msg_type_of 0 = Some kUnknown" "msg_type_of 65 = Some kAdd" "msg_type_of 69 = Some kExecute"
  "msg_type_of 88 = Some kCancel" "msg_type_of 68 = Some kDelete" "msg_type_of 80 = Some kTrade"
  by (simp_all add: msg_type_of_def)

lemma msg_type_of_SomeD: "msg_type_of b = Some t \<Longrightarrow> b = msg_type_code t"
  by (auto simp: msg_type_of_def split: if_splits)

lemma side_of_code [simp]: "side_of (side_code s) = Some s"
  by (cases s) (simp_all add: side_of_def)

lemma side_code_inject [simp]: "side_code s = side_code t \<longleftrightarrow> s = t"
  by (cases s; cases t) simp_all

lemma side_code_num [simp]:
  "side_code s = 0 \<longleftrightarrow> s = kNone" "side_code s = 66 \<longleftrightarrow> s = kBuy" "side_code s = 83 \<longleftrightarrow> s = kSell"
  by (cases s; simp)+

lemma order_action_of_code [simp]: "order_action_of (order_action_code a) = Some a"
  by (cases a) (simp_all add: order_action_of_def)

lemma exec_status_of_code [simp]: "exec_status_of (exec_status_code s) = Some s"
  by (cases s) (simp_all add: exec_status_of_def)

text \<open>
  Prices are fixed point with four implied decimals: \<open>kPriceScale\<close> units per dollar.
\<close>

definition kPriceScale :: i64 where
  "kPriceScale = 10000"


subsection \<open>Tickers packed into a word\<close>

text \<open>
  \<open>pack_symbol\<close> reads a C string: \<open>s\<close> is the list of its bytes, ending where the
  terminating NUL stands. The loop copies bytes while \<open>i < 4\<close> and \<open>s[i] != '\0'\<close> into
  a zeroed array \<open>b\<close>.
\<close>

function pack_loop :: "nat \<Rightarrow> u8 list \<Rightarrow> u8 list \<Rightarrow> u8 list" where
  "pack_loop i s b =
     (if i < 4 \<and> i < length s \<and> s ! i \<noteq> 0 then pack_loop (Suc i) s (b[i := s ! i]) else b)"
  by pat_completeness auto
termination
  by (relation "measure (\<lambda>(i, s, b). 4 - i)") auto

declare pack_loop.simps [simp del]

definition pack_symbol :: "u8 list \<Rightarrow> u32" where
  "pack_symbol s = le_word (pack_loop 0 s [0, 0, 0, 0])"

definition unpack_symbol :: "u32 \<Rightarrow> u8 list" where
  "unpack_symbol v = le_bytes 4 v @ [0]"

text \<open>A char array read back as a C string: the bytes before the first NUL.\<close>

definition c_string :: "u8 list \<Rightarrow> u8 list" where
  "c_string cs = takeWhile (\<lambda>c. c \<noteq> 0) cs"

lemma pack_loop_eq:
  assumes "length b = 4" "i \<le> 4"
  shows "pack_loop i s b = take i b @ (let t = take (4 - i) (takeWhile (\<lambda>c. c \<noteq> 0) (drop i s))
           in t @ drop (i + length t) b)"
  using assms
proof (induction i s b rule: pack_loop.induct)
  case (1 i s b)
  show ?case
  proof (cases "i < 4 \<and> i < length s \<and> s ! i \<noteq> 0")
    case True
    then have "drop i s = s ! i # drop (Suc i) s"
      by (simp add: Cons_nth_drop_Suc)
    moreover have "4 - i = Suc (4 - Suc i)"
      using True by arith
    ultimately show ?thesis
      using True 1 by (simp add: pack_loop.simps [of i s b] Let_def take_Suc_conv_app_nth)
  next
    case False
    then have "take (4 - i) (takeWhile (\<lambda>c. c \<noteq> 0) (drop i s)) = []"
      using 1 by (cases "drop i s") (auto simp: nth_via_drop not_less)
    with False show ?thesis
      by (auto simp: pack_loop.simps [of i s b] Let_def)
  qed
qed

lemma length_pack_loop [simp]: "length (pack_loop i s b) = length b"
  by (induction i s b rule: pack_loop.induct) (subst pack_loop.simps, auto)


subsection \<open>The market-data message\<close>

record itch_message =
  m_timestamp :: u64
  m_price :: i64
  m_symbol :: u32
  m_size :: u32
  m_seq :: u32
  m_type :: u8
  m_side :: u8
  m_flags :: u16

definition kMsgSize :: nat where
  "kMsgSize = 32"

definition zero_itch_message :: itch_message where
  "zero_itch_message = \<lparr>m_timestamp = 0, m_price = 0, m_symbol = 0, m_size = 0, m_seq = 0,
     m_type = 0, m_side = 0, m_flags = 0\<rparr>"

definition msg_type :: "itch_message \<Rightarrow> msg_type option" where
  "msg_type m = msg_type_of (m_type m)"

definition msg_side :: "itch_message \<Rightarrow> side option" where
  "msg_side m = side_of (m_side m)"

definition encode_message :: "itch_message \<Rightarrow> u8 list" where
  "encode_message m =
     le_bytes 8 (m_timestamp m) @ le_bytes 8 (m_price m) @ le_bytes 4 (m_symbol m) @
     le_bytes 4 (m_size m) @ le_bytes 4 (m_seq m) @ le_bytes 1 (m_type m) @
     le_bytes 1 (m_side m) @ le_bytes 2 (m_flags m)"

text \<open>The \<open>n\<close> bytes at offset \<open>off\<close> of a buffer.\<close>

definition field :: "nat \<Rightarrow> nat \<Rightarrow> u8 list \<Rightarrow> u8 list" where
  "field off n bs = take n (drop off bs)"

definition parse_message :: "u8 list \<Rightarrow> itch_message" where
  "parse_message src =
     \<lparr>m_timestamp = le_word (field 0 8 src), m_price = le_word (field 8 8 src),
      m_symbol = le_word (field 16 4 src), m_size = le_word (field 20 4 src),
      m_seq = le_word (field 24 4 src), m_type = le_word (field 28 1 src),
      m_side = le_word (field 29 1 src), m_flags = le_word (field 30 2 src)\<rparr>"

lemma length_encode_message [simp]: "length (encode_message m) = 32"
  by (simp add: encode_message_def)

lemma field_split: "off + n \<le> length bs \<Longrightarrow> field off n bs @ drop (off + n) bs = drop off bs"
  by (metis append_take_drop_id drop_drop add.commute field_def)

lemma length_field [simp]: "off + n \<le> length bs \<Longrightarrow> length (field off n bs) = n"
  by (simp add: field_def)

lemma drop_field_step: "off + n \<le> length bs \<Longrightarrow> drop off bs = field off n bs @ drop (off + n) bs"
  by (simp add: field_split)

lemma parse_encode_message: "parse_message (encode_message m @ rest) = m"
  by (simp add: parse_message_def encode_message_def field_def)

lemma encode_parse_message:
  assumes "length bs = 32"
  shows "encode_message (parse_message bs) = bs"
proof -
  have "encode_message (parse_message bs) =
      field 0 8 bs @ field 8 8 bs @ field 16 4 bs @ field 20 4 bs @ field 24 4 bs @
      field 28 1 bs @ field 29 1 bs @ field 30 2 bs"
    using assms by (simp add: encode_message_def parse_message_def del: le_bytes.simps)
  also have "\<dots> = bs"
    using assms drop_field_step [of 0 8 bs] drop_field_step [of 8 8 bs]
      drop_field_step [of 16 4 bs] drop_field_step [of 20 4 bs] drop_field_step [of 24 4 bs]
      drop_field_step [of 28 1 bs] drop_field_step [of 29 1 bs] drop_field_step [of 30 2 bs]
    by simp
  finally show ?thesis .
qed


subsection \<open>Orders and execution reports\<close>

record order_request =
  o_order_id :: u64
  o_md_timestamp :: u64
  o_price :: i64
  o_symbol :: u32
  o_size :: u32
  o_side :: u8
  o_action :: u8
  o_flags :: u16
  o_pad :: u32

record exec_report =
  r_order_id :: u64
  r_md_timestamp :: u64
  r_fill_price :: i64
  r_symbol :: u32
  r_fill_size :: u32
  r_side :: u8
  r_status :: u8
  r_flags :: u16
  r_pad :: u32

definition kOrderSize :: nat where
  "kOrderSize = 40"

definition kExecSize :: nat where
  "kExecSize = 40"

text \<open>The value-initialised structs \<open>OrderRequest o{}\<close> and \<open>ExecReport r{}\<close>.\<close>

definition zero_order :: order_request where
  "zero_order = \<lparr>o_order_id = 0, o_md_timestamp = 0, o_price = 0, o_symbol = 0, o_size = 0,
     o_side = 0, o_action = 0, o_flags = 0, o_pad = 0\<rparr>"

definition zero_exec :: exec_report where
  "zero_exec = \<lparr>r_order_id = 0, r_md_timestamp = 0, r_fill_price = 0, r_symbol = 0,
     r_fill_size = 0, r_side = 0, r_status = 0, r_flags = 0, r_pad = 0\<rparr>"

definition order_action :: "order_request \<Rightarrow> order_action option" where
  "order_action o' = order_action_of (o_action o')"

definition exec_status :: "exec_report \<Rightarrow> exec_status option" where
  "exec_status e = exec_status_of (r_status e)"

definition encode_order :: "order_request \<Rightarrow> u8 list" where
  "encode_order x =
     le_bytes 8 (o_order_id x) @ le_bytes 8 (o_md_timestamp x) @ le_bytes 8 (o_price x) @
     le_bytes 4 (o_symbol x) @ le_bytes 4 (o_size x) @ le_bytes 1 (o_side x) @
     le_bytes 1 (o_action x) @ le_bytes 2 (o_flags x) @ le_bytes 4 (o_pad x)"

definition parse_order :: "u8 list \<Rightarrow> order_request" where
  "parse_order src =
     \<lparr>o_order_id = le_word (field 0 8 src), o_md_timestamp = le_word (field 8 8 src),
      o_price = le_word (field 16 8 src), o_symbol = le_word (field 24 4 src),
      o_size = le_word (field 28 4 src), o_side = le_word (field 32 1 src),
      o_action = le_word (field 33 1 src), o_flags = le_word (field 34 2 src),
      o_pad = le_word (field 36 4 src)\<rparr>"

definition encode_exec :: "exec_report \<Rightarrow> u8 list" where
  "encode_exec x =
     le_bytes 8 (r_order_id x) @ le_bytes 8 (r_md_timestamp x) @ le_bytes 8 (r_fill_price x) @
     le_bytes 4 (r_symbol x) @ le_bytes 4 (r_fill_size x) @ le_bytes 1 (r_side x) @
     le_bytes 1 (r_status x) @ le_bytes 2 (r_flags x) @ le_bytes 4 (r_pad x)"

definition parse_exec :: "u8 list \<Rightarrow> exec_report" where
  "parse_exec src =
     \<lparr>r_order_id = le_word (field 0 8 src), r_md_timestamp = le_word (field 8 8 src),
      r_fill_price = le_word (field 16 8 src), r_symbol = le_word (field 24 4 src),
      r_fill_size = le_word (field 28 4 src), r_side = le_word (field 32 1 src),
      r_status = le_word (field 33 1 src), r_flags = le_word (field 34 2 src),
      r_pad = le_word (field 36 4 src)\<rparr>"

lemma length_encode_order [simp]: "length (encode_order x) = 40"
  by (simp add: encode_order_def)

lemma length_encode_exec [simp]: "length (encode_exec x) = 40"
  by (simp add: encode_exec_def)

lemma parse_encode_order: "parse_order (encode_order x @ rest) = x"
  by (simp add: parse_order_def encode_order_def field_def)

lemma parse_encode_exec: "parse_exec (encode_exec x @ rest) = x"
  by (simp add: parse_exec_def encode_exec_def field_def)

text \<open>The order and report structs share their layout, so one decomposition serves both.\<close>

lemma forty_bytes:
  assumes "length bs = 40"
  shows "field 0 8 bs @ field 8 8 bs @ field 16 8 bs @ field 24 4 bs @ field 28 4 bs @
      field 32 1 bs @ field 33 1 bs @ field 34 2 bs @ field 36 4 bs = bs"
  using assms drop_field_step [of 0 8 bs] drop_field_step [of 8 8 bs]
    drop_field_step [of 16 8 bs] drop_field_step [of 24 4 bs] drop_field_step [of 28 4 bs]
    drop_field_step [of 32 1 bs] drop_field_step [of 33 1 bs] drop_field_step [of 34 2 bs]
    drop_field_step [of 36 4 bs]
  by simp

lemma encode_parse_order: "length bs = 40 \<Longrightarrow> encode_order (parse_order bs) = bs"
  using forty_bytes [of bs]
  by (simp add: encode_order_def parse_order_def del: le_bytes.simps)

lemma encode_parse_exec: "length bs = 40 \<Longrightarrow> encode_exec (parse_exec bs) = bs"
  using forty_bytes [of bs]
  by (simp add: encode_exec_def parse_exec_def del: le_bytes.simps)


subsection \<open>Fixed-size frames\<close>

text \<open>The whole frames of \<open>n\<close> bytes at the front of a buffer; a truncated tail is left over.\<close>

function frames :: "nat \<Rightarrow> u8 list \<Rightarrow> u8 list list" where
  "frames n bs = (if 0 < n \<and> n \<le> length bs then take n bs # frames n (drop n bs) else [])"
  by pat_completeness auto
termination
  by (relation "measure (\<lambda>(n, bs). length bs)") auto

declare frames.simps [simp del]

lemma frames_short: "length bs < n \<Longrightarrow> frames n bs = []"
  by (subst frames.simps) simp

lemma length_frames: "0 < n \<Longrightarrow> length (frames n bs) = length bs div n"
proof (induction n bs rule: frames.induct)
  case (1 n bs)
  then show ?case
    by (auto simp: frames.simps [of n bs] not_le le_div_geq)
qed

lemma frames_append: "0 < n \<Longrightarrow> n dvd length xs \<Longrightarrow> frames n (xs @ ys) = frames n xs @ frames n ys"
proof (induction n xs rule: frames.induct)
  case (1 n xs)
  show ?case
  proof (cases "n \<le> length xs")
    case True
    with 1 have "frames n (drop n xs @ ys) = frames n (drop n xs) @ frames n ys"
      by (simp add: dvd_diff_nat)
    with True 1(2) show ?thesis
      by (simp add: frames.simps [of n xs] frames.simps [of n "xs @ ys"])
  next
    case False
    with 1 have "xs = []"
      by (metis dvd_imp_le length_greater_0_conv not_le)
    then show ?thesis
      using 1(2) by (simp add: frames_short)
  qed
qed

lemma concat_frames: "concat (frames n bs) @ drop (n * length (frames n bs)) bs = bs"
proof (induction n bs rule: frames.induct)
  case (1 n bs)
  show ?case
  proof (cases "0 < n \<and> n \<le> length bs")
    case True
    with 1 have "concat (frames n (drop n bs)) @ drop (n * length (frames n (drop n bs))) (drop n bs)
        = drop n bs"
      by blast
    with True show ?thesis
      by (simp add: frames.simps [of n bs] add.commute)
  next
    case False
    then show ?thesis by (auto simp: frames.simps [of n bs])
  qed
qed

locale wire_codec =
  fixes width :: nat
    and enc :: "'m \<Rightarrow> u8 list"
    and dec :: "u8 list \<Rightarrow> 'm"
  assumes width_pos: "0 < width"
    and length_enc: "length (enc m) = width"
    and dec_enc: "dec (enc m @ rest) = m"
    and enc_dec: "length bs = width \<Longrightarrow> enc (dec bs) = bs"
begin

lemma dec_enc_exact: "dec (enc m) = m"
  using dec_enc [of m "[]"] by simp

lemma take_enc: "take width (enc m) = enc m"
  by (simp add: length_enc)

lemma enc_inject: "enc m = enc m' \<longleftrightarrow> m = m'"
  using dec_enc_exact by metis

lemma frames_encoded: "length tail < width \<Longrightarrow> frames width (concat (map enc ms) @ tail) = map enc ms"
proof (induction ms)
  case Nil
  then show ?case by (simp add: frames.simps)
next
  case (Cons m ms)
  then show ?case
    using length_enc [of m] width_pos by (simp add: frames.simps [of width "enc m @ _"])
qed

lemma decode_batch: "length tail < width \<Longrightarrow>
    map dec (frames width (concat (map enc ms) @ tail)) = ms"
  by (simp add: frames_encoded dec_enc_exact o_def)

end

interpretation itch_codec: wire_codec kMsgSize encode_message parse_message
  by unfold_locales (simp_all add: kMsgSize_def parse_encode_message encode_parse_message)

interpretation order_codec: wire_codec kOrderSize encode_order parse_order
  by unfold_locales (simp_all add: kOrderSize_def parse_encode_order encode_parse_order)

interpretation exec_codec: wire_codec kExecSize encode_exec parse_exec
  by unfold_locales (simp_all add: kExecSize_def parse_encode_exec encode_parse_exec)


subsection \<open>The frame reader\<close>

text \<open>
  \<open>FeedReader\<close> is a cursor over a caller's buffer: \<open>cur_\<close> and \<open>end_\<close> are offsets into
  \<open>fr_data\<close>. \<open>next\<close> copies \<open>kMsgSize\<close> bytes from the cursor; where fewer are readable
  the copy would run past the buffer, which is \<^const>\<open>None\<close>.
\<close>

record feed_reader =
  fr_data :: "u8 list"
  fr_cur :: nat
  fr_end :: nat

definition feed_reader_init :: "u8 list \<Rightarrow> nat \<Rightarrow> feed_reader" where
  "feed_reader_init data bytes = \<lparr>fr_data = data, fr_cur = 0, fr_end = bytes\<rparr>"

definition has_next :: "feed_reader \<Rightarrow> bool" where
  "has_next r \<longleftrightarrow> kMsgSize \<le> fr_end r - fr_cur r"

definition read_at :: "u8 list \<Rightarrow> nat \<Rightarrow> itch_message option" where
  "read_at data cur =
     (if cur + kMsgSize \<le> length data then Some (parse_message (take kMsgSize (drop cur data))) else None)"

definition reader_next :: "feed_reader \<Rightarrow> (itch_message \<times> feed_reader) option" where
  "reader_next r =
     (case read_at (fr_data r) (fr_cur r) of
        None \<Rightarrow> None
      | Some m \<Rightarrow> Some (m, r\<lparr>fr_cur := fr_cur r + kMsgSize\<rparr>))"

definition remaining_bytes :: "feed_reader \<Rightarrow> nat" where
  "remaining_bytes r = fr_end r - fr_cur r"

text \<open>The loop \<open>while (reader.has_next()) ... reader.next()\<close>: the messages and the final cursor.\<close>

function reader_drain :: "feed_reader \<Rightarrow> (itch_message list \<times> feed_reader) option" where
  "reader_drain r =
     (if has_next r
      then (case reader_next r of
              None \<Rightarrow> None
            | Some (m, r') \<Rightarrow> map_option (apfst ((#) m)) (reader_drain r'))
      else Some ([], r))"
  by pat_completeness auto
termination
  by (relation "measure (\<lambda>r. fr_end r - fr_cur r)")
    (auto simp: has_next_def reader_next_def kMsgSize_def split: option.splits)

declare reader_drain.simps [simp del]

definition unread :: "feed_reader \<Rightarrow> u8 list" where
  "unread r = take (fr_end r - fr_cur r) (drop (fr_cur r) (fr_data r))"

lemma reader_next_has_next:
  assumes "has_next r" "fr_end r \<le> length (fr_data r)"
  shows "reader_next r = Some (parse_message (take kMsgSize (unread r)),
           r\<lparr>fr_cur := fr_cur r + kMsgSize\<rparr>)"
  using assms by (simp add: has_next_def reader_next_def read_at_def unread_def kMsgSize_def min_def)

lemma reader_drain_eq:
  assumes "fr_end r \<le> length (fr_data r)" "fr_cur r \<le> fr_end r"
  shows "reader_drain r = Some (map parse_message (frames kMsgSize (unread r)),
           r\<lparr>fr_cur := fr_cur r + kMsgSize * (remaining_bytes r div kMsgSize)\<rparr>)"
  using assms
proof (induction r rule: reader_drain.induct)
  case (1 r)
  show ?case
  proof (cases "has_next r")
    case True
    let ?r' = "r\<lparr>fr_cur := fr_cur r + kMsgSize\<rparr>"
    from True 1 have nxt: "reader_next r = Some (parse_message (take kMsgSize (unread r)), ?r')"
      by (simp add: reader_next_has_next)
    have "unread ?r' = drop kMsgSize (unread r)"
      by (simp add: unread_def drop_take add.commute)
    moreover have "kMsgSize \<le> length (unread r)"
      using True 1 by (simp add: has_next_def unread_def)
    moreover have "remaining_bytes r div kMsgSize = Suc (remaining_bytes ?r' div kMsgSize)"
      using True by (simp add: has_next_def remaining_bytes_def kMsgSize_def le_div_geq)
    ultimately show ?thesis
      using 1 True nxt
      by (simp add: reader_drain.simps [of r] frames.simps [of 32 "unread r"] has_next_def
          kMsgSize_def)
  next
    case False
    then show ?thesis
      using 1 by (simp add: reader_drain.simps [of r] frames_short
          has_next_def unread_def remaining_bytes_def kMsgSize_def)
  qed
qed


subsection \<open>Properties\<close>

context wire_codec
begin

lemma enc_bij: "bij_betw enc UNIV {bs. length bs = width}"
  by (rule bij_betw_byWitness [where f' = dec]) (auto simp: dec_enc_exact length_enc enc_dec)

end

text \<open>
  C12. The three wire formats are exact: every message, order and execution report has one
  byte image of its declared size (32, 40, 40), every byte string of that size is the image of
  exactly one struct, and parsing an image gives the struct back, whatever bytes follow it.
\<close>

theorem wire_formats_exact:
  "bij_betw encode_message UNIV {bs. length bs = kMsgSize}
   \<and> bij_betw encode_order UNIV {bs. length bs = kOrderSize}
   \<and> bij_betw encode_exec UNIV {bs. length bs = kExecSize}
   \<and> parse_message (encode_message m @ rest) = m
   \<and> parse_order (encode_order ord @ rest) = ord
   \<and> parse_exec (encode_exec rep @ rest) = rep"
  by (simp add: itch_codec.enc_bij order_codec.enc_bij exec_codec.enc_bij
      parse_encode_message parse_encode_order parse_encode_exec)

text \<open>
  Draining a frame reader over any \<open>n\<close> received bytes of a buffer never reads past the
  bytes it was given: the loop returns, hands out exactly \<open>n div 32\<close> messages, the frames of
  the buffer in order, and leaves the \<open>n mod 32\<close> bytes of a truncated tail unread.
\<close>

theorem reader_drains_whole_frames:
  assumes "n \<le> length buf"
  shows "\<exists>ms r'. reader_drain (feed_reader_init buf n) = Some (ms, r')
           \<and> ms = map parse_message (frames kMsgSize (take n buf))
           \<and> length ms = n div kMsgSize
           \<and> remaining_bytes r' = n mod kMsgSize"
proof -
  let ?r = "feed_reader_init buf n"
  have un: "unread ?r = take n buf"
    by (simp add: unread_def feed_reader_init_def)
  have drain: "reader_drain ?r = Some (map parse_message (frames kMsgSize (unread ?r)),
      ?r\<lparr>fr_cur := fr_cur ?r + kMsgSize * (remaining_bytes ?r div kMsgSize)\<rparr>)"
    by (rule reader_drain_eq) (use assms in \<open>simp_all add: feed_reader_init_def\<close>)
  have "length (frames kMsgSize (take n buf)) = n div kMsgSize"
    using assms by (simp add: length_frames kMsgSize_def)
  moreover have "remaining_bytes (?r\<lparr>fr_cur := fr_cur ?r + kMsgSize * (remaining_bytes ?r div kMsgSize)\<rparr>)
      = n mod kMsgSize"
    by (simp add: remaining_bytes_def feed_reader_init_def minus_mult_div_eq_mod)
  ultimately show ?thesis
    using drain un by auto
qed

theorem reader_drains_whole_frames_witness:
  "\<exists>ms r'. reader_drain (feed_reader_init (replicate 70 7) 67) = Some (ms, r')
     \<and> length ms = 2 \<and> remaining_bytes r' = 3"
proof -
  have "(67::nat) \<le> length (replicate 70 (7::u8))" by simp
  from reader_drains_whole_frames [OF this] show ?thesis
    by (auto simp: kMsgSize_def)
qed

text \<open>
  A datagram the exchange packs from any list of messages is read back by the frame
  reader as exactly that list, in order.
\<close>

theorem datagram_roundtrip:
  "map_option fst (reader_drain (feed_reader_init (concat (map encode_message ms)) (32 * length ms)))
     = Some ms"
proof -
  let ?buf = "concat (map encode_message ms)"
  let ?r = "feed_reader_init ?buf (32 * length ms)"
  have len: "length ?buf = 32 * length ms"
    by (induction ms) simp_all
  then have "unread ?r = ?buf"
    by (simp add: unread_def feed_reader_init_def)
  moreover have "map parse_message (frames kMsgSize ?buf) = ms"
    using itch_codec.decode_batch [of "[]" ms] by (simp add: kMsgSize_def)
  ultimately show ?thesis
    using len by (subst reader_drain_eq) (simp_all add: feed_reader_init_def)
qed

text \<open>
  A ticker survives packing: unpacking a packed symbol and reading it as a C string
  gives the first four characters of the original.
\<close>

theorem symbol_roundtrip:
  assumes "0 \<notin> set s"
  shows "c_string (unpack_symbol (pack_symbol s)) = take 4 s"
proof -
  have tw: "takeWhile (\<lambda>c. c \<noteq> 0) s = s"
    using assms by (induction s) auto
  let ?b = "take 4 s @ drop (length (take 4 s)) [0, 0, 0, 0 :: u8]"
  have "pack_loop 0 s [0, 0, 0, 0] = ?b"
    using pack_loop_eq [of "[0, 0, 0, 0]" 0 s] by (simp add: tw Let_def)
  then have "unpack_symbol (pack_symbol s) = ?b @ [0]"
    by (simp add: unpack_symbol_def pack_symbol_def del: le_bytes.simps)
  moreover have "takeWhile (\<lambda>c. c \<noteq> 0) (take 4 s @ zs) = take 4 s @ takeWhile (\<lambda>c. c \<noteq> 0) zs" for zs
    using assms by (intro takeWhile_append2) (auto dest: in_set_takeD)
  moreover have "takeWhile (\<lambda>c. c \<noteq> 0) (drop k [0, 0, 0, 0 :: u8] @ [0]) = []" for k
    by (cases "k < 4") (auto simp: less_Suc_eq numeral_eq_Suc)
  ultimately show ?thesis
    by (simp add: c_string_def)
qed

theorem symbol_roundtrip_witness:
  "c_string (unpack_symbol (pack_symbol [84, 69, 83, 84, 49])) = [84, 69, 83, 84]"
proof -
  have "(0::u8) \<notin> set [84, 69, 83, 84, 49]" by simp
  from symbol_roundtrip [OF this] show ?thesis by simp
qed

end
