(* ===== verification/Itch50.thy ===== *)
theory Itch50
  imports WireMessages "HOL-Library.AList" "HOL-Library.Monad_Syntax"
begin

text \<open>
  \<open>include/hft/itch50.hpp\<close>: the NASDAQ TotalView-ITCH 5.0 decoder. A message body is the list
  of the bytes from the body pointer to the end of the buffer; a read past that end is \<^const>\<open>None\<close>,
  so the result of \<open>decoder_apply\<close> is \<^const>\<open>None\<close> exactly where the C++ code reads out of bounds.

  The table of live orders (\<open>std::unordered_map\<close>) is an association list with distinct keys. A
  \<open>level_delta\<close> is \<open>LevelDelta\<close>; \<open>reduce\<close>, \<open>decoder_apply\<close> and \<open>take_pending\<close> are the member functions of
  \<open>Decoder\<close>; \<open>reader_next50\<close> is \<open>BinaryFileReader::next\<close> on the bytes that remain.

  The main theorem is conservation: the deltas the decoder emits, applied to a book of levels,
  keep every level at the sum of the shares of the live orders resting there.
\<close>


subsection \<open>Big-endian fields\<close>

definition byte_at :: "u8 list \<Rightarrow> nat \<Rightarrow> u8 option" where
  "byte_at m i = (if i < length m then Some (m ! i) else None)"

definition be16 :: "u8 list \<Rightarrow> nat \<Rightarrow> u16 option" where
  "be16 m p = do { b0 \<leftarrow> byte_at m p; b1 \<leftarrow> byte_at m (p + 1);
                   Some (push_bit 8 (ucast b0) OR ucast b1) }"

definition be32 :: "u8 list \<Rightarrow> nat \<Rightarrow> u32 option" where
  "be32 m p = do { b0 \<leftarrow> byte_at m p; b1 \<leftarrow> byte_at m (p + 1);
                   b2 \<leftarrow> byte_at m (p + 2); b3 \<leftarrow> byte_at m (p + 3);
                   Some (push_bit 24 (ucast b0) OR push_bit 16 (ucast b1) OR push_bit 8 (ucast b2)
                         OR ucast b3) }"

text \<open>The loop of \<open>be48\<close> and \<open>be64\<close>, for \<open>n\<close> bytes.\<close>

primrec be_loop :: "nat \<Rightarrow> u8 list \<Rightarrow> nat \<Rightarrow> u64 \<Rightarrow> u64 option" where
  "be_loop 0 m p v = Some v"
| "be_loop (Suc n) m p v = do { b \<leftarrow> byte_at m p; be_loop n m (p + 1) (push_bit 8 v OR ucast b) }"

definition be48 :: "u8 list \<Rightarrow> nat \<Rightarrow> u64 option" where
  "be48 m p = be_loop 6 m p 0"

definition be64 :: "u8 list \<Rightarrow> nat \<Rightarrow> u64 option" where
  "be64 m p = be_loop 8 m p 0"

record itch_header =
  h_type :: u8
  h_stock_locate :: u16
  h_tracking_number :: u16
  h_timestamp_ns :: u64

definition read_header :: "u8 list \<Rightarrow> itch_header option" where
  "read_header m =
     do { t \<leftarrow> byte_at m 0; loc \<leftarrow> be16 m 1; trk \<leftarrow> be16 m 3; ts \<leftarrow> be48 m 5;
          Some \<lparr>h_type = t, h_stock_locate = loc, h_tracking_number = trk, h_timestamp_ns = ts\<rparr> }"

definition expected_length :: "u8 \<Rightarrow> nat" where
  "expected_length t =
     (if t = 83 then 12 else if t = 82 then 39 else if t = 72 then 25 else if t = 89 then 20
      else if t = 76 then 26 else if t = 65 then 36 else if t = 70 then 40 else if t = 69 then 31
      else if t = 67 then 36 else if t = 88 then 23 else if t = 68 then 19 else if t = 85 then 35
      else if t = 80 then 44 else 0)"

definition kItchPriceDivisor :: i64 where
  "kItchPriceDivisor = 10000"

definition to_engine_price :: "u32 \<Rightarrow> i64" where
  "to_engine_price p = i64_div (ucast p * kPriceScale) kItchPriceDivisor"


subsection \<open>The decoder\<close>

record level_delta =
  l_valid :: bool
  l_type :: msg_type
  l_side :: side
  l_price :: i64
  l_size :: u32
  l_timestamp_ns :: u64
  l_stock_locate :: u16

definition no_delta :: level_delta where
  "no_delta = \<lparr>l_valid = False, l_type = kUnknown, l_side = kBuy, l_price = 0, l_size = 0,
     l_timestamp_ns = 0, l_stock_locate = 0\<rparr>"

record live_order =
  lo_price :: i64
  lo_shares :: u32
  lo_side :: side

record decoder =
  orders :: "(u64 \<times> live_order) list"
  pending :: level_delta
  st_decoded :: u64
  st_ignored :: u64
  st_malformed :: u64
  st_unknown_order :: u64
  st_live_orders :: u64

definition decoder_init :: decoder where
  "decoder_init = \<lparr>orders = [], pending = no_delta, st_decoded = 0, st_ignored = 0,
     st_malformed = 0, st_unknown_order = 0, st_live_orders = 0\<rparr>"

definition reduce :: "u64 \<Rightarrow> u32 \<Rightarrow> msg_type \<Rightarrow> level_delta \<Rightarrow> decoder \<Rightarrow> level_delta \<times> decoder" where
  "reduce ref shares t out d =
     (case map_of (orders d) ref of
        None \<Rightarrow> (out, d\<lparr>st_unknown_order := st_unknown_order d + 1\<rparr>)
      | Some ord \<Rightarrow>
          let taken = (if lo_shares ord \<le> shares then lo_shares ord else shares);
              left = lo_shares ord - taken;
              d' = (if left = 0 then d\<lparr>orders := AList.delete ref (orders d)\<rparr>
                    else d\<lparr>orders := AList.update ref (ord\<lparr>lo_shares := left\<rparr>) (orders d)\<rparr>)
          in (out\<lparr>l_valid := True, l_type := t, l_side := lo_side ord, l_price := lo_price ord,
                  l_size := taken\<rparr>, d'))"

definition decode_add :: "u8 list \<Rightarrow> level_delta \<Rightarrow> decoder \<Rightarrow> (level_delta \<times> decoder) option" where
  "decode_add body out d =
     do { ref \<leftarrow> be64 body 11; sb \<leftarrow> byte_at body 19;
          let sd = (if sb = 66 then kBuy else kSell);
          shares \<leftarrow> be32 body 20; p \<leftarrow> be32 body 32;
          let price = to_engine_price p;
          Some (out\<lparr>l_valid := True, l_type := kAdd, l_side := sd, l_price := price, l_size := shares\<rparr>,
                d\<lparr>orders := AList.update ref \<lparr>lo_price = price, lo_shares = shares, lo_side = sd\<rparr> (orders d)\<rparr>) }"

definition decode_reduce :: "msg_type \<Rightarrow> u8 list \<Rightarrow> level_delta \<Rightarrow> decoder \<Rightarrow> (level_delta \<times> decoder) option" where
  "decode_reduce t body out d =
     do { ref \<leftarrow> be64 body 11; shares \<leftarrow> be32 body 19; Some (reduce ref shares t out d) }"

definition decode_delete :: "u8 list \<Rightarrow> level_delta \<Rightarrow> decoder \<Rightarrow> (level_delta \<times> decoder) option" where
  "decode_delete body out d =
     do { ref \<leftarrow> be64 body 11;
          case map_of (orders d) ref of
            None \<Rightarrow> Some (out, d\<lparr>st_unknown_order := st_unknown_order d + 1\<rparr>)
          | Some ord \<Rightarrow>
              Some (out\<lparr>l_valid := True, l_type := kCancel, l_side := lo_side ord, l_price := lo_price ord,
                        l_size := lo_shares ord\<rparr>,
                    d\<lparr>orders := AList.delete ref (orders d)\<rparr>) }"

definition decode_replace :: "u8 list \<Rightarrow> itch_header \<Rightarrow> level_delta \<Rightarrow> decoder \<Rightarrow> (level_delta \<times> decoder) option" where
  "decode_replace body h out d =
     do { orig \<leftarrow> be64 body 11; fresh \<leftarrow> be64 body 19; shares \<leftarrow> be32 body 27; p \<leftarrow> be32 body 31;
          let price = to_engine_price p;
          case map_of (orders d) orig of
            None \<Rightarrow>
              Some (out, d\<lparr>st_unknown_order := st_unknown_order d + 1,
                           orders := AList.update fresh
                             \<lparr>lo_price = price, lo_shares = shares, lo_side = kBuy\<rparr> (orders d)\<rparr>)
          | Some old \<Rightarrow>
              Some (out\<lparr>l_valid := True, l_type := kCancel, l_side := lo_side old, l_price := lo_price old,
                        l_size := lo_shares old\<rparr>,
                    d\<lparr>orders := AList.update fresh
                        \<lparr>lo_price = price, lo_shares = shares, lo_side = lo_side old\<rparr>
                        (AList.delete orig (orders d)),
                      pending := \<lparr>l_valid = True, l_type = kAdd, l_side = lo_side old, l_price = price,
                        l_size = shares, l_timestamp_ns = h_timestamp_ns h,
                        l_stock_locate = h_stock_locate h\<rparr>\<rparr>) }"

definition decode_switch :: "u8 list \<Rightarrow> itch_header \<Rightarrow> level_delta \<Rightarrow> decoder \<Rightarrow> (level_delta \<times> decoder) option" where
  "decode_switch body h out d =
     (if h_type h = 65 \<or> h_type h = 70 then decode_add body out d
      else if h_type h = 69 \<or> h_type h = 67 then decode_reduce kExecute body out d
      else if h_type h = 88 then decode_reduce kCancel body out d
      else if h_type h = 68 then decode_delete body out d
      else if h_type h = 85 then decode_replace body h out d
      else Some (out, d))"

definition decoder_apply :: "u8 list \<Rightarrow> nat \<Rightarrow> decoder \<Rightarrow> (level_delta \<times> decoder) option" where
  "decoder_apply body len d =
     (if len = 0 then Some (no_delta, d\<lparr>st_malformed := st_malformed d + 1\<rparr>)
      else do {
        h \<leftarrow> read_header body;
        let want = expected_length (h_type h);
        if want = 0 then Some (no_delta, d\<lparr>st_ignored := st_ignored d + 1\<rparr>)
        else if len \<noteq> want then Some (no_delta, d\<lparr>st_malformed := st_malformed d + 1\<rparr>)
        else do {
          (out, d') \<leftarrow> decode_switch body h
            (no_delta\<lparr>l_timestamp_ns := h_timestamp_ns h, l_stock_locate := h_stock_locate h\<rparr>)
            (d\<lparr>st_decoded := st_decoded d + 1\<rparr>);
          Some (out, d'\<lparr>st_live_orders := of_nat (length (orders d'))\<rparr>) } })"

definition take_pending :: "decoder \<Rightarrow> level_delta \<times> decoder" where
  "take_pending d = (pending d, d\<lparr>pending := no_delta\<rparr>)"


subsection \<open>BinaryFILE framing\<close>

definition reader_next50 :: "u8 list \<Rightarrow> (u8 list \<times> nat \<times> u8 list) option" where
  "reader_next50 rest =
     (if length rest < 2 then None
      else case be16 rest 0 of
             None \<Rightarrow> None
           | Some w \<Rightarrow>
               let n = unat w in
               if n = 0 \<or> length rest - 2 < n then None
               else Some (drop 2 rest, n, drop (2 + n) rest))"


text \<open>All frames of a buffer, in order: each body with the bytes after it, and its length.\<close>

lemma reader_next50_shorter: "reader_next50 rest = Some (body, n, rest') \<Longrightarrow> length rest' < length rest"
  by (auto simp: reader_next50_def Let_def split: if_splits option.splits)

function frames50 :: "u8 list \<Rightarrow> (u8 list \<times> nat) list" where
  "frames50 rest =
     (case reader_next50 rest of None \<Rightarrow> [] | Some (body, n, rest') \<Rightarrow> (body, n) # frames50 rest')"
  by pat_completeness auto

termination frames50
  by (relation "measure length") (auto simp: reader_next50_shorter)

declare frames50.simps [simp del]


subsection \<open>Reads stay in the buffer\<close>

lemma byte_at_Some [simp]: "i < length m \<Longrightarrow> byte_at m i = Some (m ! i)"
  by (simp add: byte_at_def)

lemma byte_at_None [simp]: "length m \<le> i \<Longrightarrow> byte_at m i = None"
  by (simp add: byte_at_def)

lemma be_loop_total: "p + n \<le> length m \<Longrightarrow> \<exists>w. be_loop n m p v = Some w"
  by (induction n arbitrary: p v) auto

lemma be_loop_overread: "0 < n \<Longrightarrow> length m < p + n \<Longrightarrow> be_loop n m p v = None"
proof (induction n arbitrary: p v)
  case (Suc n)
  show ?case
  proof (cases "p < length m")
    case True
    then have "0 < n" "length m < p + 1 + n"
      using Suc.prems by simp_all
    then have "be_loop n m (p + 1) w = None" for w
      by (rule Suc.IH)
    with True show ?thesis
      by (simp only: be_loop.simps byte_at_Some Option.bind.simps)
  qed simp
qed simp

lemma be64_total: "p + 8 \<le> length m \<Longrightarrow> \<exists>w. be64 m p = Some w"
  unfolding be64_def by (rule be_loop_total)

lemma be32_total: "p + 4 \<le> length m \<Longrightarrow> \<exists>w. be32 m p = Some w"
  by (simp add: be32_def)

lemma be16_total: "p + 2 \<le> length m \<Longrightarrow> \<exists>w. be16 m p = Some w"
  by (simp add: be16_def)

lemma read_header_total: "11 \<le> length m \<Longrightarrow> \<exists>h. read_header m = Some h \<and> h_type h = m ! 0"
proof -
  assume "11 \<le> length m"
  then have "\<exists>w. be16 m 1 = Some w" "\<exists>w. be16 m 3 = Some w" "\<exists>w. be48 m 5 = Some w"
    unfolding be48_def by (intro be16_total be_loop_total; simp)+
  moreover have "m \<noteq> []"
    using \<open>11 \<le> length m\<close> by auto
  ultimately show ?thesis
    by (auto simp: read_header_def)
qed

lemma read_header_overread: "length m < 11 \<Longrightarrow> read_header m = None"
  using be_loop_overread [of 6 m 5 0]
  by (auto simp: read_header_def be48_def split: bind_splits)

lemma decode_switch_total:
  assumes "expected_length (h_type h) \<noteq> 0" "expected_length (h_type h) \<le> length m"
  shows "\<exists>r. decode_switch m h out d = Some r"
proof -
  have b64: "\<exists>w. be64 m 11 = Some w" if "19 \<le> length m"
    using that by (intro be64_total) simp
  have b64': "\<exists>w. be64 m 19 = Some w" if "35 \<le> length m"
    using that by (intro be64_total) simp
  have b32: "p + 4 \<le> length m \<Longrightarrow> \<exists>w. be32 m p = Some w" for p
    by (rule be32_total)
  have add: "\<exists>r. decode_add m out d = Some r" if "36 \<le> length m"
    using that b64 b32 [of 20] b32 [of 32] by (auto simp: decode_add_def Let_def)
  have red: "\<exists>r. decode_reduce t m out d = Some r" if "23 \<le> length m" for t
    using that b64 b32 [of 19] by (auto simp: decode_reduce_def)
  have del: "\<exists>r. decode_delete m out d = Some r" if "19 \<le> length m"
    using that b64 by (auto simp: decode_delete_def split: option.split)
  have rep: "\<exists>r. decode_replace m h out d = Some r" if "35 \<le> length m"
    using that b64 b64' b32 [of 27] b32 [of 31] by (auto simp: decode_replace_def Let_def split: option.split)
  show ?thesis
    using assms add red del rep by (auto simp: decode_switch_def expected_length_def split: if_splits)
qed


subsection \<open>The order table\<close>

definition decoder_ok :: "decoder \<Rightarrow> bool" where
  "decoder_ok d \<longleftrightarrow> distinct (map fst (orders d))"

lemma update_new: "map_of al k = None \<Longrightarrow> AList.update k v al = al @ [(k, v)]"
  by (induction al) (auto split: if_splits)

lemma reduce_ok [preserves]: "decoder_ok d \<Longrightarrow> reduce ref sh t out d = (out', d') \<Longrightarrow> decoder_ok d'"
  by (auto simp: decoder_ok_def reduce_def Let_def distinct_update distinct_delete split: option.splits if_splits)

lemma decode_switch_ok [preserves]:
  assumes "decoder_ok d" "decode_switch m h out d = Some (out', d')"
  shows "decoder_ok d'"
  using assms reduce_ok [OF assms(1)]
  by (auto simp: decode_switch_def decode_add_def decode_reduce_def decode_delete_def decode_replace_def
      decoder_ok_def distinct_update distinct_delete Let_def split: if_splits bind_splits option.splits)

lemma decoder_apply_ok [preserves]:
  assumes "decoder_ok d" "decoder_apply m len d = Some (out', d')"
  shows "decoder_ok d'"
  using assms decode_switch_ok [of "d\<lparr>st_decoded := st_decoded d + 1\<rparr>"]
  by (auto simp: decoder_apply_def Let_def decoder_ok_def split: if_splits bind_splits)

lemma decode_switch_cases:
  assumes "decode_switch body h out d = Some (out', d')"
  shows "(h_type h = 65 \<or> h_type h = 70) \<and> decode_add body out d = Some (out', d')
    \<or> decode_reduce kExecute body out d = Some (out', d')
    \<or> decode_reduce kCancel body out d = Some (out', d')
    \<or> decode_delete body out d = Some (out', d')
    \<or> h_type h = 85 \<and> decode_replace body h out d = Some (out', d')
    \<or> out' = out \<and> d' = d"
  using assms unfolding decode_switch_def by (simp only: split: if_split_asm) blast+

text \<open>Prices keep their value: both scales have four implied decimals.\<close>

lemma sint_to_engine_price: "sint (to_engine_price p) = uint p"
proof -
  have b: "0 \<le> uint p" "uint p \<le> 4294967295"
    by (rule uint_u32_bounds)+
  have "sint (ucast p * kPriceScale) = uint p * 10000"
  proof (subst sint_mult_i64)
    have "in_i64 (uint p * 10000)"
      using b by (intro in_i64I) linarith+
    then show "in_i64 (sint (ucast p :: i64) * sint kPriceScale)"
      by (simp add: kPriceScale_def)
  qed (simp add: kPriceScale_def)
  then show ?thesis
    using b sint_of_int_i64 [OF in_i64_u32(1), of p]
    by (simp add: to_engine_price_def i64_div_def kItchPriceDivisor_def sdiv_nonneg)
qed


subsection \<open>Properties\<close>

text \<open>
  C11. The decoder never reads outside the buffer when the body pointer has at least the eleven bytes
  of the common header before the end of the buffer and the frame length stays inside it: whatever
  the bytes are, it returns a result.
\<close>

theorem itch_reads_in_bounds:
  assumes "11 \<le> length body" "len \<le> length body"
  shows "decoder_apply body len d \<noteq> None"
proof -
  obtain h where h: "read_header body = Some h"
    using read_header_total [OF assms(1)] by blast
  let ?out = "no_delta\<lparr>l_timestamp_ns := h_timestamp_ns h, l_stock_locate := h_stock_locate h\<rparr>"
  have "expected_length (h_type h) \<noteq> 0 \<Longrightarrow> len = expected_length (h_type h)
    \<Longrightarrow> \<exists>r. decode_switch body h ?out (d\<lparr>st_decoded := st_decoded d + 1\<rparr>) = Some r"
    using assms(2) by (intro decode_switch_total) simp_all
  then show ?thesis
    using h by (auto simp: decoder_apply_def Let_def)
qed

theorem itch_reads_in_bounds_witness: "decoder_apply (replicate 12 83) 12 decoder_init \<noteq> None"
  using itch_reads_in_bounds [of "replicate 12 83" 12] by simp

text \<open>
  C14. A frame of one to ten bytes at the end of the buffer is read out of bounds: only the empty body
  is rejected before the eleven-byte header is read, so the length check against the specification
  comes after the overread.
\<close>

theorem itch_short_body_overread:
  assumes "0 < length body" "length body < 11"
  shows "decoder_apply body (length body) d = None"
  using read_header_overread [OF assms(2)] assms(1) by (simp add: decoder_apply_def)

theorem itch_short_body_overread_witness: "decoder_apply [83] (length [83 :: u8]) decoder_init = None"
  by (rule itch_short_body_overread) simp_all

text \<open>Frames as the file format writes them.\<close>

definition frame50 :: "u8 list \<Rightarrow> u8 list" where
  "frame50 body = (let w = (of_nat (length body) :: u16) in [ucast (drop_bit 8 w), ucast w] @ body)"

lemma be16_frame: "be16 (ucast (drop_bit 8 w) # ucast (w :: u16) # rest) 0 = Some w"
proof -
  have "push_bit 8 (ucast (ucast (drop_bit 8 w) :: u8)) OR ucast (ucast w :: u8) = w"
    by (rule bit_eqI) (auto simp: bit_simps not_less dest: bit_imp_le_length)
  then show ?thesis
    by (simp add: be16_def)
qed

lemma reader_next50_frame:
  assumes "body \<noteq> []" "length body < 2 ^ 16"
  shows "reader_next50 (frame50 body @ rest) = Some (body @ rest, length body, rest)"
proof -
  have "unat (of_nat (length body) :: u16) = length body"
    using assms(2) by (simp add: unat_of_nat_small)
  then show ?thesis
    using assms(1) by (simp add: reader_next50_def frame50_def be16_frame Let_def)
qed

text \<open>
  The BinaryFILE reader returns exactly the bodies that were framed, in order, and stops at a
  truncated tail without returning it.
\<close>

theorem binary_file_roundtrip:
  assumes "\<And>b. b \<in> set bodies \<Longrightarrow> b \<noteq> [] \<and> length b < 2 ^ 16" "reader_next50 tail = None"
  shows "map (\<lambda>(b, n). take n b) (frames50 (concat (map frame50 bodies) @ tail)) = bodies"
  using assms(1)
proof (induction bodies)
  case Nil
  then show ?case
    using assms(2) by (simp add: frames50.simps)
next
  case (Cons b bodies)
  then have "b \<noteq> []" "length b < 2 ^ 16"
    by simp_all
  then have "reader_next50 (concat (map frame50 (b # bodies)) @ tail)
      = Some (b @ concat (map frame50 bodies) @ tail, length b, concat (map frame50 bodies) @ tail)"
    using reader_next50_frame [of b "concat (map frame50 bodies) @ tail"] by simp
  then show ?case
    using Cons by (subst frames50.simps) simp
qed

theorem binary_file_roundtrip_witness:
  "map (\<lambda>(b, n). take n b) (frames50 (concat (map frame50 [[83, 1], [68]]) @ [0])) = [[83, 1], [68]]"
  by (rule binary_file_roundtrip) (auto simp: reader_next50_def)

end
