(* ===== verification/Binary64.thy ===== *)
theory Binary64
  imports Complex_Main HftPrelude
begin

text \<open>
  IEEE-754 \<open>double\<close> arithmetic, as far as the engine uses it. A finite double is the rational
  number it denotes; an operation computes exactly and rounds once, to nearest with ties to
  even (\<open>b64_round\<close>), which is what the SSE2 and NEON instructions of the build targets do. The
  subnormal range is kept (no exponent below -1074); overflow to infinity and NaN are not
  values of the model, and no operation of the engine reaches them from the finite inputs its
  theorems speak of.

  \<open>llround_rat\<close> is C's \<open>std::llround\<close> (halves away from zero), \<open>trunc_rat\<close> the cast of a double
  to an integer type, \<open>double_of_u64\<close> the cast of an integer to a double. The lemmas say
  that rounding is monotone, keeps every integer up to \<open>2 ^ 53\<close>, and never crosses a
  representable bound; they are what the percentile, price and rate computations rest on.
\<close>

definition half_even :: "rat \<Rightarrow> int" where
  "half_even x =
     (let f = \<lfloor>x\<rfloor>; r = x - of_int f in
      if r < 1 / 2 then f else if 1 / 2 < r then f + 1 else if even f then f else f + 1)"

fun nat_log2 :: "nat \<Rightarrow> nat" where
  "nat_log2 n = (if n < 2 then 0 else Suc (nat_log2 (n div 2)))"

declare nat_log2.simps [simp del]

text \<open>The exponent of a positive rational: \<open>2 powi rat_exp x \<le> x < 2 powi (rat_exp x + 1)\<close>.\<close>

definition rat_exp :: "rat \<Rightarrow> int" where
  "rat_exp x =
     (let (n, d) = quotient_of x; e = int (nat_log2 (nat n)) - int (nat_log2 (nat d)) in
      if 2 powi e \<le> x then e else e - 1)"

text \<open>The exponent of the unit in the last place: 53 significant bits, at least \<open>2 powi (-1074)\<close>.\<close>

definition ulp_exp :: "rat \<Rightarrow> int" where
  "ulp_exp x = max (rat_exp x - 52) (- 1074)"

definition b64_pos :: "rat \<Rightarrow> rat" where
  "b64_pos x = of_int (half_even (x / 2 powi ulp_exp x)) * 2 powi ulp_exp x"

definition b64_round :: "rat \<Rightarrow> rat" where
  "b64_round x = (if x = 0 then 0 else if 0 < x then b64_pos x else - b64_pos (- x))"

definition dadd :: "rat \<Rightarrow> rat \<Rightarrow> rat" where "dadd x y = b64_round (x + y)"
definition dsub :: "rat \<Rightarrow> rat \<Rightarrow> rat" where "dsub x y = b64_round (x - y)"
definition dmul :: "rat \<Rightarrow> rat \<Rightarrow> rat" where "dmul x y = b64_round (x * y)"
definition ddiv :: "rat \<Rightarrow> rat \<Rightarrow> rat" where "ddiv x y = b64_round (x / y)"

definition double_of_u64 :: "u64 \<Rightarrow> rat" where
  "double_of_u64 w = b64_round (of_int (uint w))"

definition llround_rat :: "rat \<Rightarrow> int" where
  "llround_rat x = (if 0 \<le> x then \<lfloor>x + 1 / 2\<rfloor> else - \<lfloor>- x + 1 / 2\<rfloor>)"

definition trunc_rat :: "rat \<Rightarrow> int" where
  "trunc_rat x = (if 0 \<le> x then \<lfloor>x\<rfloor> else - \<lfloor>- x\<rfloor>)"


subsection \<open>Rounding to an integer\<close>

lemma half_even_of_int [simp]: "half_even (of_int n) = n"
  by (simp add: half_even_def)

lemma half_even_floor: "\<lfloor>x\<rfloor> \<le> half_even x" "half_even x \<le> \<lfloor>x\<rfloor> + 1"
  by (auto simp: half_even_def Let_def)

lemma half_even_le:
  assumes "x \<le> of_int n"
  shows "half_even x \<le> n"
proof (cases "\<lfloor>x\<rfloor> = n")
  case True
  with assms have "x = of_int n"
    using of_int_floor_le [of x] by simp
  then show ?thesis by simp
next
  case False
  with assms have "\<lfloor>x\<rfloor> + 1 \<le> n"
    using floor_mono [OF assms] by simp
  then show ?thesis
    using half_even_floor(2) [of x] by simp
qed

lemma half_even_ge: "of_int n \<le> x \<Longrightarrow> n \<le> half_even x"
  using half_even_floor(1) [of x] floor_mono [of "of_int n" x] by simp

lemma half_even_mono:
  assumes "x \<le> y"
  shows "half_even x \<le> half_even y"
proof (cases "\<lfloor>x\<rfloor> = \<lfloor>y\<rfloor>")
  case True
  with assms show ?thesis
    by (auto simp: half_even_def Let_def)
next
  case False
  with assms have "\<lfloor>x\<rfloor> + 1 \<le> \<lfloor>y\<rfloor>"
    using floor_mono [OF assms] by simp
  then have "x \<le> of_int \<lfloor>y\<rfloor>"
    by linarith
  then have "half_even x \<le> \<lfloor>y\<rfloor>"
    by (rule half_even_le)
  also have "\<dots> \<le> half_even y"
    by (rule half_even_ge) simp
  finally show ?thesis .
qed


subsection \<open>Exponents\<close>

lemma nat_log2_bounds: "0 < n \<Longrightarrow> 2 ^ nat_log2 n \<le> n \<and> n < 2 ^ Suc (nat_log2 n)"
proof (induction n rule: nat_log2.induct)
  case (1 n)
  show ?case
  proof (cases "n < 2")
    case True
    with 1 show ?thesis
      by (simp add: nat_log2.simps [of n])
  next
    case False
    with 1 have *: "2 ^ nat_log2 (n div 2) \<le> n div 2" "n div 2 < 2 ^ Suc (nat_log2 (n div 2))"
      by simp_all
    have "nat_log2 n = Suc (nat_log2 (n div 2))"
      using False by (simp add: nat_log2.simps [of n])
    then have p: "2 ^ nat_log2 n = 2 * 2 ^ nat_log2 (n div 2)"
      by simp
    show ?thesis
      unfolding power_Suc p using * [unfolded power_Suc] by linarith
  qed
qed

lemma rat_exp_bounds:
  assumes "0 < x"
  shows "2 powi rat_exp x \<le> x" "x < 2 powi (rat_exp x + 1)"
proof -
  obtain n d where q: "quotient_of x = (n, d)"
    by fastforce
  then have x: "x = of_int n / of_int d" and "0 < d"
    by (simp_all add: quotient_of_div quotient_of_denom_pos)
  with assms have "0 < n"
    by (simp add: zero_less_divide_iff)
  define a b where "a = nat_log2 (nat n)" and "b = nat_log2 (nat d)"
  have "2 ^ a \<le> nat n" "nat n < 2 ^ Suc a" "2 ^ b \<le> nat d" "nat d < 2 ^ Suc b"
    using nat_log2_bounds [of "nat n"] nat_log2_bounds [of "nat d"] \<open>0 < n\<close> \<open>0 < d\<close>
    by (simp_all add: a_def b_def)
  then have i: "2 ^ a \<le> n" "n < 2 ^ Suc a" "2 ^ b \<le> d" "d < 2 ^ Suc b"
    using \<open>0 < n\<close> \<open>0 < d\<close> by (simp_all add: nat_less_iff le_nat_iff)
  have "of_int (2 ^ a) \<le> (of_int n :: rat)" "(of_int n :: rat) < of_int (2 ^ Suc a)"
    "of_int (2 ^ b) \<le> (of_int d :: rat)" "(of_int d :: rat) < of_int (2 ^ Suc b)"
    using i by (simp_all only: of_int_le_iff of_int_less_iff)
  then have r: "2 ^ a \<le> (of_int n :: rat)" "(of_int n :: rat) < 2 * 2 ^ a"
    "2 ^ b \<le> (of_int d :: rat)" "(of_int d :: rat) < 2 * 2 ^ b"
    by simp_all
  have p: "(2::rat) powi (int a - int b) = 2 ^ a / 2 ^ b"
    by (simp add: power_int_diff)
  have up: "x < 2 * (2 ^ a / 2 ^ b)"
  proof -
    have "x \<le> of_int n / 2 ^ b"
      unfolding x using r \<open>0 < n\<close> \<open>0 < d\<close> by (intro divide_left_mono) auto
    also have "\<dots> < 2 * 2 ^ a / 2 ^ b"
      using r by (simp add: divide_strict_right_mono)
    finally show ?thesis by simp
  qed
  have low: "2 ^ a / 2 ^ b / 2 < x"
  proof -
    have "2 ^ a / (2 * 2 ^ b) < (2::rat) ^ a / of_int d"
      using r \<open>0 < d\<close> by (intro divide_strict_left_mono) auto
    also have "\<dots> \<le> x"
      unfolding x using r \<open>0 < d\<close> by (intro divide_right_mono) auto
    finally show ?thesis by simp
  qed
  have e: "rat_exp x = (if 2 ^ a / 2 ^ b \<le> x then int a - int b else int a - int b - 1)"
    using q p by (simp add: rat_exp_def a_def b_def Let_def)
  have "(2::rat) powi (int a - int b - 1) = 2 ^ a / 2 ^ b / 2"
    using p by (simp add: power_int_diff)
  moreover have "(2::rat) powi (int a - int b + 1) = 2 * (2 ^ a / 2 ^ b)"
    using p by (simp add: power_int_add)
  ultimately show "2 powi rat_exp x \<le> x" "x < 2 powi (rat_exp x + 1)"
    using e p up low by (auto simp: not_le)
qed

lemma powi_le_cancel: "(2::rat) powi a \<le> x \<Longrightarrow> x < 2 powi b \<Longrightarrow> a < b"
  by (meson le_less_trans linorder_not_less one_le_numeral power_int_increasing)

lemma rat_exp_mono: "0 < x \<Longrightarrow> x \<le> y \<Longrightarrow> rat_exp x \<le> rat_exp y"
  using powi_le_cancel [of "rat_exp x" y "rat_exp y + 1"] rat_exp_bounds [of x] rat_exp_bounds [of y]
  by fastforce


subsection \<open>Rounding to a double\<close>

lemma powi_on_grid: "k \<le> e \<Longrightarrow> (2::rat) powi e = of_int (2 ^ nat (e - k)) * 2 powi k"
proof -
  assume "k \<le> e"
  have "(2::rat) powi e = 2 powi (e - k) * 2 powi k"
    by (simp add: power_int_add [symmetric])
  also have "(2::rat) powi (e - k) = 2 ^ nat (e - k)"
    using \<open>k \<le> e\<close> by (simp add: power_int_def)
  finally show ?thesis
    by simp
qed

lemma b64_pos_le_power:
  assumes "x \<le> 2 powi e" "ulp_exp x \<le> e"
  shows "b64_pos x \<le> 2 powi e"
proof -
  define N :: int where "N = 2 ^ nat (e - ulp_exp x)"
  have e: "2 powi e = of_int N * (2::rat) powi ulp_exp x"
    unfolding N_def using assms(2) by (rule powi_on_grid)
  with assms(1) have "x / 2 powi ulp_exp x \<le> of_int N"
    by (simp add: pos_divide_le_eq)
  then have "of_int (half_even (x / 2 powi ulp_exp x)) \<le> (of_int N :: rat)"
    by (simp only: of_int_le_iff half_even_le)
  then show ?thesis
    unfolding e b64_pos_def by (rule mult_right_mono) simp
qed

lemma b64_pos_ge_power:
  assumes "2 powi e \<le> x" "ulp_exp x \<le> e"
  shows "2 powi e \<le> b64_pos x"
proof -
  define N :: int where "N = 2 ^ nat (e - ulp_exp x)"
  have e: "2 powi e = of_int N * (2::rat) powi ulp_exp x"
    unfolding N_def using assms(2) by (rule powi_on_grid)
  with assms(1) have "of_int N \<le> x / 2 powi ulp_exp x"
    by (simp add: pos_le_divide_eq)
  then have "(of_int N :: rat) \<le> of_int (half_even (x / 2 powi ulp_exp x))"
    by (simp only: of_int_le_iff half_even_ge)
  then show ?thesis
    unfolding e b64_pos_def by (rule mult_right_mono) simp
qed

lemma b64_pos_nonneg: "0 < x \<Longrightarrow> 0 \<le> b64_pos x"
  by (simp add: b64_pos_def half_even_ge)

lemma b64_pos_mono:
  assumes "0 < x" "x \<le> y"
  shows "b64_pos x \<le> b64_pos y"
proof (cases "ulp_exp x = ulp_exp y")
  case True
  have "half_even (x / 2 powi ulp_exp y) \<le> half_even (y / 2 powi ulp_exp y)"
    using assms by (intro half_even_mono divide_right_mono) auto
  with True show ?thesis
    by (simp add: b64_pos_def mult_right_mono)
next
  case False
  have "rat_exp x \<le> rat_exp y"
    using assms by (rule rat_exp_mono)
  with False have less: "rat_exp x + 1 \<le> rat_exp y" "- 1022 < rat_exp y"
    by (auto simp: ulp_exp_def max_def split: if_splits)
  then have "ulp_exp x \<le> rat_exp y" "ulp_exp y \<le> rat_exp y"
    by (auto simp: ulp_exp_def)
  have "x \<le> 2 powi rat_exp y"
    using rat_exp_bounds(2) [OF assms(1)] power_int_increasing [OF less(1), of "2::rat"] by simp
  then have "b64_pos x \<le> 2 powi rat_exp y"
    using \<open>ulp_exp x \<le> rat_exp y\<close> by (intro b64_pos_le_power)
  also have "\<dots> \<le> b64_pos y"
    using assms \<open>ulp_exp y \<le> rat_exp y\<close> by (intro b64_pos_ge_power rat_exp_bounds) auto
  finally show ?thesis .
qed

lemma b64_round_mono: "x \<le> y \<Longrightarrow> b64_round x \<le> b64_round y"
  using b64_pos_mono [of x y] b64_pos_mono [of "- y" "- x"] b64_pos_nonneg [of y]
    b64_pos_nonneg [of "- x"]
  by (auto simp: b64_round_def)

lemma b64_round_0 [simp]: "b64_round 0 = 0"
  by (simp add: b64_round_def)

lemma b64_round_nonneg: "0 \<le> x \<Longrightarrow> 0 \<le> b64_round x"
  using b64_round_mono [of 0 x] by simp

text \<open>Only a number below the smallest subnormal rounds to zero.\<close>

lemma b64_round_pos:
  assumes "2 powi - 1074 \<le> x"
  shows "0 < b64_round x"
proof -
  have x: "0 < x"
    by (rule less_le_trans [OF _ assms]) simp
  then have "- 1074 < rat_exp x + 1"
    using powi_le_cancel [OF assms] rat_exp_bounds(2) by blast
  then have "2 powi rat_exp x \<le> b64_pos x"
    using x by (intro b64_pos_ge_power rat_exp_bounds) (simp_all add: ulp_exp_def)
  then show ?thesis
    using x by (simp add: b64_round_def) (meson less_le_trans zero_less_power_int zero_less_numeral)
qed

text \<open>A multiple of the unit in the last place is kept.\<close>

lemma b64_pos_exact: "0 < x \<Longrightarrow> x = of_int m * 2 powi k \<Longrightarrow> ulp_exp x \<le> k \<Longrightarrow> b64_pos x = x"
proof -
  assume x: "x = of_int m * 2 powi k" and k: "ulp_exp x \<le> k"
  have "x / 2 powi ulp_exp x = of_int (m * 2 ^ nat (k - ulp_exp x))"
    by (subst x) (simp add: powi_on_grid [OF k])
  then have "of_int (half_even (x / 2 powi ulp_exp x)) = x / 2 powi ulp_exp x"
    by (metis half_even_of_int)
  then show ?thesis
    by (simp add: b64_pos_def)
qed

lemma b64_round_nat: "n \<le> 2 ^ 53 \<Longrightarrow> b64_round (of_nat n) = of_nat n"
proof (cases "n = 0")
  case True
  then show ?thesis by simp
next
  case False
  assume n: "n \<le> 2 ^ 53"
  show ?thesis
  proof (cases "n = 2 ^ 53")
    case True
    have "rat_exp (2 ^ 53) < 54"
      using powi_le_cancel [of "rat_exp (2 ^ 53)" "2 ^ 53" 54] rat_exp_bounds [of "2 ^ 53"]
      by (simp add: power_int_def)
    then have "ulp_exp (2 ^ 53) \<le> 53"
      by (simp add: ulp_exp_def)
    then have "b64_pos (2 ^ 53) = 2 ^ 53"
      by (intro b64_pos_exact [where m = 1 and k = 53]) (simp_all add: power_int_def)
    with True show ?thesis
      by (simp add: b64_round_def)
  next
    case less: False
    with n have "n < 2 ^ 53"
      by simp
    then have "of_nat n < (of_nat (2 ^ 53) :: rat)"
      by (simp only: of_nat_less_iff)
    then have "of_nat n < (2::rat) powi 53"
      by (simp add: power_int_def)
    then have "rat_exp (of_nat n) < 53"
      using powi_le_cancel rat_exp_bounds(1) [of "of_nat n"] False by auto
    then have "ulp_exp (of_nat n) \<le> 0"
      by (simp add: ulp_exp_def)
    then have "b64_pos (of_nat n) = of_nat n"
      using False by (intro b64_pos_exact [where m = "int n" and k = 0]) simp_all
    with False show ?thesis
      by (simp add: b64_round_def)
  qed
qed

lemma b64_round_uminus: "b64_round (- x) = - b64_round x"
  by (simp add: b64_round_def)

text \<open>Rounding never crosses an integer of at most 53 bits.\<close>

lemma b64_round_le_nat: "n \<le> 2 ^ 53 \<Longrightarrow> x \<le> of_nat n \<Longrightarrow> b64_round x \<le> of_nat n"
  using b64_round_mono [of x "of_nat n"] by (simp add: b64_round_nat)

lemma b64_round_ge_nat: "n \<le> 2 ^ 53 \<Longrightarrow> of_nat n \<le> x \<Longrightarrow> of_nat n \<le> b64_round x"
  using b64_round_mono [of "of_nat n" x] by (simp add: b64_round_nat)


subsection \<open>Integer results\<close>

lemma llround_mono: "x \<le> y \<Longrightarrow> llround_rat x \<le> llround_rat y"
proof (cases "0 \<le> x \<or> y < 0")
  case True
  assume "x \<le> y"
  then show ?thesis
    using True floor_mono [of "x + 1 / 2" "y + 1 / 2"] floor_mono [of "- y + 1 / 2" "- x + 1 / 2"]
    by (auto simp: llround_rat_def)
next
  case False
  then have "0 \<le> \<lfloor>- x + 1 / 2\<rfloor>" "0 \<le> \<lfloor>y + 1 / 2\<rfloor>"
    unfolding zero_le_floor by simp_all
  moreover have "llround_rat x = - \<lfloor>- x + 1 / 2\<rfloor>" "llround_rat y = \<lfloor>y + 1 / 2\<rfloor>"
    using False by (simp_all add: llround_rat_def)
  ultimately show ?thesis
    by linarith
qed

lemma llround_of_int [simp]: "llround_rat (of_int n) = n"
  by (auto simp: llround_rat_def floor_eq_iff)

lemma llround_of_nat [simp]: "llround_rat (of_nat n) = int n"
  using llround_of_int [of "int n"] by simp

lemma trunc_mono: "x \<le> y \<Longrightarrow> trunc_rat x \<le> trunc_rat y"
proof (cases "0 \<le> x \<or> y < 0")
  case True
  assume "x \<le> y"
  then show ?thesis
    using True floor_mono [of x y] floor_mono [of "- y" "- x"] by (auto simp: trunc_rat_def)
next
  case False
  then have "0 \<le> \<lfloor>- x\<rfloor>" "0 \<le> \<lfloor>y\<rfloor>"
    unfolding zero_le_floor by simp_all
  moreover have "trunc_rat x = - \<lfloor>- x\<rfloor>" "trunc_rat y = \<lfloor>y\<rfloor>"
    using False by (simp_all add: trunc_rat_def)
  ultimately show ?thesis
    by linarith
qed

lemma double_of_u64_nonneg [simp]: "0 \<le> double_of_u64 w"
  unfolding double_of_u64_def by (intro b64_round_nonneg of_int_0_le_iff [THEN iffD2]) simp

lemma double_of_u64_exact: "unat w \<le> 2 ^ 53 \<Longrightarrow> double_of_u64 w = of_nat (unat w)"
  using b64_round_nat [of "unat w"] by (simp add: double_of_u64_def)

end
