(* ===== verification/BookView.thy ===== *)
theory BookView
  imports WireMessages Binary64
begin

text \<open>
  \<open>include/hft/book_view.hpp\<close>: the flat-array limit order book. A \<open>book\<close> holds one size per tick and
  side, the cached best indices (\<open>-1\<close> and \<open>NumTicks\<close> when a side is empty), the window
  (\<open>base_\<close>, \<open>tick_\<close>) and the counter of ignored messages; \<open>NumTicks\<close> is the length of the arrays.

  \<open>apply_msg\<close> is \<open>BookView::apply\<close> with its helpers \<open>on_size_increased\<close> and \<open>on_level_emptied\<close>; the two
  walks to the next non-empty level are the recursive functions \<open>walk_down\<close> and \<open>walk_up\<close>.

  The locale \<open>touch\<close> is the contract between a side's array and its cached best index: what an
  add, a reduction and a deletion must leave true. It is interpreted for the bid side (best is the
  highest non-empty level) and the ask side (the lowest). The reference book is a function from
  levels to unbounded sizes, with the touch computed from scratch; the theorems say that the
  cached book implements it on every sequence of messages.
\<close>

record book =
  bid :: "u32 list"
  ask :: "u32 list"
  best_bid_idx :: int
  best_ask_idx :: int
  base :: i64
  tick :: i64
  out_of_range :: u64

definition book_init :: "nat \<Rightarrow> i64 \<Rightarrow> i64 \<Rightarrow> book" where
  "book_init NumTicks base_price tick_size =
     \<lparr>bid = replicate NumTicks 0, ask = replicate NumTicks 0, best_bid_idx = - 1,
      best_ask_idx = int NumTicks, base = base_price, tick = tick_size, out_of_range = 0\<rparr>"

definition num_ticks :: "book \<Rightarrow> nat" where
  "num_ticks b = length (bid b)"

definition kMaxLevelSize :: u32 where
  "kMaxLevelSize = - 1"

definition to_index :: "book \<Rightarrow> i64 \<Rightarrow> int" where
  "to_index b price = sint (ucast (i64_div (price - base b) (tick b)) :: i32)"

definition price_at :: "book \<Rightarrow> int \<Rightarrow> i64" where
  "price_at b idx = base b + word_of_int idx * tick b"

definition has_bid :: "book \<Rightarrow> bool" where
  "has_bid b \<longleftrightarrow> 0 \<le> best_bid_idx b"

definition has_ask :: "book \<Rightarrow> bool" where
  "has_ask b \<longleftrightarrow> best_ask_idx b < int (num_ticks b)"

definition two_sided :: "book \<Rightarrow> bool" where
  "two_sided b \<longleftrightarrow> has_bid b \<and> has_ask b"

definition best_bid_price :: "book \<Rightarrow> i64" where
  "best_bid_price b = price_at b (best_bid_idx b)"

definition best_ask_price :: "book \<Rightarrow> i64" where
  "best_ask_price b = price_at b (best_ask_idx b)"

definition best_bid_size :: "book \<Rightarrow> u32" where
  "best_bid_size b = (if has_bid b then bid b ! nat (best_bid_idx b) else 0)"

definition best_ask_size :: "book \<Rightarrow> u32" where
  "best_ask_size b = (if has_ask b then ask b ! nat (best_ask_idx b) else 0)"

definition imbalance :: "book \<Rightarrow> rat" where
  "imbalance b =
     (if \<not> two_sided b then 0
      else let bs = of_nat (unat (best_bid_size b)); as = of_nat (unat (best_ask_size b));
               denom = dadd bs as
           in if 0 < denom then ddiv (dsub bs as) denom else 0)"

definition size_at :: "book \<Rightarrow> side \<Rightarrow> i64 \<Rightarrow> u32" where
  "size_at b sd price =
     (let idx = to_index b price in
      if idx < 0 \<or> int (num_ticks b) \<le> idx then 0
      else if sd = kBuy then bid b ! nat idx else ask b ! nat idx)"

text \<open>The array of one side (the \<open>arr\<close> pointer of the source), and a store through it.\<close>

definition level :: "bool \<Rightarrow> book \<Rightarrow> nat \<Rightarrow> u32" where
  "level is_bid b i = (if is_bid then bid b else ask b) ! i"

definition set_level :: "bool \<Rightarrow> nat \<Rightarrow> u32 \<Rightarrow> book \<Rightarrow> book" where
  "set_level is_bid i v b =
     (if is_bid then b\<lparr>bid := (bid b)[i := v]\<rparr> else b\<lparr>ask := (ask b)[i := v]\<rparr>)"

definition raise_bid :: "int \<Rightarrow> int \<Rightarrow> int" where
  "raise_bid idx best = (if best < idx then idx else best)"

definition raise_ask :: "int \<Rightarrow> int \<Rightarrow> int" where
  "raise_ask idx best = (if idx < best then idx else best)"

definition on_size_increased :: "bool \<Rightarrow> nat \<Rightarrow> book \<Rightarrow> book" where
  "on_size_increased is_bid idx b =
     (if is_bid then b\<lparr>best_bid_idx := raise_bid (int idx) (best_bid_idx b)\<rparr>
      else b\<lparr>best_ask_idx := raise_ask (int idx) (best_ask_idx b)\<rparr>)"

text \<open>
  \<open>while (j >= 0 && bid_[j] == 0) --j\<close>, on \<open>j + 1\<close>; and \<open>while (j < NumTicks && ask_[j] == 0) ++j\<close>.
\<close>

fun walk_down :: "u32 list \<Rightarrow> nat \<Rightarrow> int" where
  "walk_down xs 0 = - 1"
| "walk_down xs (Suc j) = (if xs ! j = 0 then walk_down xs j else int j)"

function walk_up :: "u32 list \<Rightarrow> nat \<Rightarrow> int" where
  "walk_up xs j = (if j < length xs \<and> xs ! j = 0 then walk_up xs (j + 1) else int j)"
  by pat_completeness auto

termination walk_up
  by (relation "measure (\<lambda>(xs, j). length xs - j)") auto

declare walk_up.simps [simp del]

definition drop_bid :: "u32 list \<Rightarrow> nat \<Rightarrow> int \<Rightarrow> int" where
  "drop_bid xs idx best = (if int idx \<noteq> best then best else walk_down xs idx)"

definition drop_ask :: "u32 list \<Rightarrow> nat \<Rightarrow> int \<Rightarrow> int" where
  "drop_ask xs idx best = (if int idx \<noteq> best then best else walk_up xs (idx + 1))"

definition on_level_emptied :: "bool \<Rightarrow> nat \<Rightarrow> book \<Rightarrow> book" where
  "on_level_emptied is_bid idx b =
     (if is_bid then b\<lparr>best_bid_idx := drop_bid (bid b) idx (best_bid_idx b)\<rparr>
      else b\<lparr>best_ask_idx := drop_ask (ask b) idx (best_ask_idx b)\<rparr>)"

definition add_saturating :: "u32 \<Rightarrow> u32 \<Rightarrow> u32" where
  "add_saturating cur sz = (if kMaxLevelSize - sz < cur then kMaxLevelSize else cur + sz)"

definition apply_level :: "msg_type option \<Rightarrow> u32 \<Rightarrow> bool \<Rightarrow> nat \<Rightarrow> book \<Rightarrow> book" where
  "apply_level t sz is_bid idx b =
     (let cur = level is_bid b idx in
      case t of
        Some kAdd \<Rightarrow>
          if sz = 0 then b
          else on_size_increased is_bid idx (set_level is_bid idx (add_saturating cur sz) b)
      | Some kExecute \<Rightarrow>
          let b = set_level is_bid idx (if cur \<le> sz then 0 else cur - sz) b in
          if level is_bid b idx = 0 then on_level_emptied is_bid idx b else b
      | Some kCancel \<Rightarrow>
          let b = set_level is_bid idx (if cur \<le> sz then 0 else cur - sz) b in
          if level is_bid b idx = 0 then on_level_emptied is_bid idx b else b
      | Some kDelete \<Rightarrow> on_level_emptied is_bid idx (set_level is_bid idx 0 b)
      | _ \<Rightarrow> b)"

definition apply_msg :: "itch_message \<Rightarrow> book \<Rightarrow> book" where
  "apply_msg m b =
     (let idx = to_index b (m_price m) in
      if idx < 0 \<or> int (num_ticks b) \<le> idx then b\<lparr>out_of_range := out_of_range b + 1\<rparr>
      else apply_level (msg_type_of (m_type m)) (m_size m) (m_side m = side_code kBuy) (nat idx) b)"


subsection \<open>One side of the book\<close>

text \<open>What one message does to one side: its array and its best index.\<close>

definition side_apply ::
    "(int \<Rightarrow> int \<Rightarrow> int) \<Rightarrow> (u32 list \<Rightarrow> nat \<Rightarrow> int \<Rightarrow> int) \<Rightarrow> msg_type option \<Rightarrow> u32 \<Rightarrow> nat
     \<Rightarrow> u32 list \<Rightarrow> int \<Rightarrow> u32 list \<times> int" where
  "side_apply up lower t sz i xs j =
     (let reduced = (if xs ! i \<le> sz then 0 else xs ! i - sz) in
      case t of
        Some kAdd \<Rightarrow> if sz = 0 then (xs, j) else (xs[i := add_saturating (xs ! i) sz], up (int i) j)
      | Some kExecute \<Rightarrow> (xs[i := reduced], if reduced = 0 then lower (xs[i := reduced]) i j else j)
      | Some kCancel \<Rightarrow> (xs[i := reduced], if reduced = 0 then lower (xs[i := reduced]) i j else j)
      | Some kDelete \<Rightarrow> (xs[i := 0], lower (xs[i := 0]) i j)
      | _ \<Rightarrow> (xs, j))"

lemma apply_level_bid:
  assumes "i < length (bid b)"
  shows "apply_level t sz True i b =
    (let (xs, j) = side_apply raise_bid drop_bid t sz i (bid b) (best_bid_idx b)
     in b\<lparr>bid := xs, best_bid_idx := j\<rparr>)"
  using assms
  by (auto simp: apply_level_def side_apply_def level_def set_level_def on_size_increased_def
      on_level_emptied_def Let_def split: option.split msg_type.split)

lemma apply_level_ask:
  assumes "i < length (ask b)"
  shows "apply_level t sz False i b =
    (let (xs, j) = side_apply raise_ask drop_ask t sz i (ask b) (best_ask_idx b)
     in b\<lparr>ask := xs, best_ask_idx := j\<rparr>)"
  using assms
  by (auto simp: apply_level_def side_apply_def level_def set_level_def on_size_increased_def
      on_level_emptied_def Let_def split: option.split msg_type.split)

text \<open>Saturating addition and truncated subtraction, on the sizes they stand for.\<close>

lemma unat_add_saturating: "unat (add_saturating cur sz) = min (2 ^ 32 - 1) (unat cur + unat sz)"
proof -
  have max: "unat (- 1 :: u32) = 2 ^ 32 - 1"
    by (simp add: unsigned_minus_1_eq_mask mask_eq_exp_minus_1)
  have le: "unat sz \<le> 2 ^ 32 - 1" "unat cur \<le> 2 ^ 32 - 1"
    using unat_lt_u32 [of sz] unat_lt_u32 [of cur] by simp_all
  have diff: "unat (- 1 - sz :: u32) = 2 ^ 32 - 1 - unat sz"
    using le max by (subst unat_sub) (simp_all add: word_le_nat_alt)
  show ?thesis
  proof (cases "kMaxLevelSize - sz < cur")
    case True
    then have "2 ^ 32 - 1 - unat sz < unat cur"
      using diff by (simp add: kMaxLevelSize_def word_less_nat_alt)
    then show ?thesis
      using True max by (simp add: add_saturating_def kMaxLevelSize_def)
  next
    case False
    then have "unat cur \<le> 2 ^ 32 - 1 - unat sz"
      using diff by (simp add: kMaxLevelSize_def word_less_nat_alt not_less)
    then have "unat cur + unat sz \<le> 2 ^ 32 - 1"
      using le by linarith
    then show ?thesis
      using False unat_add_lem [of cur sz] by (simp add: add_saturating_def)
  qed
qed

lemma add_saturating_nonzero: "sz \<noteq> 0 \<Longrightarrow> add_saturating cur sz \<noteq> 0"
  using unat_add_saturating [of cur sz] unat_gt_0 [of sz] by (auto simp: min_def split: if_splits)

lemma unat_reduced: "unat (if cur \<le> sz then 0 else cur - sz :: u32) = unat cur - unat sz"
  by (auto simp: word_le_nat_alt unat_sub)

text \<open>
  The contract between an array and its cached best index: it survives growing a level (with
  \<open>raise\<close>), reducing a level that stays non-empty, and emptying a level (with \<open>lower\<close>).
\<close>

locale touch =
  fixes best_ok :: "u32 list \<Rightarrow> int \<Rightarrow> bool"
    and up :: "int \<Rightarrow> int \<Rightarrow> int"
    and lower :: "u32 list \<Rightarrow> nat \<Rightarrow> int \<Rightarrow> int"
  assumes grow: "best_ok xs j \<Longrightarrow> i < length xs \<Longrightarrow> v \<noteq> 0 \<Longrightarrow> best_ok (xs[i := v]) (up (int i) j)"
    and shrink: "best_ok xs j \<Longrightarrow> i < length xs \<Longrightarrow> xs ! i \<noteq> 0 \<Longrightarrow> v \<noteq> 0 \<Longrightarrow> best_ok (xs[i := v]) j"
    and clear: "best_ok xs j \<Longrightarrow> i < length xs \<Longrightarrow> best_ok (xs[i := 0]) (lower (xs[i := 0]) i j)"
begin

lemma side_apply_best:
  assumes "best_ok xs j" "i < length xs" "side_apply up lower t sz i xs j = (ys, k)"
  shows "best_ok ys k"
proof -
  have "xs ! i \<noteq> 0" if "\<not> xs ! i \<le> sz"
    using that by auto
  then show ?thesis
    using assms
    by (auto simp: side_apply_def Let_def add_saturating_nonzero grow shrink clear
        split: option.splits msg_type.splits if_splits)
qed

end

definition bid_best :: "u32 list \<Rightarrow> int \<Rightarrow> bool" where
  "bid_best xs j \<longleftrightarrow> - 1 \<le> j \<and> j < int (length xs) \<and> (0 \<le> j \<longrightarrow> xs ! nat j \<noteq> 0)
     \<and> (\<forall>k<length xs. j < int k \<longrightarrow> xs ! k = 0)"

definition ask_best :: "u32 list \<Rightarrow> int \<Rightarrow> bool" where
  "ask_best xs j \<longleftrightarrow> 0 \<le> j \<and> j \<le> int (length xs) \<and> (j < int (length xs) \<longrightarrow> xs ! nat j \<noteq> 0)
     \<and> (\<forall>k<length xs. int k < j \<longrightarrow> xs ! k = 0)"

lemma walk_down_best:
  "n \<le> length xs \<Longrightarrow> \<forall>k<length xs. n \<le> k \<longrightarrow> xs ! k = 0 \<Longrightarrow> bid_best xs (walk_down xs n)"
proof (induction n)
  case (Suc n)
  then show ?case
    by (auto simp: bid_best_def Suc_le_eq) (metis le_antisym not_less)+
qed (simp add: bid_best_def)

lemma walk_up_best:
  "n \<le> length xs \<Longrightarrow> \<forall>k<n. xs ! k = 0 \<Longrightarrow> ask_best xs (walk_up xs n)"
proof (induction "length xs - n" arbitrary: n)
  case 0
  then show ?case
    by (subst walk_up.simps) (auto simp: ask_best_def)
next
  case (Suc d)
  then have "n < length xs" by simp
  show ?case
  proof (cases "xs ! n = 0")
    case True
    then have "ask_best xs (walk_up xs (n + 1))"
      using Suc by (intro Suc.hyps(1)) (auto simp: less_Suc_eq)
    then show ?thesis
      using True \<open>n < length xs\<close> by (subst walk_up.simps) simp
  next
    case False
    then show ?thesis
      using Suc.prems \<open>n < length xs\<close> by (subst walk_up.simps) (auto simp: ask_best_def)
  qed
qed

interpretation bid_side: touch bid_best raise_bid drop_bid
proof
  fix xs j i and v :: u32
  assume best: "bid_best xs j" and i: "i < length xs"
  show "bid_best (xs[i := v]) (raise_bid (int i) j)" if "v \<noteq> 0"
    using best i that by (auto simp: bid_best_def raise_bid_def nth_list_update)
  show "bid_best (xs[i := v]) j" if "xs ! i \<noteq> 0" "v \<noteq> 0"
    using best i that by (auto simp: bid_best_def nth_list_update)
  show "bid_best (xs[i := 0]) (drop_bid (xs[i := 0]) i j)"
  proof (cases "int i = j")
    case True
    then have "bid_best (xs[i := 0]) (walk_down (xs[i := 0]) i)"
      using best i by (intro walk_down_best) (auto simp: bid_best_def nth_list_update)
    with True show ?thesis
      by (simp add: drop_bid_def)
  next
    case False
    with best i show ?thesis
      by (auto simp: drop_bid_def bid_best_def nth_list_update)
  qed
qed

interpretation ask_side: touch ask_best raise_ask drop_ask
proof
  fix xs j i and v :: u32
  assume best: "ask_best xs j" and i: "i < length xs"
  show "ask_best (xs[i := v]) (raise_ask (int i) j)" if "v \<noteq> 0"
    using best i that by (auto simp: ask_best_def raise_ask_def nth_list_update)
  show "ask_best (xs[i := v]) j" if "xs ! i \<noteq> 0" "v \<noteq> 0"
    using best i that by (auto simp: ask_best_def nth_list_update)
  show "ask_best (xs[i := 0]) (drop_ask (xs[i := 0]) i j)"
  proof (cases "int i = j")
    case True
    then have "ask_best (xs[i := 0]) (walk_up (xs[i := 0]) (i + 1))"
      using best i by (intro walk_up_best) (auto simp: ask_best_def nth_list_update less_Suc_eq)
    with True show ?thesis
      by (simp add: drop_ask_def)
  next
    case False
    with best i show ?thesis
      by (auto simp: drop_ask_def ask_best_def nth_list_update)
  qed
qed


subsection \<open>The whole book\<close>

definition book_ok :: "book \<Rightarrow> bool" where
  "book_ok b \<longleftrightarrow> length (ask b) = length (bid b)
     \<and> bid_best (bid b) (best_bid_idx b) \<and> ask_best (ask b) (best_ask_idx b)"

lemma book_ok_init [simp]: "book_ok (book_init N bp t)"
  by (auto simp: book_ok_def book_init_def bid_best_def ask_best_def)

lemma apply_level_cases:
  assumes "book_ok b" "i < num_ticks b"
  obtains (Bid) xs j where "is_bid" "side_apply raise_bid drop_bid t sz i (bid b) (best_bid_idx b) = (xs, j)"
      "apply_level t sz is_bid i b = b\<lparr>bid := xs, best_bid_idx := j\<rparr>"
  | (Ask) xs j where "\<not> is_bid" "side_apply raise_ask drop_ask t sz i (ask b) (best_ask_idx b) = (xs, j)"
      "apply_level t sz is_bid i b = b\<lparr>ask := xs, best_ask_idx := j\<rparr>"
proof (cases is_bid)
  case True
  obtain xs j where "side_apply raise_bid drop_bid t sz i (bid b) (best_bid_idx b) = (xs, j)"
    by (rule prod.exhaust)
  with True assms show thesis
    by (intro Bid) (simp_all add: num_ticks_def apply_level_bid)
next
  case False
  obtain xs j where "side_apply raise_ask drop_ask t sz i (ask b) (best_ask_idx b) = (xs, j)"
    by (rule prod.exhaust)
  with False assms show thesis
    by (intro Ask) (simp_all add: book_ok_def num_ticks_def apply_level_ask)
qed

lemma length_side_apply: "side_apply up lower t sz i xs j = (ys, k) \<Longrightarrow> length ys = length xs"
  by (auto simp: side_apply_def Let_def split: option.splits msg_type.splits if_splits)

lemma apply_level_ok [preserves]:
  assumes "book_ok b" "i < num_ticks b"
  shows "book_ok (apply_level t sz is_bid i b)"
  using assms
proof (cases rule: apply_level_cases [of b i is_bid t sz])
  case (Bid xs j)
  then show ?thesis
    using assms bid_side.side_apply_best [of "bid b" "best_bid_idx b" i t sz xs j] length_side_apply [OF Bid(2)]
    by (simp add: book_ok_def num_ticks_def)
next
  case (Ask xs j)
  then show ?thesis
    using assms ask_side.side_apply_best [of "ask b" "best_ask_idx b" i t sz xs j] length_side_apply [OF Ask(2)]
    by (simp add: book_ok_def num_ticks_def)
qed

lemma apply_msg_ok [preserves]: "book_ok b \<Longrightarrow> book_ok (apply_msg m b)"
  using apply_level_ok [of b "nat (to_index b (m_price m))"]
  by (auto simp: apply_msg_def Let_def) (auto simp: book_ok_def)

lemma apply_level_window [frame]:
  assumes "book_ok b" "i < num_ticks b"
  shows "base (apply_level t sz is_bid i b) = base b" "tick (apply_level t sz is_bid i b) = tick b"
    "num_ticks (apply_level t sz is_bid i b) = num_ticks b"
    "out_of_range (apply_level t sz is_bid i b) = out_of_range b"
  by (cases rule: apply_level_cases [OF assms, of is_bid t sz];
      use length_side_apply in \<open>force simp: num_ticks_def\<close>)+

lemma apply_msg_window [frame]:
  assumes "book_ok b"
  shows "base (apply_msg m b) = base b" "tick (apply_msg m b) = tick b"
    "num_ticks (apply_msg m b) = num_ticks b"
  using apply_level_window [OF assms, of "nat (to_index b (m_price m))"]
  by (auto simp: apply_msg_def Let_def num_ticks_def)

lemma fold_apply_msg:
  assumes "book_ok b"
  shows "book_ok (fold apply_msg ms b) \<and> base (fold apply_msg ms b) = base b
    \<and> tick (fold apply_msg ms b) = tick b \<and> num_ticks (fold apply_msg ms b) = num_ticks b"
  using assms by (induction ms arbitrary: b) (simp_all add: apply_msg_ok apply_msg_window)


subsection \<open>The reference book\<close>

text \<open>
  A reference book maps a side and a level to an unbounded size. One message adds to a level
  (clamped at the 32-bit maximum), subtracts from it (at least to zero) or clears it.
\<close>

type_synonym ref_book = "bool \<Rightarrow> nat \<Rightarrow> nat"

definition ref_size :: "msg_type option \<Rightarrow> nat \<Rightarrow> nat \<Rightarrow> nat" where
  "ref_size t sz cur =
     (case t of
        Some kAdd \<Rightarrow> min (2 ^ 32 - 1) (cur + sz)
      | Some kExecute \<Rightarrow> cur - sz
      | Some kCancel \<Rightarrow> cur - sz
      | Some kDelete \<Rightarrow> 0
      | _ \<Rightarrow> cur)"

definition ref_apply :: "(i64 \<Rightarrow> nat option) \<Rightarrow> itch_message \<Rightarrow> ref_book \<Rightarrow> ref_book" where
  "ref_apply index m lv =
     (case index (m_price m) of
        None \<Rightarrow> lv
      | Some i \<Rightarrow>
          let s = (m_side m = side_code kBuy) in
          lv(s := (lv s)(i := ref_size (msg_type_of (m_type m)) (unat (m_size m)) (lv s i))))"

definition window_index :: "book \<Rightarrow> i64 \<Rightarrow> nat option" where
  "window_index b price =
     (let idx = to_index b price in
      if idx < 0 \<or> int (num_ticks b) \<le> idx then None else Some (nat idx))"

definition book_levels :: "book \<Rightarrow> ref_book" where
  "book_levels b = (\<lambda>s i. if i < num_ticks b then unat (level s b i) else 0)"

lemma side_apply_levels:
  assumes "side_apply up lower t sz i xs j = (ys, k)" "i < length xs" "n < length xs"
  shows "unat (ys ! n) = (if n = i then ref_size t (unat sz) (unat (xs ! i)) else unat (xs ! n))"
  using assms unat_reduced [of "xs ! i" sz] unat_lt_u32 [of "xs ! i"]
  by (auto simp: side_apply_def ref_size_def Let_def unat_add_saturating nth_list_update
      split: option.splits msg_type.splits if_splits)

lemma book_levels_apply_level:
  assumes "book_ok b" "i < num_ticks b"
  shows "book_levels (apply_level t sz s i b)
    = (book_levels b)(s := (book_levels b s)(i := ref_size t (unat sz) (book_levels b s i)))"
  using assms
proof (cases rule: apply_level_cases [of b i s t sz])
  case (Bid xs j)
  with assms show ?thesis
    using side_apply_levels [OF Bid(2)] length_side_apply [OF Bid(2)]
    by (auto simp: book_levels_def level_def num_ticks_def fun_eq_iff)
next
  case (Ask xs j)
  with assms show ?thesis
    using side_apply_levels [OF Ask(2)] length_side_apply [OF Ask(2)]
    by (auto simp: book_levels_def level_def num_ticks_def book_ok_def fun_eq_iff)
qed

lemma level_out_of_range [simp]: "level s (b\<lparr>out_of_range := n\<rparr>) i = level s b i"
  by (simp add: level_def)

lemma book_levels_apply_msg:
  "book_ok b \<Longrightarrow> book_levels (apply_msg m b) = ref_apply (window_index b) m (book_levels b)"
  by (auto simp: apply_msg_def ref_apply_def window_index_def Let_def book_levels_apply_level)
    (auto simp: book_levels_def num_ticks_def fun_eq_iff)

lemma window_index_apply_msg: "book_ok b \<Longrightarrow> window_index (apply_msg m b) = window_index b"
  by (simp add: window_index_def to_index_def apply_msg_window fun_eq_iff)

lemma book_levels_fold:
  "book_ok b \<Longrightarrow>
   book_levels (fold apply_msg ms b) = fold (ref_apply (window_index b)) ms (book_levels b)"
  by (induction ms arbitrary: b)
    (simp_all add: apply_msg_ok book_levels_apply_msg window_index_apply_msg)

text \<open>The cached touch is the touch of the levels.\<close>

lemma has_bid_levels: "book_ok b \<Longrightarrow> has_bid b \<longleftrightarrow> (\<exists>i. book_levels b True i \<noteq> 0)"
  by (auto simp: book_ok_def bid_best_def has_bid_def book_levels_def level_def num_ticks_def
      intro!: unat_nonzero exI [of _ "nat (best_bid_idx b)"])

lemma has_ask_levels: "book_ok b \<Longrightarrow> has_ask b \<longleftrightarrow> (\<exists>i. book_levels b False i \<noteq> 0)"
  by (auto simp: book_ok_def ask_best_def has_ask_def book_levels_def level_def num_ticks_def
      nat_less_iff intro!: unat_nonzero exI [of _ "nat (best_ask_idx b)"])

lemma best_bid_levels:
  assumes "book_ok b" "has_bid b"
  shows "book_levels b True (nat (best_bid_idx b)) = unat (best_bid_size b)" "0 < unat (best_bid_size b)"
    "nat (best_bid_idx b) < num_ticks b"
    "book_levels b True i \<noteq> 0 \<Longrightarrow> i \<le> nat (best_bid_idx b)"
  using assms
  by (auto simp: book_ok_def bid_best_def has_bid_def book_levels_def level_def num_ticks_def
      best_bid_size_def unat_nonzero nat_less_iff le_nat_iff split: if_splits intro: ccontr)

lemma best_ask_levels:
  assumes "book_ok b" "has_ask b"
  shows "book_levels b False (nat (best_ask_idx b)) = unat (best_ask_size b)" "0 < unat (best_ask_size b)"
    "nat (best_ask_idx b) < num_ticks b"
    "book_levels b False i \<noteq> 0 \<Longrightarrow> nat (best_ask_idx b) \<le> i"
  using assms
  by (auto simp: book_ok_def ask_best_def has_ask_def book_levels_def level_def num_ticks_def
      best_ask_size_def unat_nonzero nat_less_iff split: if_splits intro: ccontr)


subsection \<open>Prices and levels\<close>

lemma sint_ucast_i32:
  assumes "- (2 ^ 31) \<le> sint (w :: i64)" "sint w < 2 ^ 31"
  shows "sint (ucast w :: i32) = sint w"
proof -
  have "(ucast w :: i32) = word_of_int (sint w)"
    by (intro bit_eqI) (auto simp: bit_simps)
  then show ?thesis
    using sint_of_int_i32 [OF assms] by (simp only:)
qed

lemma sint_i64_div:
  assumes "0 < sint b"
  shows "sint (i64_div a b) = sint a sdiv sint b"
proof -
  have le: "x div sint b \<le> x" "0 \<le> x div sint b" if "0 \<le> x" for x
    using that assms zdiv_mono2 [of x 1 "sint b"] by (simp_all add: pos_imp_zdiv_nonneg_iff)
  have "min (sint a) 0 \<le> sint a sdiv sint b \<and> sint a sdiv sint b \<le> max (sint a) 0"
    using assms le [of "sint a"] le [of "- sint a"]
    by (cases "0 \<le> sint a") (simp_all add: sdiv_nonneg sdiv_neg)
  then have "in_i64 (sint a sdiv sint b)"
    using sint_ge [of a] sint_lt [of a] by (auto simp: in_i64_def)
  then show ?thesis
    by (simp add: i64_div_def sint_of_int_i64)
qed


text \<open>
  The index of a price, on numbers: the truncated quotient of its distance from the base, when
  that distance fits in 64 bits and the quotient in 32.
\<close>

definition price_fits :: "book \<Rightarrow> i64 \<Rightarrow> bool" where
  "price_fits b price \<longleftrightarrow> 0 < sint (tick b) \<and> in_i64 (sint price - sint (base b))
     \<and> \<bar>sint price - sint (base b)\<bar> < 2 ^ 31 * sint (tick b)"

lemma to_index_fits:
  assumes "price_fits b price"
  shows "to_index b price = (sint price - sint (base b)) sdiv sint (tick b)"
proof -
  let ?d = "sint price - sint (base b)" and ?t = "sint (tick b)"
  have t: "0 < ?t" and d: "\<bar>?d\<bar> < 2 ^ 31 * ?t"
    using assms by (simp_all add: price_fits_def)
  have "sint (price - base b) = ?d"
    using assms by (simp add: price_fits_def sint_diff_i64)
  then have q: "sint (i64_div (price - base b) (tick b)) = ?d sdiv ?t"
    using sint_i64_div [OF t] by simp
  have "\<bar>?d\<bar> div ?t < 2 ^ 31" "0 \<le> \<bar>?d\<bar> div ?t"
    using t d by (simp_all only: int_div_less pos_imp_zdiv_nonneg_iff abs_ge_zero)
  then have "- (2 ^ 31) \<le> ?d sdiv ?t" "?d sdiv ?t < 2 ^ 31"
    using t by (cases "0 \<le> ?d"; simp add: sdiv_nonneg sdiv_neg)+
  then show ?thesis
    by (simp add: to_index_def sint_ucast_i32 q)
qed


lemma to_index_on_tick:
  assumes "price_fits b price" "sint price = sint (base b) + int i * sint (tick b)"
  shows "to_index b price = int i"
proof -
  have "0 < sint (tick b)"
    using assms(1) by (simp add: price_fits_def)
  then show ?thesis
    by (simp add: to_index_fits [OF assms(1)] assms(2) sdiv_nonneg)
qed

lemma to_index_above:
  assumes "price_fits b price" "sint (base b) + int n * sint (tick b) \<le> sint price"
  shows "int n \<le> to_index b price"
proof -
  have t: "0 < sint (tick b)"
    using assms(1) by (simp add: price_fits_def)
  moreover from this have "0 \<le> int n * sint (tick b)"
    by simp
  then have "0 \<le> sint price - sint (base b)"
    using assms(2) by linarith
  moreover have "int n * sint (tick b) div sint (tick b) \<le> (sint price - sint (base b)) div sint (tick b)"
    using t assms(2) by (intro zdiv_mono1) auto
  ultimately show ?thesis
    by (simp add: to_index_fits [OF assms(1)] sdiv_nonneg)
qed

lemma to_index_below:
  assumes "price_fits b price" "sint price \<le> sint (base b) - sint (tick b)"
  shows "to_index b price < 0"
proof -
  let ?d = "sint price - sint (base b)" and ?t = "sint (tick b)"
  have t: "0 < ?t"
    using assms(1) by (simp add: price_fits_def)
  with assms(2) have "?d < 0" "?t \<le> - ?d"
    by linarith+
  moreover from this t have "0 < (- ?d) div ?t"
    by (simp only: pos_imp_zdiv_pos_iff)
  ultimately show ?thesis
    using t by (simp add: to_index_fits [OF assms(1)] sdiv_neg)
qed

lemma to_index_fold:
  assumes "price_fits b price" "sint (base b) - sint (tick b) < sint price" "sint price < sint (base b)"
  shows "to_index b price = 0"
proof -
  let ?d = "sint price - sint (base b)" and ?t = "sint (tick b)"
  have "(- ?d) div ?t = 0"
    using assms(2,3) by (intro div_pos_pos_trivial) linarith+
  then show ?thesis
    using assms by (simp add: to_index_fits [OF assms(1)] sdiv_neg price_fits_def)
qed


subsection \<open>Properties\<close>

text \<open>
  C2. After any sequence of messages the cached book is the reference book: every level holds what
  the reference holds, a side is reported empty exactly when all its levels are, the cached
  best bid is the highest non-empty bid level, the cached best ask the lowest non-empty ask level,
  and a reported best size is never zero.
\<close>

theorem book_refines_reference:
  fixes N :: nat and ms :: "itch_message list" and bp t :: i64
  defines "b \<equiv> fold apply_msg ms (book_init N bp t)"
    and "lv \<equiv> fold (ref_apply (window_index (book_init N bp t))) ms (\<lambda>_ _. 0)"
  shows "book_levels b = lv
    \<and> has_bid b = (\<exists>i. lv True i \<noteq> 0) \<and> has_ask b = (\<exists>i. lv False i \<noteq> 0)
    \<and> (has_bid b \<longrightarrow> 0 < unat (best_bid_size b) \<and> lv True (nat (best_bid_idx b)) = unat (best_bid_size b)
         \<and> (\<forall>i. lv True i \<noteq> 0 \<longrightarrow> i \<le> nat (best_bid_idx b)))
    \<and> (has_ask b \<longrightarrow> 0 < unat (best_ask_size b) \<and> lv False (nat (best_ask_idx b)) = unat (best_ask_size b)
         \<and> (\<forall>i. lv False i \<noteq> 0 \<longrightarrow> nat (best_ask_idx b) \<le> i))"
proof -
  have ok: "book_ok b"
    unfolding b_def using fold_apply_msg [OF book_ok_init] by blast
  have "book_levels (book_init N bp t) = (\<lambda>_ _. 0)"
    by (simp add: book_levels_def level_def book_init_def num_ticks_def fun_eq_iff)
  then have lv: "book_levels b = lv"
    unfolding b_def lv_def by (simp add: book_levels_fold)
  then show ?thesis
    using has_bid_levels [OF ok] has_ask_levels [OF ok] best_bid_levels [OF ok] best_ask_levels [OF ok]
    by blast
qed

definition demo_msg :: "msg_type \<Rightarrow> side \<Rightarrow> i64 \<Rightarrow> u32 \<Rightarrow> itch_message" where
  "demo_msg t s price sz = zero_itch_message\<lparr>m_type := msg_type_code t, m_side := side_code s,
     m_price := price, m_size := sz\<rparr>"


lemmas book_eval = demo_msg_def zero_itch_message_def book_init_def apply_msg_def apply_level_def to_index_def
  i64_div_def num_ticks_def level_def set_level_def on_size_increased_def raise_bid_def raise_ask_def
  add_saturating_def kMaxLevelSize_def signed_divide_int_def

lemma demo_add_has_bid: "has_bid (fold apply_msg [demo_msg kAdd kBuy 105 7] (book_init 4 100 5))"
  by (simp add: book_eval has_bid_def Let_def)

theorem book_refines_reference_witness:
  "0 < unat (best_bid_size (fold apply_msg [demo_msg kAdd kBuy 105 7] (book_init 4 100 5)))"
  using book_refines_reference [of "[demo_msg kAdd kBuy 105 7]" 4 100 5] demo_add_has_bid by blast

text \<open>
  Prices and levels correspond: a price on a tick of the window has that tick's index and the
  index has that price, and a message priced at least one tick below the base or at or above the
  end of the window changes nothing but the counter of ignored messages.
\<close>

theorem book_window_prices:
  assumes "price_fits b (m_price m)"
  shows "(i < num_ticks b \<and> sint (m_price m) = sint (base b) + int i * sint (tick b)
      \<longrightarrow> window_index b (m_price m) = Some i \<and> price_at b (int i) = m_price m)
    \<and> (sint (m_price m) \<le> sint (base b) - sint (tick b)
       \<or> sint (base b) + int (num_ticks b) * sint (tick b) \<le> sint (m_price m)
      \<longrightarrow> apply_msg m b = b\<lparr>out_of_range := out_of_range b + 1\<rparr>)"
proof -
  have "price_at b (int i) = m_price m"
    if "sint (m_price m) = sint (base b) + int i * sint (tick b)"
  proof -
    have "m_price m = word_of_int (sint (m_price m))"
      by simp
    also have "\<dots> = word_of_int (sint (base b)) + word_of_int (int i) * word_of_int (sint (tick b))"
      unfolding that by simp
    also have "\<dots> = price_at b (int i)"
      by (simp add: price_at_def)
    finally show ?thesis ..
  qed
  then show ?thesis
    using to_index_on_tick [OF assms, of i] to_index_below [OF assms] to_index_above [OF assms, of "num_ticks b"]
    by (auto simp: window_index_def apply_msg_def)
qed

lemma demo_fits: "price_fits (book_init 4 100 5) (m_price (demo_msg kAdd kBuy 90 7))"
  by (simp add: price_fits_def demo_msg_def book_init_def in_i64_def)

theorem book_window_prices_witness:
  "apply_msg (demo_msg kAdd kBuy 90 7) (book_init 4 100 5) = (book_init 4 100 5)\<lparr>out_of_range := 1\<rparr>"
  using book_window_prices [OF demo_fits, of 0] by (simp add: demo_msg_def book_init_def)

text \<open>
  The band just below the window is not out of range: the truncating division maps every price
  strictly between \<open>base - tick\<close> and \<open>base\<close> to index 0, so an add there grows the lowest level of the
  window and the counter of ignored messages stays as it is.
\<close>

theorem book_folds_below_base:
  assumes "book_ok b" "0 < num_ticks b" "price_fits b (m_price m)"
    and "sint (base b) - sint (tick b) < sint (m_price m)" "sint (m_price m) < sint (base b)"
    and "m_type m = msg_type_code kAdd" "m_side m = side_code kBuy"
  shows "out_of_range (apply_msg m b) = out_of_range b
    \<and> book_levels (apply_msg m b) True 0 = min (2 ^ 32 - 1) (book_levels b True 0 + unat (m_size m))"
proof -
  have idx: "to_index b (m_price m) = 0"
    using assms by (intro to_index_fold)
  then have "apply_msg m b = apply_level (Some kAdd) (m_size m) True 0 b"
    using assms by (simp add: apply_msg_def)
  then show ?thesis
    using apply_level_window(4) [OF assms(1,2)] book_levels_apply_level [OF assms(1,2)]
    by (simp add: ref_size_def)
qed

lemma demo_fold_fits: "price_fits (book_init 4 100 5) (m_price (demo_msg kAdd kBuy 97 7))"
  by (simp add: price_fits_def demo_msg_def book_init_def in_i64_def)

theorem book_folds_below_base_witness:
  "book_levels (apply_msg (demo_msg kAdd kBuy 97 7) (book_init 4 100 5)) True 0 = 7"
  using book_folds_below_base [OF book_ok_init _ demo_fold_fits]
  by (simp add: demo_msg_def book_init_def num_ticks_def book_levels_def level_def)

lemma imbalance_facts:
  assumes "book_ok b" "two_sided b"
  shows "- 1 \<le> imbalance b \<and> imbalance b \<le> 1
    \<and> (best_ask_size b < best_bid_size b \<longrightarrow> 0 < imbalance b)
    \<and> (best_bid_size b < best_ask_size b \<longrightarrow> imbalance b < 0)
    \<and> (best_ask_size b = best_bid_size b \<longrightarrow> imbalance b = 0)
    \<and> 0 < dadd (of_nat (unat (best_bid_size b))) (of_nat (unat (best_ask_size b)))"
proof -
  define x y where "x = unat (best_bid_size b)" and "y = unat (best_ask_size b)"
  have pos: "0 < x" "0 < y"
    using assms best_bid_levels(2) best_ask_levels(2) by (simp_all add: x_def y_def two_sided_def)
  have lt: "x < 2 ^ 32" "y < 2 ^ 32"
    using unat_lt_u32 by (simp_all add: x_def y_def)
  have sum: "dadd (of_nat x) (of_nat y) = of_nat (x + y)"
    using b64_round_nat [of "x + y"] lt by (simp add: dadd_def)
  have diff: "dsub (of_nat x) (of_nat y) = of_nat x - of_nat y"
  proof (cases "y \<le> x")
    case True
    then show ?thesis
      using b64_round_nat [of "x - y"] lt by (simp add: dsub_def of_nat_diff)
  next
    case False
    then have neg: "of_nat x - of_nat y = (- of_nat (y - x) :: rat)"
      by (simp add: of_nat_diff)
    have "b64_round (of_nat (y - x)) = of_nat (y - x)"
      using lt by (intro b64_round_nat) simp
    then show ?thesis
      unfolding dsub_def neg b64_round_uminus by simp
  qed
  let ?r = "(of_nat x - of_nat y) / of_nat (x + y) :: rat"
  have imb: "imbalance b = b64_round ?r"
    using assms(2) pos by (simp add: imbalance_def Let_def sum diff ddiv_def flip: x_def y_def)
  have pos_round: "0 < b64_round ((of_nat m - of_nat n) / of_nat (m + n))"
    if "n < m" "m + n \<le> 2 ^ 33" for m n
  proof (rule b64_round_pos)
    have "(2 :: rat) powi - 1074 \<le> 2 powi - 33"
      by (rule power_int_increasing) simp_all
    also have "\<dots> = 1 / 2 ^ 33"
      by (simp add: power_int_minus inverse_eq_divide)
    also have "\<dots> \<le> (of_nat m - of_nat n) / of_nat (m + n)"
      using that by (intro frac_le) (simp_all flip: of_nat_diff of_nat_add)
    finally show "2 powi - 1074 \<le> (of_nat m - of_nat n) / (of_nat (m + n) :: rat)" .
  qed
  have r: "?r \<le> of_nat 1" "- ?r \<le> of_nat 1"
    using pos by (simp_all add: divide_le_eq le_divide_eq minus_divide_left)
  then have "b64_round ?r \<le> 1" "- b64_round ?r \<le> 1"
    using b64_round_le_nat [of 1 ?r] b64_round_le_nat [of 1 "- ?r"] by (simp_all add: b64_round_uminus)
  moreover have "0 < b64_round ?r" if "y < x"
    using that lt pos_round [of y x] by simp
  moreover have "b64_round ?r < 0" if "x < y"
    using that lt pos_round [of x y] b64_round_uminus [of "?r"]
    by (simp add: add.commute minus_divide_left)
  moreover have "b64_round ?r = 0" if "best_ask_size b = best_bid_size b"
    using that by (simp add: x_def y_def)
  ultimately show ?thesis
    using imb sum pos by (auto simp: word_less_nat_alt simp flip: x_def y_def)
qed

text \<open>
  The imbalance lies in \<open>[-1, 1]\<close>, is positive exactly when the best bid is the larger size,
  negative exactly when the best ask is, and no rounding ever moves it across zero or out of the
  interval; a two-sided book never divides by zero.
\<close>

theorem imbalance_bounds:
  assumes "book_ok b" "two_sided b"
  shows "- 1 \<le> imbalance b \<and> imbalance b \<le> 1
    \<and> (best_ask_size b < best_bid_size b \<longrightarrow> 0 < imbalance b)
    \<and> (best_bid_size b < best_ask_size b \<longrightarrow> imbalance b < 0)
    \<and> (best_ask_size b = best_bid_size b \<longrightarrow> imbalance b = 0)
    \<and> 0 < dadd (of_nat (unat (best_bid_size b))) (of_nat (unat (best_ask_size b)))"
  by (rule imbalance_facts [OF assms])

definition demo_book :: book where
  "demo_book = fold apply_msg [demo_msg kAdd kBuy 105 7, demo_msg kAdd kSell 110 3] (book_init 4 100 5)"

lemma demo_book_ok: "book_ok demo_book" "two_sided demo_book"
proof -
  show "book_ok demo_book"
    unfolding demo_book_def using fold_apply_msg [OF book_ok_init] by blast
  show "two_sided demo_book"
    by (simp add: demo_book_def book_eval two_sided_def has_bid_def has_ask_def Let_def)
qed

theorem imbalance_bounds_witness: "imbalance demo_book \<le> 1"
  using imbalance_bounds [OF demo_book_ok] by blast

end
