(* ===== verification/ItchReplay.thy ===== *)
theory ItchReplay
  imports Itch50 BookView
begin

text \<open>
  The ITCH 5.0 decoder feeding a book, as \<open>tools/itch50_replay.cpp\<close> does it: every delta becomes a
  message for one \<open>BookView\<close>, and the tool counts the messages, the deltas and the violations of
  the book's invariants it observes.

  \<open>order_levels\<close> is the book the order table stands for: at each level the sum of the shares of
  the live orders there. The conservation theorems say that the deltas keep the levels equal to
  those sums, for one message and for a whole file.
\<close>

definition delta_msg :: "level_delta \<Rightarrow> itch_message" where
  "delta_msg d = zero_itch_message\<lparr>m_type := msg_type_code (l_type d), m_side := side_code (l_side d),
     m_price := l_price d, m_size := l_size d, m_timestamp := l_timestamp_ns d\<rparr>"

record replay =
  rp_decoder :: decoder
  rp_book :: book
  rp_by_type :: "u64 list"
  rp_messages :: u64
  rp_deltas :: u64
  rp_failures :: u64

definition replay_init :: "nat \<Rightarrow> replay" where
  "replay_init kTicks =
     \<lparr>rp_decoder = decoder_init, rp_book = book_init kTicks 0 (i64_div kPriceScale 100),
      rp_by_type = replicate 128 0, rp_messages = 0, rp_deltas = 0, rp_failures = 0\<rparr>"

definition count_failures :: "book \<Rightarrow> u64 \<Rightarrow> u64" where
  "count_failures b n =
     (let n = (if has_bid b \<and> best_bid_size b = 0 then n + 1 else n);
          n = (if has_ask b \<and> best_ask_size b = 0 then n + 1 else n)
      in if - 1 \<le> imbalance b \<and> imbalance b \<le> 1 then n else n + 1)"

definition replay_delta :: "level_delta \<Rightarrow> replay \<Rightarrow> replay" where
  "replay_delta d st =
     (let b = apply_msg (delta_msg d) (rp_book st) in
      st\<lparr>rp_deltas := rp_deltas st + 1, rp_book := b, rp_failures := count_failures b (rp_failures st)\<rparr>)"

text \<open>\<open>for (d = decoder.apply(body, len); d.valid; d = decoder.take_pending())\<close>\<close>

function delta_loop :: "level_delta \<Rightarrow> replay \<Rightarrow> replay" where
  "delta_loop d st =
     (if l_valid d then
        let st = replay_delta d st; (p, dec) = take_pending (rp_decoder st) in
        delta_loop p (st\<lparr>rp_decoder := dec\<rparr>)
      else st)"
  by pat_completeness auto

termination delta_loop
  by (relation "measure (\<lambda>(d, st). of_bool (l_valid d) + of_bool (l_valid (pending (rp_decoder st))))")
    (auto simp: take_pending_def replay_delta_def no_delta_def Let_def)

declare delta_loop.simps [simp del]

definition count_type :: "u8 \<Rightarrow> u64 list \<Rightarrow> u64 list" where
  "count_type t xs = (if unat t < length xs then xs[unat t := xs ! unat t + 1] else xs)"

definition replay_message :: "u8 list \<Rightarrow> nat \<Rightarrow> replay \<Rightarrow> replay option" where
  "replay_message body len st =
     do { t \<leftarrow> byte_at body 0;
          (d, dec) \<leftarrow> decoder_apply body len (rp_decoder st);
          Some (delta_loop d (st\<lparr>rp_messages := rp_messages st + 1,
                 rp_by_type := count_type t (rp_by_type st), rp_decoder := dec\<rparr>)) }"

function replay_loop :: "u8 list \<Rightarrow> replay \<Rightarrow> replay option" where
  "replay_loop rest st =
     (case reader_next50 rest of
        None \<Rightarrow> Some st
      | Some (body, len, rest') \<Rightarrow>
          (case replay_message body len st of None \<Rightarrow> None | Some st' \<Rightarrow> replay_loop rest' st'))"
  by pat_completeness auto

termination replay_loop
  by (relation "measure (\<lambda>(rest, st). length rest)") (auto simp: reader_next50_shorter)

declare replay_loop.simps [simp del]

definition replay_exit :: "replay \<Rightarrow> nat" where
  "replay_exit st = (if rp_failures st = 0 then 0 else 1)"


subsection \<open>The book stays coherent\<close>

lemma imbalance_range: "book_ok b \<Longrightarrow> - 1 \<le> imbalance b \<and> imbalance b \<le> 1"
  using imbalance_facts [of b] by (cases "two_sided b") (auto simp: imbalance_def)

lemma count_failures_ok: "book_ok b \<Longrightarrow> count_failures b n = n"
  using imbalance_range [of b] best_bid_levels(2) [of b] best_ask_levels(2) [of b]
  by (auto simp: count_failures_def Let_def)

lemma replay_delta_ok [preserves]:
  "book_ok (rp_book st) \<Longrightarrow> book_ok (rp_book (replay_delta d st)) \<and> rp_failures (replay_delta d st) = rp_failures st"
  by (simp add: replay_delta_def Let_def apply_msg_ok count_failures_ok)

lemma delta_loop_ok [preserves]:
  "book_ok (rp_book st) \<Longrightarrow> book_ok (rp_book (delta_loop d st)) \<and> rp_failures (delta_loop d st) = rp_failures st"
proof (induction d st rule: delta_loop.induct)
  case (1 d st)
  show ?case
  proof (cases "l_valid d")
    case True
    obtain p dec where p: "take_pending (rp_decoder (replay_delta d st)) = (p, dec)"
      by (rule prod.exhaust)
    show ?thesis
      using 1(1) [OF True refl p [symmetric] refl] replay_delta_ok [OF 1(2), of d] True p
      by (subst (1 2) delta_loop.simps) (simp add: Let_def)
  next
    case False
    with 1(2) show ?thesis
      by (simp add: delta_loop.simps)
  qed
qed

lemma replay_loop_ok:
  "replay_loop rest st = Some st' \<Longrightarrow> book_ok (rp_book st) \<Longrightarrow>
   book_ok (rp_book st') \<and> rp_failures st' = rp_failures st"
proof (induction rest st rule: replay_loop.induct)
  case (1 rest st)
  show ?case
  proof (cases "reader_next50 rest")
    case None
    with 1(2,3) show ?thesis
      by (simp add: replay_loop.simps)
  next
    case (Some r)
    obtain body len rest' where r: "r = (body, len, rest')"
      by (cases r) auto
    with 1(2) Some obtain st1 where st1: "replay_message body len st = Some st1" "replay_loop rest' st1 = Some st'"
      by (subst (asm) replay_loop.simps) (auto split: option.splits)
    have "book_ok (rp_book st1) \<and> rp_failures st1 = rp_failures st"
      using st1(1) 1(3) delta_loop_ok by (auto simp: replay_message_def split: bind_splits)
    then show ?thesis
      using 1(1) [OF Some r [symmetric] refl st1(1) st1(2)] by simp
  qed
qed


subsection \<open>Conservation of shares\<close>

definition contrib :: "(i64 \<Rightarrow> nat option) \<Rightarrow> bool \<Rightarrow> nat \<Rightarrow> live_order \<Rightarrow> nat" where
  "contrib f s i ord =
     (if (lo_side ord = kBuy) = s \<and> f (lo_price ord) = Some i then unat (lo_shares ord) else 0)"

definition order_levels :: "(i64 \<Rightarrow> nat option) \<Rightarrow> (u64 \<times> live_order) list \<Rightarrow> ref_book" where
  "order_levels f os = (\<lambda>s i. \<Sum>(r, ord) \<leftarrow> os. contrib f s i ord)"

lemma order_levels_Nil [simp]: "order_levels f [] = (\<lambda>_ _. 0)"
  by (simp add: order_levels_def)

lemma order_levels_new:
  "map_of os k = None \<Longrightarrow>
   order_levels f (AList.update k v os) s i = order_levels f os s i + contrib f s i v"
  by (simp add: order_levels_def update_new)

lemma order_levels_delete:
  "distinct (map fst os) \<Longrightarrow> map_of os k = Some ord \<Longrightarrow>
   order_levels f os s i = order_levels f (AList.delete k os) s i + contrib f s i ord"
proof (induction os)
  case (Cons x os)
  obtain r v where x: "x = (r, v)"
    by (cases x) auto
  have "k \<notin> fst ` set os" if "r = k"
    using Cons.prems(1) that by (simp add: x)
  then show ?case
    using Cons by (auto simp: order_levels_def x delete_notin_dom split: if_splits)
qed simp

lemma order_levels_update:
  "distinct (map fst os) \<Longrightarrow> map_of os k = Some ord \<Longrightarrow>
   order_levels f (AList.update k v os) s i + contrib f s i ord = order_levels f os s i + contrib f s i v"
  by (induction os) (auto simp: order_levels_def split: if_splits)

text \<open>What one delta does to the levels.\<close>

definition settle :: "(i64 \<Rightarrow> nat option) \<Rightarrow> level_delta \<Rightarrow> ref_book \<Rightarrow> ref_book" where
  "settle f d lv = (if l_valid d then ref_apply f (delta_msg d) lv else lv)"

lemma ref_apply_delta:
  "ref_apply f (delta_msg d) lv s i =
    (if (l_side d = kBuy) = s \<and> f (l_price d) = Some i
     then ref_size (Some (l_type d)) (unat (l_size d)) (lv s i) else lv s i)"
  by (auto simp: ref_apply_def delta_msg_def Let_def split: option.split)


text \<open>
  The references of a message are fresh: an add names no live order, and a replace names a live
  order and a reference that is not another live one. Real feeds satisfy this; a message of another
  type imposes nothing.
\<close>

definition refs_fresh :: "u8 list \<Rightarrow> decoder \<Rightarrow> bool" where
  "refs_fresh body d \<longleftrightarrow>
     (if body ! 0 = 65 \<or> body ! 0 = 70 then
        (case be64 body 11 of Some ref \<Rightarrow> map_of (orders d) ref = None | None \<Rightarrow> True)
      else if body ! 0 = 85 then
        (case be64 body 11 of
           Some orig \<Rightarrow> map_of (orders d) orig \<noteq> None
             \<and> (case be64 body 19 of
                  Some fresh \<Rightarrow> fresh = orig \<or> map_of (orders d) fresh = None | None \<Rightarrow> True)
         | None \<Rightarrow> True)
      else True)"

definition levels_fit :: "ref_book \<Rightarrow> bool" where
  "levels_fit lv \<longleftrightarrow> (\<forall>s i. lv s i \<le> 2 ^ 32 - 1)"

lemma reduce_conserves:
  assumes "decoder_ok d" "reduce ref sh t out d = (out', d')" "t = kExecute \<or> t = kCancel" "\<not> l_valid out"
  shows "settle f out' (order_levels f (orders d)) = order_levels f (orders d') \<and> pending d' = pending d"
proof (cases "map_of (orders d) ref")
  case None
  then show ?thesis
    using assms(2,4) by (auto simp: reduce_def settle_def)
next
  case (Some ord)
  define taken where "taken = (if lo_shares ord \<le> sh then lo_shares ord else sh)"
  have le: "taken \<le> lo_shares ord"
    by (auto simp: taken_def)
  then have nat: "unat (lo_shares ord - taken) = unat (lo_shares ord) - unat taken"
    "unat taken \<le> unat (lo_shares ord)"
    by (simp_all add: unat_sub word_le_nat_alt)
  have out': "out' = out\<lparr>l_valid := True, l_type := t, l_side := lo_side ord, l_price := lo_price ord, l_size := taken\<rparr>"
    and d': "d' = (if lo_shares ord - taken = 0 then d\<lparr>orders := AList.delete ref (orders d)\<rparr>
       else d\<lparr>orders := AList.update ref (ord\<lparr>lo_shares := lo_shares ord - taken\<rparr>) (orders d)\<rparr>)"
    using assms(2) Some by (cases "lo_shares ord \<le> sh"; auto simp: reduce_def taken_def Let_def)+
  have dist: "distinct (map fst (orders d))"
    using assms(1) by (simp add: decoder_ok_def)
  have "ref_apply f (delta_msg out') (order_levels f (orders d)) s i = order_levels f (orders d') s i" for s i
  proof (cases "lo_shares ord - taken = 0")
    case True
    then have "unat taken = unat (lo_shares ord)"
      using nat by (metis diff_is_0_eq le_antisym unat_0)
    then show ?thesis
      using order_levels_delete [OF dist Some, of f s i] True assms(3)
      by (auto simp: ref_apply_delta out' d' contrib_def ref_size_def)
  next
    case False
    then show ?thesis
      using order_levels_update [OF dist Some, of f "ord\<lparr>lo_shares := lo_shares ord - taken\<rparr>" s i] assms(3) nat
        order_levels_delete [OF dist Some, of f s i]
      by (auto simp: ref_apply_delta out' d' contrib_def ref_size_def)
  qed
  then show ?thesis
    using d' by (simp add: settle_def out' fun_eq_iff)
qed

lemma add_conserves:
  assumes "map_of os ref = None" "levels_fit (order_levels f (AList.update ref v os))"
    and "l_type out = kAdd" "l_side out = lo_side v" "l_price out = lo_price v" "l_size out = lo_shares v"
  shows "ref_apply f (delta_msg out) (order_levels f os) = order_levels f (AList.update ref v os)"
proof (intro ext)
  fix s i
  have "order_levels f os s i + contrib f s i v \<le> 2 ^ 32 - 1"
    using assms(2) order_levels_new [OF assms(1), of f v s i] by (metis levels_fit_def)
  then show "ref_apply f (delta_msg out) (order_levels f os) s i = order_levels f (AList.update ref v os) s i"
    using order_levels_new [OF assms(1), of f v s i] assms
    by (auto simp: ref_apply_delta ref_size_def contrib_def min_def)
qed

lemma delete_conserves:
  assumes "distinct (map fst os)" "map_of os ref = Some ord"
    and "l_type out = kCancel" "l_side out = lo_side ord" "l_price out = lo_price ord" "l_size out = lo_shares ord"
  shows "ref_apply f (delta_msg out) (order_levels f os) = order_levels f (AList.delete ref os)"
proof (intro ext)
  fix s i
  show "ref_apply f (delta_msg out) (order_levels f os) s i = order_levels f (AList.delete ref os) s i"
    using order_levels_delete [OF assms(1,2), of f s i] assms
    by (auto simp: ref_apply_delta ref_size_def contrib_def)
qed

lemma switch_conserves:
  assumes "decoder_ok d" "pending d = no_delta" "\<not> l_valid out" "refs_fresh body d" "body ! 0 = h_type h"
    and "decode_switch body h out d = Some (out', d')" "levels_fit (order_levels f (orders d'))"
  shows "settle f (pending d') (settle f out' (order_levels f (orders d))) = order_levels f (orders d')
    \<and> (\<not> l_valid out' \<longrightarrow> pending d' = no_delta)"
proof -
  have no: "settle f no_delta lv = lv" for lv
    by (simp add: settle_def no_delta_def)
  have dist: "distinct (map fst (orders d))"
    using assms(1) by (simp add: decoder_ok_def)
  consider (add) "h_type h = 65 \<or> h_type h = 70" "decode_add body out d = Some (out', d')"
    | (red) t where "t = kExecute \<or> t = kCancel" "decode_reduce t body out d = Some (out', d')"
    | (del) "decode_delete body out d = Some (out', d')"
    | (rep) "h_type h = 85" "decode_replace body h out d = Some (out', d')"
    | (none) "out' = out" "d' = d"
    using decode_switch_cases [OF assms(6)] by blast
  then show ?thesis
  proof cases
    case add
    then obtain ref sd price sh where a: "be64 body 11 = Some ref"
      "out' = out\<lparr>l_valid := True, l_type := kAdd, l_side := sd, l_price := price, l_size := sh\<rparr>"
      "d' = d\<lparr>orders := AList.update ref \<lparr>lo_price = price, lo_shares = sh, lo_side = sd\<rparr> (orders d)\<rparr>"
      by (auto simp: decode_add_def Let_def split: bind_splits)
    have "map_of (orders d) ref = None"
      using assms(4,5) add(1) a(1) by (auto simp: refs_fresh_def)
    then have "ref_apply f (delta_msg out') (order_levels f (orders d)) = order_levels f (orders d')"
      using assms(7) a by (simp add: add_conserves)
    then show ?thesis
      using a assms(2) no by (simp add: settle_def no_delta_def)
  next
    case (red t)
    then obtain ref sh where "reduce ref sh t out d = (out', d')"
      by (auto simp: decode_reduce_def split: bind_splits)
    then show ?thesis
      using reduce_conserves [OF assms(1) _ red(1) assms(3)] assms(2) no by auto
  next
    case del
    then obtain ref where ref: "be64 body 11 = Some ref"
      by (auto simp: decode_delete_def split: bind_splits)
    show ?thesis
    proof (cases "map_of (orders d) ref")
      case None
      then show ?thesis
        using del ref assms(2,3) no by (auto simp: decode_delete_def settle_def no_delta_def)
    next
      case (Some ord)
      then have d: "out' = out\<lparr>l_valid := True, l_type := kCancel, l_side := lo_side ord,
          l_price := lo_price ord, l_size := lo_shares ord\<rparr>" "d' = d\<lparr>orders := AList.delete ref (orders d)\<rparr>"
        using del ref by (simp_all add: decode_delete_def)
      have "ref_apply f (delta_msg out') (order_levels f (orders d)) = order_levels f (orders d')"
        using delete_conserves [OF dist Some] d by simp
      then show ?thesis
        using d assms(2) no by (simp add: settle_def no_delta_def)
    qed
  next
    case rep
    then obtain orig fresh sh price where r: "be64 body 11 = Some orig" "be64 body 19 = Some fresh"
      "be32 body 27 = Some sh" "\<exists>p. be32 body 31 = Some p \<and> price = to_engine_price p"
      by (auto simp: decode_replace_def Let_def split: bind_splits)
    then obtain old where old: "map_of (orders d) orig = Some old"
      and fr: "fresh = orig \<or> map_of (orders d) fresh = None"
      using assms(4,5) rep(1) by (auto simp: refs_fresh_def)
    let ?os = "AList.delete orig (orders d)"
    let ?v = "\<lparr>lo_price = price, lo_shares = sh, lo_side = lo_side old\<rparr>"
    have o: "out' = out\<lparr>l_valid := True, l_type := kCancel, l_side := lo_side old, l_price := lo_price old,
        l_size := lo_shares old\<rparr>" "orders d' = AList.update fresh ?v ?os"
      "pending d' = \<lparr>l_valid = True, l_type = kAdd, l_side = lo_side old, l_price = price, l_size = sh,
         l_timestamp_ns = h_timestamp_ns h, l_stock_locate = h_stock_locate h\<rparr>"
      using rep(2) r old by (auto simp: decode_replace_def Let_def)
    have "map_of ?os fresh = None"
      using fr by (auto simp: delete_conv')
    then have "ref_apply f (delta_msg (pending d')) (order_levels f ?os) = order_levels f (orders d')"
      using assms(7) o by (simp add: add_conserves)
    moreover have "ref_apply f (delta_msg out') (order_levels f (orders d)) = order_levels f ?os"
      using delete_conserves [OF dist old] o by simp
    ultimately show ?thesis
      using o by (simp add: settle_def)
  next
    case none
    then show ?thesis
      using assms(2,3) no by (simp add: settle_def)
  qed
qed


lemma refs_fresh_stats [simp]: "refs_fresh body (d\<lparr>st_decoded := n\<rparr>) = refs_fresh body d"
  by (cases "be64 body 11"; cases "be64 body 19"; simp add: refs_fresh_def)

lemma apply_conserves:
  assumes "decoder_ok d" "pending d = no_delta" "refs_fresh body d"
    and "decoder_apply body len d = Some (out, d')" "levels_fit (order_levels f (orders d'))"
  shows "settle f (pending d') (settle f out (order_levels f (orders d))) = order_levels f (orders d')
    \<and> (\<not> l_valid out \<longrightarrow> pending d' = no_delta)"
proof -
  have no: "\<not> l_valid no_delta"
    by (simp add: no_delta_def)
  consider (same) "out = no_delta" "orders d' = orders d" "pending d' = no_delta"
    | (switch) h d1 where "read_header body = Some h"
        "decode_switch body h (no_delta\<lparr>l_timestamp_ns := h_timestamp_ns h, l_stock_locate := h_stock_locate h\<rparr>)
           (d\<lparr>st_decoded := st_decoded d + 1\<rparr>) = Some (out, d1)"
        "orders d' = orders d1" "pending d' = pending d1"
    using assms(2,4) by (auto simp: decoder_apply_def Let_def split: if_splits bind_splits)
  then show ?thesis
  proof cases
    case same
    then show ?thesis
      using no by (simp add: settle_def)
  next
    case switch
    have "body ! 0 = h_type h"
      using switch(1) by (auto simp: read_header_def byte_at_def split: bind_splits if_splits)
    then show ?thesis
      using switch_conserves [OF _ _ _ _ _ switch(2), of f] switch(3,4) assms(1-3,5) no
      by (simp add: decoder_ok_def)
  qed
qed

text \<open>The inner loop applies the delta of the message and the pending one, and leaves none pending.\<close>

lemma take_pending_simps: "take_pending d = (pending d, d\<lparr>pending := no_delta\<rparr>)"
  by (simp add: take_pending_def)

lemma delta_loop_effect:
  assumes "book_ok (rp_book st)" "l_valid out \<or> pending (rp_decoder st) = no_delta"
  defines "f \<equiv> window_index (rp_book st)"
  shows "book_levels (rp_book (delta_loop out st))
      = settle f (pending (rp_decoder st)) (settle f out (book_levels (rp_book st)))"
    and "rp_decoder (delta_loop out st) = (rp_decoder st)\<lparr>pending := no_delta\<rparr>"
    and "window_index (rp_book (delta_loop out st)) = f"
proof -
  have no: "\<not> l_valid no_delta"
    by (simp add: no_delta_def)
  have stop: "delta_loop no_delta st = st" for st
    using no by (subst delta_loop.simps) simp
  let ?p = "pending (rp_decoder st)"
  let ?st1 = "(replay_delta out st)\<lparr>rp_decoder := (rp_decoder st)\<lparr>pending := no_delta\<rparr>\<rparr>"
  let ?st2 = "(replay_delta ?p ?st1)\<lparr>rp_decoder := (rp_decoder st)\<lparr>pending := no_delta\<rparr>\<rparr>"
  have dec: "rp_decoder (replay_delta d st) = rp_decoder st" for d st
    by (simp add: replay_delta_def Let_def)
  have book: "rp_book (replay_delta d st) = apply_msg (delta_msg d) (rp_book st)" for d st
    by (simp add: replay_delta_def Let_def)
  have loop: "delta_loop out st = (if \<not> l_valid out then st else if \<not> l_valid ?p then ?st1 else ?st2)"
    by (simp add: delta_loop.simps [of out st] delta_loop.simps [of ?p ?st1] stop dec take_pending_simps Let_def)
  note step = book_levels_apply_msg window_index_apply_msg apply_msg_ok
  show "book_levels (rp_book (delta_loop out st)) = settle f ?p (settle f out (book_levels (rp_book st)))"
    using assms(1,2) no by (auto simp: loop settle_def book f_def step)
  show "rp_decoder (delta_loop out st) = (rp_decoder st)\<lparr>pending := no_delta\<rparr>"
    using assms(2) by (auto simp: loop)
  show "window_index (rp_book (delta_loop out st)) = f"
    using assms(1) by (auto simp: loop book f_def step)
qed

text \<open>
  The replay invariant: the book holds, level by level, what the live orders add up to. It survives
  a message whose references are fresh and after which no level exceeds 32 bits.
\<close>

definition replay_inv :: "replay \<Rightarrow> bool" where
  "replay_inv st \<longleftrightarrow> book_ok (rp_book st) \<and> decoder_ok (rp_decoder st) \<and> pending (rp_decoder st) = no_delta
     \<and> book_levels (rp_book st) = order_levels (window_index (rp_book st)) (orders (rp_decoder st))"

lemma replay_inv_init: "replay_inv (replay_init n)"
  by (simp add: replay_inv_def replay_init_def decoder_init_def decoder_ok_def book_levels_def level_def
      book_init_def num_ticks_def fun_eq_iff)
    (use book_ok_init in \<open>simp add: book_init_def\<close>)

lemma replay_message_inv:
  assumes "replay_inv st" "refs_fresh body (rp_decoder st)" "replay_message body len st = Some st'"
    and "levels_fit (order_levels (window_index (rp_book st)) (orders (rp_decoder st')))"
  shows "replay_inv st' \<and> window_index (rp_book st') = window_index (rp_book st)"
proof -
  let ?f = "window_index (rp_book st)"
  have inv: "book_ok (rp_book st)" "decoder_ok (rp_decoder st)" "pending (rp_decoder st) = no_delta"
    "book_levels (rp_book st) = order_levels ?f (orders (rp_decoder st))"
    using assms(1) by (simp_all add: replay_inv_def)
  obtain t out dec where a: "decoder_apply body len (rp_decoder st) = Some (out, dec)"
    and st': "st' = delta_loop out (st\<lparr>rp_messages := rp_messages st + 1,
        rp_by_type := count_type t (rp_by_type st), rp_decoder := dec\<rparr>)"
    using assms(3) by (auto simp: replay_message_def split: bind_splits)
  let ?st0 = "st\<lparr>rp_messages := rp_messages st + 1, rp_by_type := count_type t (rp_by_type st), rp_decoder := dec\<rparr>"
  have inert: "pending dec = no_delta" if "\<not> l_valid out"
    using that a inv(3) by (auto simp: decoder_apply_def decode_switch_def decode_add_def decode_reduce_def
        reduce_def decode_delete_def decode_replace_def Let_def split: if_splits bind_splits option.splits)
  then have "l_valid out \<or> pending (rp_decoder ?st0) = no_delta"
    by auto
  note eff = delta_loop_effect [of ?st0 out, OF _ this]
  have orders: "orders (rp_decoder st') = orders dec"
    using eff(2) inv(1) by (simp add: st')
  have "settle ?f (pending dec) (settle ?f out (order_levels ?f (orders (rp_decoder st)))) = order_levels ?f (orders dec)"
    using apply_conserves [OF inv(2,3) assms(2) a] assms(4) by (simp add: orders)
  then show ?thesis
    using eff inv a orders delta_loop_ok [of ?st0 out] decoder_apply_ok [OF inv(2) a]
    by (simp add: replay_inv_def st' decoder_ok_def)
qed

text \<open>The condition of the theorem, along a whole file.\<close>

function feed_ok :: "u8 list \<Rightarrow> replay \<Rightarrow> bool" where
  "feed_ok rest st =
     (case reader_next50 rest of
        None \<Rightarrow> True
      | Some (body, len, rest') \<Rightarrow>
          refs_fresh body (rp_decoder st)
          \<and> (case replay_message body len st of
               None \<Rightarrow> True
             | Some st' \<Rightarrow>
                 levels_fit (order_levels (window_index (rp_book st)) (orders (rp_decoder st')))
                 \<and> feed_ok rest' st'))"
  by pat_completeness auto

termination feed_ok
  by (relation "measure (\<lambda>(rest, st). length rest)") (auto simp: reader_next50_shorter)

declare feed_ok.simps [simp del]

lemma replay_loop_inv:
  "replay_loop rest st = Some st' \<Longrightarrow> replay_inv st \<Longrightarrow> feed_ok rest st \<Longrightarrow>
   replay_inv st' \<and> window_index (rp_book st') = window_index (rp_book st)"
proof (induction rest st rule: replay_loop.induct)
  case (1 rest st)
  show ?case
  proof (cases "reader_next50 rest")
    case None
    with 1(2,3) show ?thesis
      by (simp add: replay_loop.simps)
  next
    case (Some r)
    obtain body len rest' where r: "r = (body, len, rest')"
      by (cases r) auto
    with 1(2) Some obtain st1 where st1: "replay_message body len st = Some st1" "replay_loop rest' st1 = Some st'"
      by (subst (asm) replay_loop.simps) (auto split: option.splits)
    have "refs_fresh body (rp_decoder st)" "feed_ok rest' st1"
      "levels_fit (order_levels (window_index (rp_book st)) (orders (rp_decoder st1)))"
      using 1(4) Some r st1(1) by (simp_all add: feed_ok.simps [of rest])
    with replay_message_inv [OF 1(3) _ st1(1)]
    have "replay_inv st1 \<and> window_index (rp_book st1) = window_index (rp_book st)"
      by simp
    then show ?thesis
      using 1(1) [OF Some r [symmetric] refl st1(1) st1(2)] \<open>feed_ok rest' st1\<close> by simp
  qed
qed


subsection \<open>Properties\<close>

text \<open>
  The replay tool exits with success on every file it reads without running past the end of the
  buffer: whatever the bytes, no delta ever leaves the book with an empty best level or an imbalance
  outside \<open>[-1, 1]\<close>.
\<close>

theorem replay_finds_no_violation:
  assumes "replay_loop file (replay_init n) = Some st"
  shows "replay_exit st = 0"
  using replay_loop_ok [OF assms] by (simp add: replay_init_def replay_exit_def)

definition demo_add50 :: "u8 list" where
  "demo_add50 = [65, 0, 0, 0, 0, 0, 0, 0, 0, 0, 0, 0, 0, 0, 0, 0, 0, 0, 7, 66, 0, 0, 0, 5,
     0, 0, 0, 0, 0, 0, 0, 0, 0, 0, 1, 44]"

definition demo_file :: "u8 list" where
  "demo_file = frame50 demo_add50"

lemma be_loop_numeral [simp]:
  "be_loop (numeral k) m p v
    = do { b \<leftarrow> byte_at m p; be_loop (pred_numeral k) m (p + 1) (push_bit 8 v OR ucast b) }"
  by (simp add: numeral_eq_Suc)

lemmas replay_eval = replay_message_def decoder_apply_def read_header_def be16_def be32_def be48_def be64_def
  expected_length_def decode_switch_def decode_add_def Let_def

lemma demo_add50_decoded:
  "decoder_apply demo_add50 36 decoder_init =
    Some (\<lparr>l_valid = True, l_type = kAdd, l_side = kBuy, l_price = to_engine_price 300, l_size = 5,
            l_timestamp_ns = 0, l_stock_locate = 0\<rparr>,
          \<lparr>orders = [(7, \<lparr>lo_price = to_engine_price 300, lo_shares = 5, lo_side = kBuy\<rparr>)], pending = no_delta,
           st_decoded = 1, st_ignored = 0, st_malformed = 0, st_unknown_order = 0, st_live_orders = 1\<rparr>)"
  by (simp add: demo_add50_def decoder_init_def no_delta_def replay_eval)

definition demo_replayed :: replay where
  "demo_replayed = the (replay_message demo_add50 36 (replay_init 4))"

lemma demo_message:
  "replay_message demo_add50 36 (replay_init 4) = Some demo_replayed"
  "orders (rp_decoder demo_replayed) = [(7, \<lparr>lo_price = to_engine_price 300, lo_shares = 5, lo_side = kBuy\<rparr>)]"
proof -
  let ?out = "\<lparr>l_valid = True, l_type = kAdd, l_side = kBuy, l_price = to_engine_price 300, l_size = 5,
    l_timestamp_ns = 0, l_stock_locate = 0\<rparr>"
  have init: "rp_decoder (replay_init 4) = decoder_init" "book_ok (rp_book (replay_init 4))"
    using replay_inv_init [of 4] by (simp_all add: replay_init_def replay_inv_def)
  have "byte_at demo_add50 0 = Some 65"
    by (simp add: demo_add50_def)
  then have m: "replay_message demo_add50 36 (replay_init 4)
    = Some (delta_loop ?out ((replay_init 4)\<lparr>rp_messages := rp_messages (replay_init 4) + 1,
        rp_by_type := count_type 65 (rp_by_type (replay_init 4)),
        rp_decoder := snd (the (decoder_apply demo_add50 36 decoder_init))\<rparr>))"
    by (simp add: replay_message_def init(1) demo_add50_decoded)
  then show "replay_message demo_add50 36 (replay_init 4) = Some demo_replayed"
    by (simp add: demo_replayed_def)
  have eq: "demo_replayed = delta_loop ?out ((replay_init 4)\<lparr>rp_messages := rp_messages (replay_init 4) + 1,
        rp_by_type := count_type 65 (rp_by_type (replay_init 4)),
        rp_decoder := snd (the (decoder_apply demo_add50 36 decoder_init))\<rparr>)"
    by (simp add: demo_replayed_def m)
  show "orders (rp_decoder demo_replayed) = [(7, \<lparr>lo_price = to_engine_price 300, lo_shares = 5, lo_side = kBuy\<rparr>)]"
    unfolding eq using init(2) by (subst delta_loop_effect(2)) (simp_all add: demo_add50_decoded)
qed

lemma demo_file_frame: "reader_next50 demo_file = Some (demo_add50, 36, [])"
  using reader_next50_frame [of demo_add50 "[]"] by (simp add: demo_file_def demo_add50_def)

lemma reader_next50_Nil: "reader_next50 [] = None"
  by (simp add: reader_next50_def)

lemma demo_file_run: "replay_loop demo_file (replay_init 4) = Some demo_replayed"
  by (subst replay_loop.simps) (simp add: demo_file_frame demo_message(1) replay_loop.simps [of "[]"] reader_next50_Nil)

lemma demo_file_ok: "feed_ok demo_file (replay_init 4)"
proof -
  have "refs_fresh demo_add50 decoder_init"
    by (simp add: refs_fresh_def decoder_init_def demo_add50_def split: option.split)
  moreover have "levels_fit (order_levels f (orders (rp_decoder demo_replayed)))" for f
    by (simp add: demo_message(2) levels_fit_def order_levels_def contrib_def)
  ultimately show ?thesis
    by (subst feed_ok.simps, simp add: demo_file_frame demo_message(1) feed_ok.simps [of "[]"] reader_next50_Nil,
        simp add: replay_init_def)
qed

theorem replay_finds_no_violation_witness: "replay_exit demo_replayed = 0"
  by (rule replay_finds_no_violation [OF demo_file_run])

text \<open>
  C5. Conservation of shares on a consistent file (\<^const>\<open>feed_ok\<close>: no add names a live order, every replace names a live
  order and a fresh reference, and no level ever holds more than \<open>2 ^ 32 - 1\<close> shares): after the replay every level
  of the book holds exactly the sum of the shares of the live orders the decoder tracks on that side at the prices
  of that level; adds, executions, partial cancels, deletes and replaces all keep the two in step. Without the
  condition on replaces it fails, as the next property shows.
\<close>

theorem replay_conserves_shares:
  assumes "replay_loop file (replay_init n) = Some st" "feed_ok file (replay_init n)"
  shows "book_levels (rp_book st)
    = order_levels (window_index (book_init n 0 (i64_div kPriceScale 100))) (orders (rp_decoder st))"
  using replay_loop_inv [OF assms(1) replay_inv_init assms(2)]
  by (simp add: replay_inv_def replay_init_def)

theorem replay_conserves_shares_witness:
  "book_levels (rp_book demo_replayed)
    = order_levels (window_index (book_init 4 0 (i64_div kPriceScale 100))) (orders (rp_decoder demo_replayed))"
  by (rule replay_conserves_shares [OF demo_file_run demo_file_ok])

text \<open>
  C15. A replace of an order the decoder never saw breaks that correspondence: the replacement is
  recorded as a live buy order, whatever the side of the original, but no delta is emitted for it,
  so its shares are in the order table and in no level.
\<close>

theorem unknown_replace_loses_level:
  assumes "body ! 0 = 85" "length body = 35" "be64 body 11 = Some orig" "be64 body 19 = Some fresh"
    and "map_of (orders d) orig = None" "map_of (orders d) fresh = None" "pending d = no_delta"
  shows "\<exists>out d' v. decoder_apply body 35 d = Some (out, d') \<and> \<not> l_valid out \<and> pending d' = no_delta
    \<and> lo_side v = kBuy \<and> orders d' = orders d @ [(fresh, v)]"
proof -
  obtain h where h: "read_header body = Some h" "h_type h = 85"
    using read_header_total [of body] assms(1,2) by auto
  obtain sh where sh: "be32 body 27 = Some sh"
    using be32_total [of 27 body] assms(2) by auto
  obtain p where p: "be32 body 31 = Some p"
    using be32_total [of 31 body] assms(2) by auto
  show ?thesis
    using assms h sh p
    by (simp add: decoder_apply_def expected_length_def decode_switch_def decode_replace_def no_delta_def
        update_new Let_def)
qed

definition demo_replace50 :: "u8 list" where
  "demo_replace50 = [85, 0, 0, 0, 0, 0, 0, 0, 0, 0, 0, 0, 0, 0, 0, 0, 0, 0, 7, 0, 0, 0, 0, 0, 0, 0, 8,
     0, 0, 0, 5, 0, 0, 1, 44]"

lemma demo_replace50_fields:
  "demo_replace50 ! 0 = 85" "length demo_replace50 = 35"
  "be64 demo_replace50 11 = Some 7" "be64 demo_replace50 19 = Some 8"
  by (simp_all add: demo_replace50_def be64_def)

theorem unknown_replace_loses_level_witness:
  "\<exists>out d' v. decoder_apply demo_replace50 35 decoder_init = Some (out, d') \<and> \<not> l_valid out
    \<and> pending d' = no_delta \<and> lo_side v = kBuy \<and> orders d' = orders decoder_init @ [(8, v)]"
  by (rule unknown_replace_loses_level [OF demo_replace50_fields]) (simp_all add: decoder_init_def)

end
