(* ===== verification/Histogram.thy ===== *)
theory Histogram
  imports HftPrelude Binary64
begin

text \<open>
  \<open>include/hft/histogram.hpp\<close>: the fixed-size latency histogram. The template parameters are
  arguments: \<open>H\<close> is \<open>HighestTrackableNs\<close> and \<open>P\<close> is \<open>PrecisionBits\<close> (the class asserts
  \<open>1 \<le> P \<le> 16\<close>, here \<open>precision_ok\<close>).

  First the index arithmetic on machine words exactly as the class does it
  (\<open>bucket_index\<close>, \<open>counts_index\<close>, \<open>highest_equivalent_value\<close>, \<open>buckets_needed\<close>), with its
  meaning on numbers: the bucket of a value, its bound, its error. Then the object
  (\<open>record_value\<close>, \<open>record_n\<close>, \<open>percentile\<close>, \<open>add_hist\<close>, \<open>reset_hist\<close>), related to the multiset of
  values it has seen. The locale \<open>bucketing\<close> is the interface between the two halves: all
  the percentile theorems need of the index arithmetic is that it is monotone, stays in
  the array and bounds each value from above with the advertised relative error.
\<close>


subsection \<open>Index arithmetic\<close>

definition precision_ok :: "nat \<Rightarrow> bool" where
  "precision_ok P \<longleftrightarrow> 1 \<le> P \<and> P \<le> 16"

definition kSubBucketCount :: "nat \<Rightarrow> u32" where
  "kSubBucketCount P = push_bit (P + 1) 1"

definition kSubBucketHalfCount :: "nat \<Rightarrow> u32" where
  "kSubBucketHalfCount P = drop_bit 1 (kSubBucketCount P)"

definition kSubBucketMask :: "nat \<Rightarrow> u64" where
  "kSubBucketMask P = ucast (kSubBucketCount P - 1)"

definition kLeadingZeroCountBase :: "nat \<Rightarrow> int" where
  "kLeadingZeroCountBase P = 64 - int P - 1"

text \<open>\<open>__builtin_clzll\<close>: the number of zero bits above the highest set bit.\<close>

primrec clz_below :: "nat \<Rightarrow> u64 \<Rightarrow> nat" where
  "clz_below 0 w = 0"
| "clz_below (Suc n) w = (if bit w n then 0 else Suc (clz_below n w))"

definition clzll :: "u64 \<Rightarrow> nat" where
  "clzll w = clz_below 64 w"

definition bucket_index :: "nat \<Rightarrow> u64 \<Rightarrow> int" where
  "bucket_index P v = kLeadingZeroCountBase P - int (clzll (v OR kSubBucketMask P))"

definition sub_bucket_index :: "u64 \<Rightarrow> int \<Rightarrow> u32" where
  "sub_bucket_index v bidx = ucast (drop_bit (nat bidx) v)"

definition counts_index :: "nat \<Rightarrow> u64 \<Rightarrow> u64" where
  "counts_index P v =
     (let bidx = bucket_index P v;
          sidx = sub_bucket_index v bidx;
          bucket_base = push_bit P (word_of_int (bidx + 1) :: i64);
          offset = ucast sidx - (ucast (kSubBucketHalfCount P) :: i64)
      in bucket_base + offset)"

definition highest_equivalent_value :: "nat \<Rightarrow> u64 \<Rightarrow> u64" where
  "highest_equivalent_value P index =
     (let bidx = sint (ucast (drop_bit P index) :: i32) - 1;
          sidx = ucast (index AND ucast (kSubBucketHalfCount P - 1)) + kSubBucketHalfCount P;
          (bidx, sidx) = (if bidx < 0 then (0, ucast index) else (bidx, sidx :: u32));
          lower = push_bit (nat bidx) (ucast sidx :: u64);
          bucket_unit = push_bit (nat bidx) (1 :: u64)
      in lower + bucket_unit - 1)"

partial_function (option) buckets_loop :: "u64 \<Rightarrow> u64 \<Rightarrow> nat \<Rightarrow> nat option" where
  "buckets_loop smallest_untrackable value needed =
     (if smallest_untrackable \<le> value then
        if drop_bit 1 (- 1) < smallest_untrackable then Some (needed + 1)
        else buckets_loop (push_bit 1 smallest_untrackable) value (needed + 1)
      else Some needed)"

definition buckets_needed :: "nat \<Rightarrow> u64 \<Rightarrow> nat option" where
  "buckets_needed P value = buckets_loop (ucast (kSubBucketCount P)) value 1"

definition kBucketCount :: "u64 \<Rightarrow> nat \<Rightarrow> nat" where
  "kBucketCount H P = the (buckets_needed P H)"

definition kCountsLen :: "u64 \<Rightarrow> nat \<Rightarrow> nat" where
  "kCountsLen H P = (kBucketCount H P + 1) * unat (kSubBucketHalfCount P)"


subsection \<open>The same arithmetic on numbers\<close>

text \<open>
  \<open>octave P v b\<close>: \<open>b\<close> is the power-of-two scale of the bucket that holds \<open>v\<close>. A value's index is
  then \<open>b * 2 ^ P + v div 2 ^ b\<close>, and a bucket \<open>i\<close> of scale \<open>i div 2 ^ P - 1\<close> ends at \<open>bucket_top P i\<close>.
\<close>

definition octave :: "nat \<Rightarrow> nat \<Rightarrow> nat \<Rightarrow> bool" where
  "octave P v b \<longleftrightarrow> v < 2 ^ (P + 1 + b) \<and> (b = 0 \<or> 2 ^ (P + b) \<le> v)"

definition bucket_top :: "nat \<Rightarrow> nat \<Rightarrow> nat" where
  "bucket_top P i = (let b = i div 2 ^ P - 1 in (i - b * 2 ^ P + 1) * 2 ^ b - 1)"

lemma octave_sub_bucket:
  assumes "octave P v b"
  shows "v div 2 ^ b < 2 ^ (P + 1)" "b = 0 \<or> 2 ^ P \<le> v div 2 ^ b"
proof -
  from assms have "v < 2 ^ (P + 1) * 2 ^ b"
    by (simp add: octave_def power_add ac_simps)
  then show "v div 2 ^ b < 2 ^ (P + 1)"
    by (simp add: less_mult_imp_div_less)
  show "b = 0 \<or> 2 ^ P \<le> v div 2 ^ b"
    using assms div_le_mono [of "2 ^ (P + b)" v "2 ^ b"] by (auto simp: octave_def power_add)
qed

lemma octave_index_scale:
  assumes "octave P v b"
  shows "(b * 2 ^ P + v div 2 ^ b) div 2 ^ P - 1 = b"
proof -
  let ?s = "v div 2 ^ b"
  have "(b * 2 ^ P + ?s) div 2 ^ P = b + ?s div 2 ^ P"
    by simp
  moreover have "?s div 2 ^ P \<le> 1"
    using octave_sub_bucket(1) [OF assms] less_mult_imp_div_less [of ?s 2 "2 ^ P"] by simp
  moreover have "b = 0 \<or> 1 \<le> ?s div 2 ^ P"
    using octave_sub_bucket(2) [OF assms] div_le_mono [of "2 ^ P" ?s "2 ^ P"] by auto
  ultimately show ?thesis
    by linarith
qed

lemma bucket_top_octave:
  assumes "octave P v b"
  shows "bucket_top P (b * 2 ^ P + v div 2 ^ b) = (v div 2 ^ b + 1) * 2 ^ b - 1"
  using octave_index_scale [OF assms] by (simp add: bucket_top_def)

lemma octave_bounds:
  assumes "octave P v b"
  shows "v \<le> bucket_top P (b * 2 ^ P + v div 2 ^ b)"
    and "(bucket_top P (b * 2 ^ P + v div 2 ^ b) - v) * 2 ^ P \<le> v"
proof -
  let ?t = "bucket_top P (b * 2 ^ P + v div 2 ^ b)"
  have split: "v = v div 2 ^ b * 2 ^ b + v mod 2 ^ b"
    by (rule div_mult_mod_eq [symmetric])
  have t: "?t = v div 2 ^ b * 2 ^ b + (2 ^ b - 1)"
    using bucket_top_octave [OF assms] by (simp add: algebra_simps)
  have "v mod 2 ^ b \<le> 2 ^ b - 1"
    by (metis Suc_pred' mod_less_divisor less_Suc_eq_le zero_less_numeral zero_less_power)
  then show "v \<le> ?t"
    using split t by linarith
  show "(?t - v) * 2 ^ P \<le> v"
  proof (cases "b = 0")
    case True
    then show ?thesis
      using t by simp
  next
    case False
    with assms have "2 ^ (P + b) \<le> v"
      by (simp add: octave_def)
    moreover have "?t - v \<le> 2 ^ b"
      using split t by linarith
    then have "(?t - v) * 2 ^ P \<le> 2 ^ b * 2 ^ P"
      by (rule mult_le_mono1)
    moreover have "2 ^ b * 2 ^ P = (2::nat) ^ (P + b)"
      by (simp add: power_add)
    ultimately show ?thesis
      by linarith
  qed
qed

lemma octave_mono:
  assumes "octave P v b" "octave P w c" "v \<le> w"
  shows "b * 2 ^ P + v div 2 ^ b \<le> c * 2 ^ P + w div 2 ^ c"
proof (cases "b = c")
  case True
  with assms(3) show ?thesis
    by (simp add: div_le_mono)
next
  case False
  have "b < c"
  proof (rule ccontr)
    assume "\<not> b < c"
    with False have "c < b" by simp
    then have "2 ^ (P + 1 + c) \<le> (2::nat) ^ (P + b)"
      by (intro power_increasing) auto
    with assms \<open>c < b\<close> show False
      by (auto simp: octave_def)
  qed
  have "v div 2 ^ b < 2 ^ (P + 1)" "2 ^ P \<le> w div 2 ^ c"
    using octave_sub_bucket(1) [OF assms(1)] octave_sub_bucket(2) [OF assms(2)] \<open>b < c\<close> by auto
  moreover have "(b + 1) * 2 ^ P \<le> c * 2 ^ P"
    using \<open>b < c\<close> by (intro mult_le_mono1) simp
  ultimately show ?thesis
    by simp
qed


subsection \<open>From words to numbers\<close>

lemma clz_below_spec:
  "clz_below n w \<le> n"
  "n - clz_below n w \<le> i \<Longrightarrow> i < n \<Longrightarrow> \<not> bit w i"
  "clz_below n w < n \<Longrightarrow> bit w (n - 1 - clz_below n w)"
proof (induction n)
  case (Suc n)
  {
    case 1
    show ?case using Suc(1) by simp
  next
    case 2
    then show ?case using Suc(2) by (cases "i = n") (auto split: if_splits)
  next
    case 3
    then show ?case using Suc(3) by (auto split: if_splits)
  }
qed simp_all

lemma bit_imp_power_le: "bit n k \<Longrightarrow> 2 ^ k \<le> n" for n :: nat
  by (metis bit_iff_odd div_less even_zero not_le)

lemma no_high_bits_less:
  assumes "\<And>i. k \<le> i \<Longrightarrow> i < 64 \<Longrightarrow> \<not> bit (w :: u64) i"
  shows "unat w < 2 ^ k"
proof -
  have "take_bit k w = w"
    using assms by (intro bit_eqI) (auto simp: bit_simps intro: ccontr)
  then have "take_bit k (unat w) = unat w"
    by (metis unsigned_take_bit_eq)
  then show ?thesis
    by (metis take_bit_nat_less_exp)
qed

lemma kSubBucketMask_eq: "precision_ok P \<Longrightarrow> kSubBucketMask P = mask (P + 1)"
proof -
  assume "precision_ok P"
  then have "P + 1 \<le> 32" by (simp add: precision_ok_def)
  have "kSubBucketMask P = (ucast (mask (P + 1) :: u32) :: u64)"
    by (simp add: kSubBucketMask_def kSubBucketCount_def mask_eq_exp_minus_1 push_bit_eq_mult)
  also have "\<dots> = mask (P + 1)"
    using \<open>P + 1 \<le> 32\<close> by (intro bit_eqI) (auto simp: bit_simps)
  finally show ?thesis .
qed

lemma bucket_index_octave:
  assumes "precision_ok P"
  obtains b where "bucket_index P v = int b" "octave P (unat v) b" "P + b \<le> 63"
proof -
  let ?w = "v OR kSubBucketMask P"
  let ?c = "clz_below 64 ?w"
  have P: "1 \<le> P" "P \<le> 16"
    using assms by (simp_all add: precision_ok_def)
  have bits: "bit ?w i \<longleftrightarrow> i < 64 \<and> (bit v i \<or> i \<le> P)" for i
    using kSubBucketMask_eq [OF assms] by (auto simp: bit_simps dest: bit_imp_le_length)
  have "?c < 64"
    using clz_below_spec(1) [of 64 ?w] clz_below_spec(2) [of 64 ?w 0] bits [of 0]
    by (cases "?c = 64") auto
  then have top: "bit ?w (63 - ?c)"
    using clz_below_spec(3) [of 64 ?w] by simp
  have above: "\<not> bit ?w i" if "63 - ?c < i" for i
    using that clz_below_spec(2) [of 64 ?w i] bits [of i] \<open>?c < 64\<close> by (cases "i < 64") auto
  have "P \<le> 63 - ?c"
    using above [of P] bits [of P] P by (cases "P \<le> 63 - ?c") auto
  define b where "b = 63 - ?c - P"
  have b: "63 - ?c = P + b" "P + b \<le> 63"
    using \<open>P \<le> 63 - ?c\<close> by (simp_all add: b_def)
  have "bucket_index P v = int b"
    using \<open>P \<le> 63 - ?c\<close> \<open>?c < 64\<close>
    by (simp add: bucket_index_def kLeadingZeroCountBase_def clzll_def b_def)
  moreover have "unat v < 2 ^ (P + b + 1)"
    using above bits b by (intro no_high_bits_less) auto
  moreover have "2 ^ (P + b) \<le> unat v" if "b \<noteq> 0"
    using top bits b that by (intro bit_imp_power_le) (auto simp: bit_unsigned_iff)
  ultimately show thesis
    using b by (intro that) (auto simp: octave_def ac_simps)
qed

lemma len32: "LENGTH(32) = 32" and len64: "LENGTH(64) = 64"
  by simp_all

lemma unat_kSubBucketHalfCount: "precision_ok P \<Longrightarrow> unat (kSubBucketHalfCount P) = 2 ^ P"
proof -
  assume "precision_ok P"
  then have P: "P + 1 < 32" by (simp add: precision_ok_def)
  have "kSubBucketHalfCount P = push_bit P 1"
    unfolding kSubBucketHalfCount_def kSubBucketCount_def
    using P by (intro bit_eqI) (auto simp: bit_simps)
  then have "kSubBucketHalfCount P = of_nat (2 ^ P)"
    by (simp add: push_bit_eq_mult)
  moreover have "(2::nat) ^ P < 2 ^ 32"
    using P by (intro power_strict_increasing) auto
  ultimately show ?thesis
    by (simp only: unat_of_nat_small len32)
qed

lemma kSubBucketHalfCount_u64:
  "precision_ok P \<Longrightarrow> (ucast (kSubBucketHalfCount P) :: u64) = of_nat (2 ^ P)"
  by (rule ucast_via_nat) (rule unat_kSubBucketHalfCount)

text \<open>The index of a value, as a number.\<close>

lemma octave_index_less:
  assumes "octave P v b"
  shows "b * 2 ^ P + v div 2 ^ b < (b + 2) * 2 ^ P"
  using octave_sub_bucket(1) [OF assms] by simp

lemma counts_index_octave:
  assumes "precision_ok P"
  obtains b where "octave P (unat v) b" "P + b \<le> 63"
    "unat (counts_index P v) = b * 2 ^ P + unat v div 2 ^ b"
proof -
  obtain b where b: "bucket_index P v = int b" "octave P (unat v) b" "P + b \<le> 63"
    using assms by (rule bucket_index_octave)
  let ?s = "unat v div 2 ^ b"
  have P: "P \<le> 16"
    using assms by (simp add: precision_ok_def)
  have "(2::nat) ^ (P + 1) \<le> 2 ^ 17"
    using P by (intro power_increasing) auto
  with octave_sub_bucket(1) [OF b(2)] have s: "?s < 2 ^ 32"
    by simp
  have "unat (drop_bit b v) = ?s"
    by (rule unat_drop_bit_div)
  then have "(ucast (drop_bit b v) :: u32) = of_nat ?s"
    by (rule ucast_via_nat)
  then have "unat (sub_bucket_index v (bucket_index P v)) = ?s"
    using s by (simp add: sub_bucket_index_def b(1) unat_of_nat_small)
  then have sub: "(ucast (sub_bucket_index v (bucket_index P v)) :: i64) = of_nat ?s"
    by (rule ucast_via_nat)
  note half = kSubBucketHalfCount_u64 [OF assms]
  have "counts_index P v = of_nat ((b + 1) * 2 ^ P) + (of_nat ?s - of_nat (2 ^ P))"
    using b(1) by (simp add: counts_index_def sub [unfolded b(1)] half push_bit_eq_mult algebra_simps)
  also have "\<dots> = of_nat (b * 2 ^ P + ?s)"
    by (simp add: algebra_simps)
  finally have "counts_index P v = of_nat (b * 2 ^ P + ?s)" .
  moreover have "b * 2 ^ P + ?s < 2 ^ 64"
  proof -
    have "(b + 2) * 2 ^ P \<le> 65 * 2 ^ 16"
      using b(3) P by (intro mult_le_mono power_increasing) auto
    with octave_index_less [OF b(2)] show ?thesis
      by simp
  qed
  ultimately have "unat (counts_index P v) = b * 2 ^ P + ?s"
    by (simp only: unat_of_nat_u64)
  then show thesis
    using b(2,3) by (intro that)
qed


text \<open>The top of a bucket, as a number, for every index a value of 64 bits can have.\<close>

lemma unat_highest_equivalent_value:
  assumes "precision_ok P" "i < (65 - P) * 2 ^ P"
  shows "unat (highest_equivalent_value P (of_nat i)) = bucket_top P i"
proof -
  have P: "1 \<le> P" "P \<le> 16"
    using assms(1) by (simp_all add: precision_ok_def)
  define q r where "q = i div 2 ^ P" and "r = i mod 2 ^ P"
  have i: "i = q * 2 ^ P + r" "r < 2 ^ P"
    unfolding q_def r_def by (simp_all only: div_mult_mod_eq mod_less_divisor zero_less_power zero_less_numeral)
  have q: "q < 65 - P"
    unfolding q_def using assms(2) by (simp add: less_mult_imp_div_less)
  have P16: "(2::nat) ^ P \<le> 2 ^ 16"
    using P by (intro power_increasing) auto
  have "(65 - P) * 2 ^ P \<le> 64 * 2 ^ 16"
    using P P16 by (intro mult_le_mono) auto
  with assms(2) have i32: "i < 2 ^ 31"
    by simp
  have uq: "unat (drop_bit P (of_nat i :: u64)) = q"
    using i32 by (simp add: unat_drop_bit_div unat_of_nat_small q_def)
  then have "(ucast (drop_bit P (of_nat i :: u64)) :: i32) = of_nat q"
    by (rule ucast_via_nat)
  then have bidx: "sint (ucast (drop_bit P (of_nat i :: u64)) :: i32) = int q"
    using q sint_of_int_i32 [of "int q"] by simp
  have "kSubBucketHalfCount P \<noteq> 0"
    using unat_kSubBucketHalfCount [OF assms(1)] by (metis unat_0 power_not_zero zero_neq_numeral)
  then have "unat (kSubBucketHalfCount P - 1) = 2 ^ P - 1"
    using unat_kSubBucketHalfCount [OF assms(1)] by (simp add: unat_minus_one)
  then have "(ucast (kSubBucketHalfCount P - 1) :: u64) = of_nat (2 ^ P - 1)"
    by (rule ucast_via_nat)
  then have "(ucast (kSubBucketHalfCount P - 1) :: u64) = of_nat (2 ^ P) - 1"
    by (simp add: of_nat_diff)
  then have "unat (of_nat i AND ucast (kSubBucketHalfCount P - 1) :: u64) = r"
    using P by (simp add: r_def unat_and_mask del: of_nat_power)
  then have "(ucast (of_nat i AND ucast (kSubBucketHalfCount P - 1) :: u64) :: u32) = of_nat r"
    by (rule ucast_via_nat)
  moreover have "kSubBucketHalfCount P = of_nat (2 ^ P)"
    using unat_kSubBucketHalfCount [OF assms(1)] by (metis of_nat_unat_self)
  ultimately have "ucast (of_nat i AND ucast (kSubBucketHalfCount P - 1) :: u64) + kSubBucketHalfCount P
      = (of_nat (r + 2 ^ P) :: u32)"
    by simp
  then have "unat (ucast (of_nat i AND ucast (kSubBucketHalfCount P - 1) :: u64) + kSubBucketHalfCount P)
      = r + 2 ^ P"
    using i(2) P16 unat_of_nat_small [of "r + 2 ^ P", where 'a = 32] by simp
  then have sidx: "(ucast (ucast (of_nat i AND ucast (kSubBucketHalfCount P - 1) :: u64)
      + kSubBucketHalfCount P) :: u64) = of_nat (r + 2 ^ P)"
    by (rule ucast_via_nat)
  show ?thesis
  proof (cases "q = 0")
    case True
    have "unat (ucast (of_nat i :: u64) :: u32) = i"
      using i32 ucast_via_nat [of "of_nat i :: u64" i, where 'a = 32] by (simp add: unat_of_nat_small)
    then have "(ucast (ucast (of_nat i :: u64) :: u32) :: u64) = of_nat i"
      by (rule ucast_via_nat)
    moreover have "bucket_top P i = i"
      using True by (simp add: bucket_top_def flip: q_def)
    ultimately show ?thesis
      using True bidx i32 by (simp add: highest_equivalent_value_def unat_of_nat_small)
  next
    case False
    define b where "b = q - 1"
    let ?n = "(r + 2 ^ P + 1) * 2 ^ b"
    have "?n \<le> 2 ^ (P + 1) * 2 ^ b"
      using i(2) by (intro mult_le_mono1) simp
    also have "\<dots> = 2 ^ (P + 1 + b)"
      by (simp add: power_add)
    also have "\<dots> \<le> (2::nat) ^ 64"
      using q P False by (intro power_increasing) (auto simp: b_def)
    finally have "?n - 1 < 2 ^ 64"
      by simp
    have "highest_equivalent_value P (of_nat i) = of_nat (r + 2 ^ P) * 2 ^ b + 2 ^ b - 1"
      using False bidx sidx
      by (simp add: highest_equivalent_value_def Let_def push_bit_eq_mult b_def nat_diff_distrib)
    also have "\<dots> = of_nat ?n - of_nat 1"
      by (simp add: algebra_simps)
    also have "\<dots> = of_nat (?n - 1)"
      by (subst of_nat_diff) (auto simp: Suc_le_eq)
    finally have "unat (highest_equivalent_value P (of_nat i)) = ?n - 1"
      using \<open>?n - 1 < 2 ^ 64\<close> by (simp only: unat_of_nat_small len64)
    moreover have "i - b * 2 ^ P = r + 2 ^ P"
      using False by (cases q) (simp_all add: i(1) b_def)
    ultimately show ?thesis
      by (simp add: bucket_top_def b_def Let_def flip: q_def)
  qed
qed


subsection \<open>The buckets and the array\<close>

declare buckets_loop.simps [code]

lemma buckets_loop_total:
  assumes "s = 2 ^ (P + k)" "1 \<le> P" "P + k \<le> 63" "1 \<le> k"
  shows "\<exists>n. buckets_loop (of_nat s) v k = Some n \<and> k \<le> n \<and> n \<le> 65 - P \<and>
           unat v < 2 ^ (P + n)"
  using assms
proof (induction "64 - k" arbitrary: s k rule: less_induct)
  case less
  note step = buckets_loop.simps [of "of_nat s" v k]
  have "s \<le> 2 ^ 63"
    using less.prems power_increasing [of "P + k" 63 "2::nat"] by simp
  then have s: "unat (of_nat s :: u64) = s"
    by (intro unat_of_nat_u64) simp
  have max: "(drop_bit 1 (- 1) :: u64) < of_nat s \<longleftrightarrow> 2 ^ 63 \<le> s"
    using s by (simp add: word_less_nat_alt mask_eq_exp_minus_1) linarith
  consider "unat v < s" | "s \<le> unat v" "s = 2 ^ 63" | "s \<le> unat v" "P + k < 63"
    using less.prems by (cases "unat v < s"; cases "P + k = 63") auto
  then show ?case
  proof cases
    case 1
    then show ?thesis
      using step s less.prems by (auto simp: word_le_nat_alt)
  next
    case 2
    then have "P + k = 63"
      using less.prems by (metis power_inject_exp one_less_numeral_iff semiring_norm(76))
    then have "unat v < 2 ^ (P + (k + 1))"
      using unsigned_less [of v] by (simp add: add.assoc [symmetric])
    with 2 show ?thesis
      using step s max \<open>P + k = 63\<close> by (auto simp: word_le_nat_alt)
  next
    case 3
    then have "2 ^ (P + k) \<le> (2::nat) ^ 62"
      by (intro power_increasing) auto
    then have "\<not> 2 ^ 63 \<le> s"
      using less.prems by simp
    moreover have "push_bit 1 (of_nat s :: u64) = of_nat (2 ^ (P + (k + 1)))"
      by (simp add: less.prems(1))
    ultimately have "buckets_loop (of_nat s) v k = buckets_loop (of_nat (2 ^ (P + (k + 1)))) v (k + 1)"
      using step s max 3 by (simp add: word_le_nat_alt)
    with less.hyps [of "k + 1" "2 ^ (P + (k + 1))"] 3 less.prems show ?thesis
      by fastforce
  qed
qed

lemma buckets_needed_spec:
  assumes "precision_ok P"
  obtains n where "buckets_needed P H = Some n" "1 \<le> n" "n \<le> 65 - P" "unat H < 2 ^ (P + n)"
proof -
  have "(ucast (kSubBucketCount P) :: u64) = of_nat (2 ^ (P + 1))"
  proof (rule ucast_via_nat)
    have "kSubBucketCount P = of_nat (2 ^ (P + 1))"
      by (simp add: kSubBucketCount_def push_bit_eq_mult)
    moreover have "(2::nat) ^ (P + 1) \<le> 2 ^ 17"
      using assms by (intro power_increasing) (auto simp: precision_ok_def)
    then have "(2::nat) ^ (P + 1) < 2 ^ 32"
      by simp
    ultimately show "unat (kSubBucketCount P) = 2 ^ (P + 1)"
      by (simp only: unat_of_nat_u32)
  qed
  then show thesis
    using buckets_loop_total [of "2 ^ (P + 1)" P 1 H] assms that
    by (auto simp: precision_ok_def buckets_needed_def)
qed

lemma kCountsLen_eq:
  "precision_ok P \<Longrightarrow> kCountsLen H P = (the (buckets_needed P H) + 1) * 2 ^ P"
  by (simp add: kCountsLen_def kBucketCount_def unat_kSubBucketHalfCount)

lemma counts_index_in_array:
  assumes "precision_ok P" "v \<le> H"
  shows "unat (counts_index P v) < kCountsLen H P"
proof -
  obtain n where n: "buckets_needed P H = Some n" "1 \<le> n" "unat H < 2 ^ (P + n)"
    using buckets_needed_spec [OF assms(1)] by metis
  obtain b where b: "octave P (unat v) b" "unat (counts_index P v) = b * 2 ^ P + unat v div 2 ^ b"
    using counts_index_octave [OF assms(1)] by metis
  have "b < n"
  proof (rule ccontr)
    assume "\<not> b < n"
    then have "b \<noteq> 0" "2 ^ (P + n) \<le> (2::nat) ^ (P + b)"
      using n(2) by (auto intro: power_increasing)
    with b(1) have "2 ^ (P + n) \<le> unat v"
      unfolding octave_def by linarith
    with n(3) assms(2) show False
      by (simp add: word_le_nat_alt)
  qed
  then have "(b + 2) * 2 ^ P \<le> (n + 1) * 2 ^ P"
    by (intro mult_le_mono1) simp
  with octave_index_less [OF b(1)] show ?thesis
    by (simp add: kCountsLen_eq [OF assms(1)] n(1) b(2))
qed

lemma hev_counts_index:
  assumes "precision_ok P"
  obtains b where "octave P (unat v) b"
    "unat (highest_equivalent_value P (counts_index P v))
       = bucket_top P (b * 2 ^ P + unat v div 2 ^ b)"
proof -
  obtain b where b: "octave P (unat v) b" "P + b \<le> 63"
    "unat (counts_index P v) = b * 2 ^ P + unat v div 2 ^ b"
    using assms by (rule counts_index_octave)
  let ?i = "b * 2 ^ P + unat v div 2 ^ b"
  have "counts_index P v = of_nat ?i"
    using b(3) by (metis of_nat_unat_self)
  moreover have "(b + 2) * 2 ^ P \<le> (65 - P) * 2 ^ P"
    using b(2) by (intro mult_le_mono1) simp
  with octave_index_less [OF b(1)] have "?i < (65 - P) * 2 ^ P"
    by linarith
  ultimately have "unat (highest_equivalent_value P (counts_index P v)) = bucket_top P ?i"
    using unat_highest_equivalent_value [OF assms] by (simp only:)
  with b(1) show thesis
    by (rule that)
qed


lemma hev_bounds:
  assumes "precision_ok P"
  shows "v \<le> highest_equivalent_value P (counts_index P v)"
    and "(unat (highest_equivalent_value P (counts_index P v)) - unat v) * 2 ^ P \<le> unat v"
proof -
  obtain b where b: "octave P (unat v) b"
    "unat (highest_equivalent_value P (counts_index P v)) = bucket_top P (b * 2 ^ P + unat v div 2 ^ b)"
    using assms by (rule hev_counts_index)
  show "v \<le> highest_equivalent_value P (counts_index P v)"
    using octave_bounds(1) [OF b(1)] b(2) by (simp add: word_le_nat_alt)
  show "(unat (highest_equivalent_value P (counts_index P v)) - unat v) * 2 ^ P \<le> unat v"
    using octave_bounds(2) [OF b(1)] b(2) by simp
qed

lemma octave_unique:
  assumes "octave P v b" "octave P v c"
  shows "b = c"
proof -
  have "\<not> d < e" if "octave P v d" "octave P v e" for d e
  proof
    assume "d < e"
    then have "(2::nat) ^ (P + 1 + d) \<le> 2 ^ (P + e)"
      by (intro power_increasing) auto
    with that \<open>d < e\<close> show False
      by (auto simp: octave_def)
  qed
  with assms show ?thesis
    by (metis linorder_neqE_nat)
qed

text \<open>The top of a bucket lies in that bucket.\<close>

lemma octave_top:
  assumes "octave P v b"
  defines "t \<equiv> (v div 2 ^ b + 1) * 2 ^ b - 1"
  shows "octave P t b" "t div 2 ^ b = v div 2 ^ b"
proof -
  have t: "t = v div 2 ^ b * 2 ^ b + (2 ^ b - 1)"
    by (simp add: t_def algebra_simps)
  have "v mod 2 ^ b \<le> 2 ^ b - 1"
    by (metis Suc_pred' mod_less_divisor less_Suc_eq_le zero_less_numeral zero_less_power)
  then have "v div 2 ^ b * 2 ^ b + v mod 2 ^ b \<le> t"
    unfolding t by (rule add_left_mono)
  then have "v \<le> t"
    by (simp only: div_mult_mod_eq)
  have "(v div 2 ^ b + 1) * 2 ^ b \<le> 2 ^ (P + 1) * 2 ^ b"
    using octave_sub_bucket(1) [OF assms(1)] by (intro mult_le_mono1) simp
  then have "t < 2 ^ (P + 1 + b)"
    unfolding t_def power_add [of 2 "P + 1" b]
    by (rule less_le_trans [rotated]) (simp add: less_Suc_eq_le)
  with \<open>v \<le> t\<close> assms(1) show "octave P t b"
    by (auto simp: octave_def)
  have "t div 2 ^ b = v div 2 ^ b + (2 ^ b - 1) div 2 ^ b"
    unfolding t by (rule div_mult_self3) simp
  then show "t div 2 ^ b = v div 2 ^ b"
    by (simp only: div_less diff_less zero_less_power zero_less_numeral zero_less_one add_0_right)
qed

lemma counts_index_hev:
  assumes "precision_ok P"
  shows "counts_index P (highest_equivalent_value P (counts_index P v)) = counts_index P v"
proof -
  let ?t = "highest_equivalent_value P (counts_index P v)"
  obtain b where b: "octave P (unat v) b" "unat (counts_index P v) = b * 2 ^ P + unat v div 2 ^ b"
    using assms by (rule counts_index_octave)
  obtain b' where b': "octave P (unat v) b'"
    "unat ?t = bucket_top P (b' * 2 ^ P + unat v div 2 ^ b')"
    using assms by (rule hev_counts_index)
  with b have t: "unat ?t = (unat v div 2 ^ b + 1) * 2 ^ b - 1"
    using octave_unique bucket_top_octave by metis
  obtain c where c: "octave P (unat ?t) c" "unat (counts_index P ?t) = c * 2 ^ P + unat ?t div 2 ^ c"
    using assms by (rule counts_index_octave)
  have "c = b"
    using octave_unique [OF c(1)] octave_top(1) [OF b(1)] t by simp
  then have "unat (counts_index P ?t) = unat (counts_index P v)"
    using c(2) b(2) octave_top(2) [OF b(1)] t by simp
  then show ?thesis
    by (rule unsigned_word_eqI)
qed

lemma counts_index_mono:
  assumes "precision_ok P" "v \<le> w"
  shows "unat (counts_index P v) \<le> unat (counts_index P w)"
proof -
  obtain b where b: "octave P (unat v) b" "unat (counts_index P v) = b * 2 ^ P + unat v div 2 ^ b"
    using assms(1) by (rule counts_index_octave)
  obtain c where c: "octave P (unat w) c" "unat (counts_index P w) = c * 2 ^ P + unat w div 2 ^ c"
    using assms(1) by (rule counts_index_octave)
  show ?thesis
    using octave_mono [OF b(1) c(1)] assms(2) by (simp add: b c word_le_nat_alt)
qed


subsection \<open>The object\<close>

record hist =
  counts :: "u64 list"
  total_count :: u64
  sum_ns :: u64
  max_ns :: u64
  min_ns :: u64

definition hist_init :: "u64 \<Rightarrow> nat \<Rightarrow> hist" where
  "hist_init H P =
     \<lparr>counts = replicate (kCountsLen H P) 0, total_count = 0, sum_ns = 0, max_ns = 0, min_ns = - 1\<rparr>"

definition clamp :: "u64 \<Rightarrow> u64 \<Rightarrow> u64" where
  "clamp H v = (if H < v then H else v)"

definition record_value :: "u64 \<Rightarrow> nat \<Rightarrow> u64 \<Rightarrow> hist \<Rightarrow> hist" where
  "record_value H P v h =
     (let v = clamp H v; idx = unat (counts_index P v) in
      h\<lparr>counts := (counts h)[idx := counts h ! idx + 1],
        total_count := total_count h + 1,
        sum_ns := sum_ns h + v,
        max_ns := (if max_ns h < v then v else max_ns h),
        min_ns := (if v < min_ns h then v else min_ns h)\<rparr>)"

definition record_n :: "u64 \<Rightarrow> nat \<Rightarrow> u64 \<Rightarrow> u64 \<Rightarrow> hist \<Rightarrow> hist" where
  "record_n H P v n h =
     (let v = clamp H v; idx = unat (counts_index P v) in
      h\<lparr>counts := (counts h)[idx := counts h ! idx + n],
        total_count := total_count h + n,
        sum_ns := sum_ns h + v * n,
        max_ns := (if max_ns h < v then v else max_ns h),
        min_ns := (if v < min_ns h then v else min_ns h)\<rparr>)"

definition hist_count :: "hist \<Rightarrow> u64" where
  "hist_count h = total_count h"

definition hist_min :: "hist \<Rightarrow> u64" where
  "hist_min h = (if total_count h \<noteq> 0 then min_ns h else 0)"

definition hist_max :: "hist \<Rightarrow> u64" where
  "hist_max h = max_ns h"

definition hist_mean :: "hist \<Rightarrow> rat" where
  "hist_mean h =
     (if total_count h \<noteq> 0
      then ddiv (double_of_u64 (sum_ns h)) (double_of_u64 (total_count h)) else 0)"

definition percentile_want :: "rat \<Rightarrow> u64 \<Rightarrow> u64" where
  "percentile_want p n =
     (let p = (if p < 0 then 0 else p); p = (if 100 < p then 100 else p);
          target = word_of_int (llround_rat (dmul (ddiv p 100) (double_of_u64 n)))
      in if target = 0 then 1 else target)"

fun find_rank :: "nat \<Rightarrow> u64 \<Rightarrow> u64 \<Rightarrow> u64 list \<Rightarrow> nat option" where
  "find_rank i cumulative want [] = None"
| "find_rank i cumulative want (c # cs) =
     (let cumulative = cumulative + c in
      if want \<le> cumulative then Some i else find_rank (i + 1) cumulative want cs)"

definition percentile :: "nat \<Rightarrow> hist \<Rightarrow> rat \<Rightarrow> u64" where
  "percentile P h p =
     (if total_count h = 0 then 0
      else case find_rank 0 0 (percentile_want p (total_count h)) (counts h) of
             Some i \<Rightarrow> highest_equivalent_value P (of_nat i)
           | None \<Rightarrow> max_ns h)"

definition add_hist :: "hist \<Rightarrow> hist \<Rightarrow> hist" where
  "add_hist h other =
     h\<lparr>counts := map2 (+) (counts h) (counts other),
       total_count := total_count h + hist_count other,
       sum_ns := sum_ns h + sum_ns other,
       max_ns := (if max_ns h < hist_max other then hist_max other else max_ns h),
       min_ns := (if hist_count other \<noteq> 0 \<and> hist_min other < min_ns h
                  then hist_min other else min_ns h)\<rparr>"

definition reset_hist :: "hist \<Rightarrow> hist" where
  "reset_hist h =
     h\<lparr>counts := map (\<lambda>_. 0) (counts h), total_count := 0, sum_ns := 0, max_ns := 0, min_ns := - 1\<rparr>"


subsection \<open>The object as a list of values\<close>

text \<open>What the object holds after the (clamped) values \<open>vs\<close>, all fields read off the list.\<close>

definition hist_of :: "u64 \<Rightarrow> nat \<Rightarrow> u64 list \<Rightarrow> hist" where
  "hist_of H P vs =
     \<lparr>counts = map (\<lambda>i. of_nat (length (filter (\<lambda>v. unat (counts_index P v) = i) vs)))
                [0..<kCountsLen H P],
      total_count = of_nat (length vs), sum_ns = sum_list vs,
      max_ns = fold max vs 0, min_ns = fold min vs (- 1)\<rparr>"

lemma clamp_le [simp]: "clamp H v \<le> H"
  by (simp add: clamp_def not_less)

lemma clamp_idem [simp]: "v \<le> H \<Longrightarrow> clamp H v = v"
  by (simp add: clamp_def leD)

lemma hist_init_of: "hist_init H P = hist_of H P []"
  by (simp add: hist_init_def hist_of_def map_replicate_const)

lemma reset_hist_of: "reset_hist (hist_of H P vs) = hist_of H P []"
  by (simp add: reset_hist_def hist_of_def comp_def)

lemma if_max: "(if a < b then b else a) = max b a" and if_min: "(if b < a then b else a) = min b a"
  for a :: "'a::linorder"
  by (auto simp: max_def min_def not_le not_less)

lemma funpow_idem: "(\<And>x. f (f x) = f x) \<Longrightarrow> 0 < n \<Longrightarrow> (f ^^ n) x = f x"
proof (induction n)
  case (Suc n)
  then show ?case by (cases n) simp_all
qed simp

lemma record_n_of:
  assumes "precision_ok P" "n \<noteq> 0"
  shows "record_n H P v (of_nat n) (hist_of H P vs) = hist_of H P (vs @ replicate n (clamp H v))"
proof -
  let ?v = "clamp H v"
  let ?i = "unat (counts_index P ?v)"
  have len: "?i < kCountsLen H P"
    using counts_index_in_array [OF assms(1)] by simp
  have "fold max (replicate n ?v) m = max ?v m" "fold min (replicate n ?v) m = min ?v m" for m
    using assms(2) by (simp_all add: fold_replicate funpow_idem)
  moreover have "sum_list (replicate n ?v) = ?v * of_nat n"
    by (simp add: sum_list_replicate)
  moreover have "(map (\<lambda>i. of_nat (length (filter (\<lambda>v. unat (counts_index P v) = i) vs)) :: u64)
         [0..<kCountsLen H P])[?i := of_nat (length (filter (\<lambda>v. unat (counts_index P v) = ?i) vs)) + of_nat n]
    = map (\<lambda>i. of_nat (length (filter (\<lambda>v. unat (counts_index P v) = i) (vs @ replicate n ?v))))
         [0..<kCountsLen H P]"
    using len by (intro nth_equalityI) (auto simp: nth_list_update)
  ultimately show ?thesis
    using len by (simp add: record_n_def hist_of_def Let_def if_max if_min)
qed

lemma record_value_1: "record_value H P v h = record_n H P v 1 h"
  by (simp add: record_value_def record_n_def)

lemma record_value_of:
  "precision_ok P \<Longrightarrow> record_value H P v (hist_of H P vs) = hist_of H P (vs @ [clamp H v])"
  using record_n_of [of P 1 H v vs] by (simp add: record_value_1)

lemma fold_record_of:
  "precision_ok P \<Longrightarrow> fold (record_value H P) xs (hist_of H P vs) = hist_of H P (vs @ map (clamp H) xs)"
  by (induction xs arbitrary: vs) (simp_all add: record_value_of)

lemma fold_max_append: "fold max ys (max a b) = max a (fold max ys b)" for a :: "'a::linorder"
  by (induction ys arbitrary: b) (simp_all, metis max.left_commute)

lemma fold_min_append: "fold min ys (min a b) = min a (fold min ys b)" for a :: "'a::linorder"
  by (induction ys arbitrary: b) (simp_all, metis min.left_commute)

lemma fold_max_0: "fold max ys a = max a (fold max ys 0)" for a :: u64
  using fold_max_append [of ys a 0] by (simp add: max_def)

lemma fold_min_max: "fold min ys a = min a (fold min ys (- 1))" for a :: u64
  using fold_min_append [of ys a "- 1"] by (simp add: min_def)

lemma map2_map: "map2 g (map f ns) (map h ns) = map (\<lambda>i. g (f i) (h i)) ns"
  by (induction ns) simp_all

lemma add_hist_of:
  assumes "length ys < 2 ^ 64"
  shows "add_hist (hist_of H P xs) (hist_of H P ys) = hist_of H P (xs @ ys)"
proof -
  have "(of_nat (length ys) :: u64) = 0 \<longleftrightarrow> ys = []"
    using assms word_of_nat_eq_0_iff [of "length ys", where 'a = 64] by (auto dest: nat_dvd_not_less [rotated])
  then have cnt: "hist_count (hist_of H P ys) = 0 \<longleftrightarrow> ys = []"
    by (simp add: hist_count_def hist_of_def)
  have mn: "min_ns (hist_of H P zs) = fold min zs (- 1)" for zs
    by (simp add: hist_of_def)
  have max: "hist_max (hist_of H P ys) = fold max ys 0"
    by (simp add: hist_max_def hist_of_def)
  show ?thesis
  proof (rule hist.equality)
    show "max_ns (add_hist (hist_of H P xs) (hist_of H P ys)) = max_ns (hist_of H P (xs @ ys))"
      using fold_max_0 [of ys "fold max xs 0"] by (simp add: add_hist_def max if_max) (simp add: hist_of_def)
    show "min_ns (add_hist (hist_of H P xs) (hist_of H P ys)) = min_ns (hist_of H P (xs @ ys))"
    proof (cases "ys = []")
      case False
      then have "hist_min (hist_of H P ys) = fold min ys (- 1)"
        using \<open>(of_nat (length ys) :: u64) = 0 \<longleftrightarrow> ys = []\<close> by (simp add: hist_min_def hist_of_def)
      then show ?thesis
        using False fold_min_max [of ys "fold min xs (- 1)"]
        by (simp add: add_hist_def cnt mn if_min)
    next
      case True
      with cnt have "hist_count (hist_of H P []) = 0"
        by simp
      with True show ?thesis
        by (simp add: add_hist_def mn)
    qed
  qed (simp_all add: add_hist_def hist_of_def hist_count_def map2_map)
qed


subsection \<open>Percentiles\<close>

text \<open>
  What the percentile scan needs of the index arithmetic, for the values a histogram accepts: the
  index is in the array, it is monotone, and the top of a value's bucket bounds it from above
  within the relative error.
\<close>

locale bucketing =
  fixes ok :: "'g \<Rightarrow> bool" and limit :: "'g \<Rightarrow> u64" and idx :: "'g \<Rightarrow> u64 \<Rightarrow> nat"
    and top :: "'g \<Rightarrow> nat \<Rightarrow> u64" and len :: "'g \<Rightarrow> nat"
  assumes idx_less: "ok g \<Longrightarrow> v \<le> limit g \<Longrightarrow> idx g v < len g"
    and idx_mono: "ok g \<Longrightarrow> v \<le> w \<Longrightarrow> idx g v \<le> idx g w"
    and top_ge: "ok g \<Longrightarrow> v \<le> top g (idx g v)"
    and idx_top: "ok g \<Longrightarrow> idx g (top g (idx g v)) = idx g v"

text \<open>The scan over the array finds the first index whose running total reaches the rank.\<close>

lemma find_rank_None:
  "c + (\<Sum>i\<in>{k..<n}. f i) < w \<Longrightarrow> w < 2 ^ 64 \<Longrightarrow>
   find_rank k (of_nat c) (of_nat w) (map (\<lambda>i. of_nat (f i)) [k..<n]) = None"
proof (induction "n - k" arbitrary: k c)
  case (Suc d)
  then have "k < n" by simp
  then have up: "[k..<n] = k # [Suc k..<n]" "(\<Sum>i\<in>{k..<n}. f i) = f k + (\<Sum>i\<in>{Suc k..<n}. f i)"
    by (simp_all add: upt_conv_Cons sum.atLeast_Suc_lessThan)
  with Suc.prems have "c + f k + (\<Sum>i\<in>{Suc k..<n}. f i) < w"
    by simp
  moreover from this have "\<not> (of_nat w :: u64) \<le> of_nat (c + f k)"
    using Suc.prems by (simp only: word_le_nat_alt unat_of_nat_u64)
  ultimately show ?case
    using Suc.hyps(1) [of "Suc k" "c + f k"] Suc.hyps(2) Suc.prems up by simp
qed simp

lemma find_rank_Some:
  assumes "k \<le> j" "j < n" "w < 2 ^ 64" "c + (\<Sum>i\<in>{k..<n}. f i) < 2 ^ 64"
    and "c + (\<Sum>i\<in>{k..<j}. f i) < w" "w \<le> c + (\<Sum>i\<in>{k..<Suc j}. f i)"
  shows "find_rank k (of_nat c) (of_nat w) (map (\<lambda>i. of_nat (f i)) [k..<n]) = Some j"
  using assms
proof (induction "n - k" arbitrary: k c)
  case (Suc d)
  then have "k < n" by simp
  then have up: "[k..<n] = k # [Suc k..<n]" "(\<Sum>i\<in>{k..<n}. f i) = f k + (\<Sum>i\<in>{Suc k..<n}. f i)"
    by (simp_all add: upt_conv_Cons sum.atLeast_Suc_lessThan)
  have small: "c + f k < 2 ^ 64"
    using Suc.prems up by simp
  have le: "(of_nat w :: u64) \<le> of_nat (c + f k) \<longleftrightarrow> w \<le> c + f k"
    using Suc.prems(3) small by (simp only: word_le_nat_alt unat_of_nat_u64)
  show ?case
  proof (cases "k = j")
    case True
    then show ?thesis
      using Suc.prems le up by simp
  next
    case False
    with Suc.prems have "k < j" by simp
    then have parts: "(\<Sum>i\<in>{k..<j}. f i) = f k + (\<Sum>i\<in>{Suc k..<j}. f i)"
      "(\<Sum>i\<in>{k..<Suc j}. f i) = f k + (\<Sum>i\<in>{Suc k..<Suc j}. f i)"
      by (simp_all only: sum.atLeast_Suc_lessThan [of k])
    then have "\<not> w \<le> c + f k"
      using Suc.prems by simp
    then show ?thesis
      using Suc.hyps(1) [of "Suc k" "c + f k"] Suc.hyps(2) Suc.prems parts up le \<open>k < j\<close>
      by simp
  qed
qed simp

text \<open>Counting a sorted list: the \<open>k\<close>-th element satisfies a downward closed predicate exactly if
  \<open>k\<close> elements do.\<close>

lemma sorted_filter_rank:
  fixes ys :: "'a::linorder list"
  assumes "sorted ys" "0 < k" "k \<le> length ys" "\<And>v w. v \<le> w \<Longrightarrow> Q w \<Longrightarrow> Q v"
  shows "k \<le> length (filter Q ys) \<longleftrightarrow> Q (ys ! (k - 1))"
proof
  assume "Q (ys ! (k - 1))"
  have "Q x" if "x \<in> set (take k ys)" for x
  proof -
    from that obtain i where "i < k" "x = ys ! i"
      using assms(3) by (auto simp: in_set_conv_nth)
    then have "x \<le> ys ! (k - 1)"
      using assms by (auto intro: sorted_nth_mono)
    with \<open>Q (ys ! (k - 1))\<close> show ?thesis
      by (rule assms(4) [rotated])
  qed
  then have "filter Q (take k ys) = take k ys"
    by simp
  then have "k \<le> length (filter Q (take k ys @ drop k ys))"
    unfolding filter_append using assms(3) by simp
  then show "k \<le> length (filter Q ys)"
    by simp
next
  assume "k \<le> length (filter Q ys)"
  show "Q (ys ! (k - 1))"
  proof (rule ccontr)
    assume no: "\<not> Q (ys ! (k - 1))"
    have "\<not> Q x" if "x \<in> set (drop (k - 1) ys)" for x
    proof -
      from that obtain i where "i + (k - 1) < length ys" "x = ys ! (k - 1 + i)"
        using assms(3) by (auto simp: in_set_conv_nth less_diff_conv)
      then have "ys ! (k - 1) \<le> x"
        using assms(1) by (auto intro: sorted_nth_mono)
      with no show ?thesis
        using assms(4) by blast
    qed
    then have "filter Q (drop (k - 1) ys) = []"
      by simp
    then have "length (filter Q (take (k - 1) ys @ drop (k - 1) ys)) \<le> k - 1"
      unfolding filter_append using length_filter_le [of Q "take (k - 1) ys"] by simp
    with \<open>k \<le> length (filter Q ys)\<close> assms(2) show False
      by simp
  qed
qed


lemma sum_filter_eq:
  "(\<Sum>i\<in>{0..<j}. length (filter (\<lambda>v. g v = i) vs)) = length (filter (\<lambda>v. g v < j) vs)" for j :: nat
proof (induction vs)
  case (Cons v vs)
  have "(\<Sum>i\<in>{0..<j}. length (filter (\<lambda>v. g v = i) (v # vs)))
      = (\<Sum>i\<in>{0..<j}. of_bool (g v = i) + length (filter (\<lambda>v. g v = i) vs))"
    by (intro sum.cong) auto
  also have "\<dots> = of_bool (g v < j) + length (filter (\<lambda>v. g v < j) vs)"
    using Cons by (simp add: sum.distrib of_bool_def)
  finally show ?case by simp
qed simp

lemma filter_sort_length: "length (filter Q (sort vs)) = length (filter Q vs)"
  by (simp add: filter_sort)

context bucketing begin

lemma top_mono:
  assumes "ok g" "v \<le> w"
  shows "top g (idx g v) \<le> top g (idx g w)"
proof (rule ccontr)
  assume "\<not> ?thesis"
  then have "idx g (top g (idx g w)) \<le> idx g (top g (idx g v))"
    using assms(1) by (intro idx_mono) auto
  then have "idx g v = idx g w"
    using assms idx_mono [OF assms] by (simp add: idx_top)
  with \<open>\<not> ?thesis\<close> show False
    by simp
qed

lemma scan_finds_order_statistic:
  assumes "ok g" "\<And>v. v \<in> set vs \<Longrightarrow> v \<le> limit g" "0 < k" "k \<le> length vs" "length vs < 2 ^ 64"
  shows "find_rank 0 0 (of_nat k)
      (map (\<lambda>i. of_nat (length (filter (\<lambda>v. idx g v = i) vs))) [0..<len g])
    = Some (idx g (sort vs ! (k - 1)))"
proof -
  let ?x = "sort vs ! (k - 1)"
  let ?f = "\<lambda>i. length (filter (\<lambda>v. idx g v = i) vs)"
  have "?x \<in> set (sort vs)"
    using assms(3,4) by (intro nth_mem) simp
  then have x: "?x \<in> set vs"
    by simp
  have rank: "k \<le> (\<Sum>i\<in>{0..<j}. ?f i) \<longleftrightarrow> idx g ?x < j" for j
  proof -
    have "idx g v < j" if "v \<le> w" "idx g w < j" for v w
      using idx_mono [OF assms(1) that(1)] that(2) by (rule le_less_trans)
    then show ?thesis
      using sorted_filter_rank [of "sort vs" k "\<lambda>v. idx g v < j"] assms
      unfolding sum_filter_eq filter_sort_length by simp
  qed
  have "(\<Sum>i\<in>{0..<len g}. ?f i) \<le> length vs"
    by (simp add: sum_filter_eq)
  then show ?thesis
    using find_rank_Some [of 0 "idx g ?x" "len g" k 0 ?f] rank [of "idx g ?x"] rank [of "Suc (idx g ?x)"]
      idx_less [OF assms(1) assms(2) [OF x]] assms
    by simp
qed

end

interpretation hdr: bucketing "\<lambda>(H, P). precision_ok P" fst "\<lambda>(H, P) v. unat (counts_index P v)"
  "\<lambda>(H, P) i. highest_equivalent_value P (of_nat i)" "\<lambda>(H, P). kCountsLen H P"
  by unfold_locales (auto simp: counts_index_in_array counts_index_mono hev_bounds counts_index_hev)

text \<open>The percentile of a histogram that holds \<open>vs\<close>, for the rank it asks for.\<close>

lemma percentile_hist_of:
  assumes "precision_ok P" "\<And>v. v \<in> set vs \<Longrightarrow> v \<le> H" "length vs < 2 ^ 64"
    and "percentile_want p (of_nat (length vs)) = of_nat k" "0 < k" "k \<le> length vs"
  shows "percentile P (hist_of H P vs) p
    = highest_equivalent_value P (counts_index P (sort vs ! (k - 1)))"
proof -
  have "(of_nat (length vs) :: u64) \<noteq> 0"
    using assms(3,5,6) unat_of_nat_u64 [of "length vs"] by auto
  then show ?thesis
    using hdr.scan_finds_order_statistic [of "(H, P)" vs k] assms
    by (simp add: percentile_def hist_of_def)
qed

lemma rank_bounds:
  assumes "0 \<le> p" "p \<le> 100" "n \<le> 2 ^ 53"
  shows "0 \<le> llround_rat (dmul (ddiv p 100) (double_of_u64 (of_nat n)))"
    and "llround_rat (dmul (ddiv p 100) (double_of_u64 (of_nat n))) \<le> int n"
proof -
  have n: "double_of_u64 (of_nat n) = of_nat n"
    using assms(3) unat_of_nat_u64 [of n] double_of_u64_exact [of "of_nat n"] by simp
  have "0 \<le> ddiv p 100" "ddiv p 100 \<le> 1"
    using assms b64_round_le_nat [of 1 "p / 100"] by (simp_all add: ddiv_def b64_round_nonneg)
  then have "0 \<le> ddiv p 100 * of_nat n" "ddiv p 100 * of_nat n \<le> of_nat n"
    by (simp_all add: mult_left_le_one_le)
  then have "0 \<le> dmul (ddiv p 100) (of_nat n)" "dmul (ddiv p 100) (of_nat n) \<le> of_nat n"
    using assms(3) by (simp_all only: dmul_def b64_round_nonneg b64_round_le_nat)
  then show "0 \<le> llround_rat (dmul (ddiv p 100) (double_of_u64 (of_nat n)))"
    "llround_rat (dmul (ddiv p 100) (double_of_u64 (of_nat n))) \<le> int n"
    using llround_mono [of 0] llround_mono [of _ "of_nat n"] llround_of_nat [of 0]
    by (simp_all add: n)
qed


definition want_rank :: "rat \<Rightarrow> nat \<Rightarrow> nat" where
  "want_rank p n = max 1 (nat (llround_rat (dmul (ddiv p 100) (double_of_u64 (of_nat n)))))"

lemma percentile_want_rank:
  assumes "0 \<le> p" "p \<le> 100" "0 < n" "n \<le> 2 ^ 53"
  shows "percentile_want p (of_nat n) = of_nat (want_rank p n)" "0 < want_rank p n" "want_rank p n \<le> n"
proof -
  define t where "t = llround_rat (dmul (ddiv p 100) (double_of_u64 (of_nat n)))"
  have t: "0 \<le> t" "t \<le> int n"
    using rank_bounds [of p n] assms by (simp_all add: t_def)
  then have "(word_of_int t :: u64) = of_nat (nat t)"
    by simp
  moreover have "(of_nat (nat t) :: u64) = 0 \<longleftrightarrow> t = 0"
    using unat_of_nat_u64 [of "nat t"] t assms(4) by auto
  ultimately show "percentile_want p (of_nat n) = of_nat (want_rank p n)"
    using assms t by (auto simp: percentile_want_def want_rank_def Let_def max_def simp flip: t_def)
  show "0 < want_rank p n" "want_rank p n \<le> n"
    using t assms(3) by (simp_all add: want_rank_def flip: t_def)
qed

lemma want_rank_mono: "p \<le> q \<Longrightarrow> want_rank p n \<le> want_rank q n"
proof -
  assume "p \<le> q"
  then have "ddiv p 100 \<le> ddiv q 100"
    by (auto simp: ddiv_def intro: b64_round_mono divide_right_mono)
  then have "dmul (ddiv p 100) (double_of_u64 (of_nat n)) \<le> dmul (ddiv q 100) (double_of_u64 (of_nat n))"
    unfolding dmul_def by (intro b64_round_mono mult_right_mono) auto
  then show ?thesis
    unfolding want_rank_def by (intro max.mono nat_mono llround_mono) simp_all
qed

lemma want_rank_100: "0 < n \<Longrightarrow> n \<le> 2 ^ 53 \<Longrightarrow> want_rank 100 n = n"
proof -
  assume n: "0 < n" "n \<le> 2 ^ 53"
  then have "double_of_u64 (of_nat n) = of_nat n"
    using unat_of_nat_u64 [of n] double_of_u64_exact [of "of_nat n"] by simp
  moreover have "ddiv 100 100 = 1"
    using b64_round_nat [of 1] by (simp add: ddiv_def)
  ultimately show ?thesis
    using n by (simp add: want_rank_def dmul_def b64_round_nat)
qed

lemma percentile_order_statistic:
  assumes "precision_ok P" "vs \<noteq> []" "length vs \<le> 2 ^ 53" "\<And>v. v \<in> set vs \<Longrightarrow> v \<le> H" "0 \<le> p" "p \<le> 100"
  shows "percentile P (hist_of H P vs) p
    = highest_equivalent_value P (counts_index P (sort vs ! (want_rank p (length vs) - 1)))"
  using assms percentile_want_rank [of p "length vs"] by (intro percentile_hist_of) auto

lemma hist_after:
  "precision_ok P \<Longrightarrow> fold (record_value H P) xs (hist_init H P) = hist_of H P (map (clamp H) xs)"
  by (simp add: hist_init_of fold_record_of)


subsection \<open>Properties\<close>

text \<open>
  The counter index of every value up to the trackable maximum lies in the counts array, whose
  length the compile-time loop \<open>buckets_needed\<close> computes (and that loop ends for every maximum).
\<close>

theorem histogram_index_in_bounds:
  assumes "precision_ok P" "v \<le> H"
  shows "buckets_needed P H \<noteq> None \<and> unat (counts_index P v) < kCountsLen H P"
  using buckets_needed_spec [OF assms(1), of H] counts_index_in_array [OF assms] by auto

lemma precision_ok_5: "precision_ok 5"
  by (simp add: precision_ok_def)

theorem histogram_index_in_bounds_witness:
  "unat (counts_index 5 1000000000) < kCountsLen 1000000000 5"
  using histogram_index_in_bounds [OF precision_ok_5 order_refl] by blast

text \<open>
  C8. The value reported for a bucket is the largest value of that bucket, it is at least the
  recorded value, and it exceeds it by at most one part in \<open>2 ^ P\<close>: the bounded relative error the
  class advertises, on all of the 64-bit range.
\<close>

theorem histogram_relative_error:
  assumes "precision_ok P"
  defines "hev \<equiv> \<lambda>v. highest_equivalent_value P (counts_index P v)"
  shows "v \<le> hev v \<and> (unat (hev v) - unat v) * 2 ^ P \<le> unat v
    \<and> (counts_index P w = counts_index P v \<longleftrightarrow> hev w = hev v)"
proof -
  have "counts_index P w = counts_index P v" if "hev w = hev v"
    using that counts_index_hev [OF assms(1)] by (metis hev_def)
  then show ?thesis
    using hev_bounds [OF assms(1)] by (auto simp: hev_def)
qed

theorem histogram_relative_error_witness:
  "(1000 :: u64) \<le> highest_equivalent_value 5 (counts_index 5 1000)"
  using histogram_relative_error [OF precision_ok_5, of 1000] by blast

text \<open>
  C10. After any sequence of \<open>record\<close> calls the object holds exactly what the sequence says: each
  counter is the number of (clamped) values with that index, the total is their number, the sum,
  maximum and minimum are theirs (all modulo \<open>2 ^ 64\<close>), and merging the histograms of two
  sequences gives the histogram of both.
\<close>

theorem histogram_records_sequence:
  assumes "precision_ok P" "length ys < 2 ^ 64"
  shows "fold (record_value H P) xs (hist_init H P) = hist_of H P (map (clamp H) xs)
    \<and> add_hist (fold (record_value H P) xs (hist_init H P)) (fold (record_value H P) ys (hist_init H P))
        = fold (record_value H P) (xs @ ys) (hist_init H P)
    \<and> reset_hist (fold (record_value H P) xs (hist_init H P)) = hist_init H P"
  using assms add_hist_of [of "map (clamp H) ys" H P "map (clamp H) xs"]
  by (simp add: hist_after reset_hist_of del: fold_append) (simp add: hist_init_of)

theorem histogram_records_sequence_witness:
  "reset_hist (fold (record_value 1000 5) [1, 2000] (hist_init 1000 5)) = hist_init 1000 5"
proof -
  have "length ([] :: u64 list) < 2 ^ 64"
    by simp
  from histogram_records_sequence [OF precision_ok_5 this, of 1000 "[1, 2000]"] show ?thesis
    by blast
qed

text \<open>
  C6. The percentile query returns the bucket top of an order statistic: of the \<open>k\<close>-th smallest
  recorded value, where \<open>k = want_rank p n\<close> is the rank the double-precision computation of the
  source yields, which lies in \<open>1 .. n\<close>. The reported number is the greatest value that falls into the
  same counter as that order statistic; so it is at least the order statistic and exceeds it by at most one
  part in \<open>2 ^ P\<close>, and it can exceed the greatest value recorded.
\<close>

theorem percentile_is_order_statistic:
  fixes H :: u64
  assumes "precision_ok P" "xs \<noteq> []" "length xs \<le> 2 ^ 53" "0 \<le> p" "p \<le> 100"
  defines "q \<equiv> percentile P (fold (record_value H P) xs (hist_init H P)) p"
    and "k \<equiv> want_rank p (length xs)"
    and "x \<equiv> sort (map (clamp H) xs) ! (want_rank p (length xs) - 1)"
  shows "1 \<le> k \<and> k \<le> length xs
    \<and> counts_index P q = counts_index P x \<and> (\<forall>w. counts_index P w = counts_index P x \<longrightarrow> w \<le> q)
    \<and> x \<le> q \<and> (unat q - unat x) * 2 ^ P \<le> unat x"
proof -
  have q: "q = highest_equivalent_value P (counts_index P x)"
    unfolding q_def x_def hist_after [OF assms(1)] using assms
    by (subst percentile_order_statistic) auto
  have "w \<le> q" if "counts_index P w = counts_index P x" for w
    using hev_bounds(1) [OF assms(1), of w] that by (simp add: q)
  moreover have "counts_index P q = counts_index P x"
    using counts_index_hev [OF assms(1), of x] by (simp add: q)
  moreover have "1 \<le> k" "k \<le> length xs"
    using percentile_want_rank [of p "length xs"] assms(2-5) by (simp_all add: k_def)
  ultimately show ?thesis
    using hev_bounds [OF assms(1), of x, folded q] by blast
qed

theorem percentile_is_order_statistic_witness:
  "counts_index 5 (percentile 5 (fold (record_value 100000 5) [3, 1000] (hist_init 100000 5)) 100) = counts_index 5 1000
    \<and> 1007 \<le> percentile 5 (fold (record_value 100000 5) [3, 1000] (hist_init 100000 5)) 100"
proof -
  have pre: "[3, 1000 :: u64] \<noteq> []" "length [3, 1000 :: u64] \<le> 2 ^ 53" "(0 :: rat) \<le> 100" "(100 :: rat) \<le> 100"
    by simp_all
  have "want_rank 100 (length [3, 1000 :: u64]) = 2"
    by (subst want_rank_100) simp_all
  then have x: "sort (map (clamp 100000) [3, 1000]) ! (want_rank 100 (length [3, 1000 :: u64]) - 1) = 1000"
    by (simp add: clamp_def)
  have "counts_index 5 1007 = counts_index 5 1000"
    by code_simp
  with percentile_is_order_statistic [OF precision_ok_5 pre, of 100000, unfolded x] show ?thesis
    by blast
qed

text \<open>
  Percentiles are monotone in \<open>p\<close>, and the 100th percentile is at least the recorded maximum.
\<close>

theorem percentile_monotone:
  fixes H :: u64
  assumes "precision_ok P" "xs \<noteq> []" "length xs \<le> 2 ^ 53" "0 \<le> p" "p \<le> r" "r \<le> 100"
  defines "h \<equiv> fold (record_value H P) xs (hist_init H P)"
  shows "percentile P h p \<le> percentile P h r \<and> hist_max h \<le> percentile P h 100"
proof -
  let ?vs = "map (clamp H) xs"
  let ?top = "\<lambda>k. highest_equivalent_value P (counts_index P (sort ?vs ! (k - 1)))"
  have h: "h = hist_of H P ?vs"
    unfolding h_def by (rule hist_after [OF assms(1)])
  have pct: "percentile P h s = ?top (want_rank s (length xs))" if "0 \<le> s" "s \<le> 100" for s
    unfolding h using assms that by (subst percentile_order_statistic) auto
  have n: "0 < length xs" using assms(2) by simp
  have "sort ?vs ! (want_rank p (length xs) - 1) \<le> sort ?vs ! (want_rank r (length xs) - 1)"
    using percentile_want_rank(3) [of r "length xs"] percentile_want_rank(2) [of r "length xs"]
      want_rank_mono [OF assms(5), of "length xs"] assms n
    by (intro sorted_nth_mono) auto
  then have "?top (want_rank p (length xs)) \<le> ?top (want_rank r (length xs))"
    using hdr.top_mono [of "(H, P)"] assms(1) by simp
  moreover have "hist_max h \<le> percentile P h 100"
  proof -
    have max: "v \<le> sort ?vs ! (length xs - 1)" if "v \<in> set ?vs" for v
    proof -
      from that have "v \<in> set (sort ?vs)" by simp
      then obtain i where "i < length xs" "v = sort ?vs ! i"
        by (metis in_set_conv_nth length_map length_sort)
      then show ?thesis
        by (auto intro: sorted_nth_mono)
    qed
    have "fold max vs a \<le> m" if "a \<le> m" "\<And>v. v \<in> set vs \<Longrightarrow> v \<le> m" for vs and a m :: u64
      using that by (induction vs arbitrary: a) auto
    then have "hist_max h \<le> sort ?vs ! (length xs - 1)"
      using max unfolding h hist_max_def hist_of_def hist.simps by (metis word_zero_le)
    also have "\<dots> \<le> ?top (length xs)"
      by (rule hev_bounds(1) [OF assms(1)])
    finally show ?thesis
      using pct [of 100] want_rank_100 [OF n assms(3)] by simp
  qed
  ultimately show ?thesis
    using pct [of p] pct [of r] assms by simp
qed

theorem percentile_monotone_witness:
  "percentile 5 (fold (record_value 1000 5) [7, 900] (hist_init 1000 5)) 50
     \<le> percentile 5 (fold (record_value 1000 5) [7, 900] (hist_init 1000 5)) 99"
proof -
  have "[7, 900 :: u64] \<noteq> []" "length [7, 900 :: u64] \<le> 2 ^ 53"
    "(0 :: rat) \<le> 50" "(50 :: rat) \<le> 99" "(99 :: rat) \<le> 100"
    by simp_all
  from percentile_monotone [OF precision_ok_5 this, of 1000] show ?thesis
    by blast
qed

end
