(* ===== verification/TscClock.thy ===== *)
theory TscClock
  imports WireMessages Binary64
begin

text \<open>
  \<open>include/hft/tsc.hpp\<close>: calibration of the cycle counter and its conversions, and the
  fixed-point price conversions of \<open>include/hft/itch_message.hpp\<close>, in double precision.

  The counter and \<open>steady_clock\<close> are outside the source; a calibration round is the pair of the
  nanoseconds and the cycles it measured, and \<open>calibrate_tsc\<close> takes the nine rounds. The
  advertised frequency of the hardware is an argument (0 where there is none).
\<close>

datatype clock_source = kX86InvariantTsc | kArmCntvct | kSteadyClockFallback

primrec clock_source_string :: "clock_source \<Rightarrow> string" where
  "clock_source_string kX86InvariantTsc = ''x86-invariant-tsc''"
| "clock_source_string kArmCntvct = ''arm-cntvct-el0''"
| "clock_source_string kSteadyClockFallback = ''steady-clock-fallback''"

record tsc_calibration =
  ns_per_cycle :: rat
  cycles_per_ns :: rat
  hz :: u64
  nominal_hz :: u64
  resolution_ns :: rat
  clock_source :: clock_source

text \<open>One calibration round: \<open>(cycles > 0.0) ? (ns / cycles) : 1.0\<close>.\<close>

definition round_ratio :: "rat \<times> u64 \<Rightarrow> rat" where
  "round_ratio r = (let (ns, d) = r; cycles = double_of_u64 d in if 0 < cycles then ddiv ns cycles else 1)"

definition kRounds :: nat where
  "kRounds = 9"

definition calibrate_tsc :: "clock_source \<Rightarrow> u64 \<Rightarrow> (rat \<times> u64) list \<Rightarrow> tsc_calibration" where
  "calibrate_tsc src nominal rounds =
     (let median = sort (map round_ratio rounds) ! (kRounds div 2) in
      \<lparr>ns_per_cycle = median,
       cycles_per_ns = (if 0 < median then ddiv 1 median else 1),
       hz = word_of_int (trunc_rat (if 0 < median then ddiv 1000000000 median else 0)),
       nominal_hz = nominal,
       resolution_ns = (if nominal \<noteq> 0 then ddiv 1000000000 (double_of_u64 nominal) else median),
       clock_source = src\<rparr>)"

definition tsc_to_ns :: "tsc_calibration \<Rightarrow> u64 \<Rightarrow> rat" where
  "tsc_to_ns cal cycles = dmul (double_of_u64 cycles) (ns_per_cycle cal)"

definition tsc_to_ns_u :: "tsc_calibration \<Rightarrow> u64 \<Rightarrow> u64" where
  "tsc_to_ns_u cal cycles = word_of_int (llround_rat (tsc_to_ns cal cycles))"

definition kResolutionFloorTicks :: rat where
  "kResolutionFloorTicks = 2"

definition resolution_floor_ns :: "tsc_calibration \<Rightarrow> rat" where
  "resolution_floor_ns cal = dmul kResolutionFloorTicks (resolution_ns cal)"

definition below_resolution :: "tsc_calibration \<Rightarrow> u64 \<Rightarrow> bool" where
  "below_resolution cal ns \<longleftrightarrow> double_of_u64 ns < resolution_floor_ns cal"

text \<open>Fixed-point prices: \<open>px * 10000\<close>, plus or minus a half, truncated; and back.\<close>

definition price_from_double :: "rat \<Rightarrow> i64" where
  "price_from_double px =
     word_of_int (trunc_rat (dadd (dmul px 10000) (if px < 0 then - (1 / 2) else 1 / 2)))"

definition price_to_double :: "i64 \<Rightarrow> rat" where
  "price_to_double px = ddiv (b64_round (of_int (sint px))) 10000"

lemma b64_round_half:
  assumes "n < 2 ^ 51"
  shows "b64_round (of_nat n + 1 / 2) = of_nat n + 1 / 2"
proof -
  let ?x = "of_nat n + 1 / 2 :: rat"
  have "of_nat (Suc n) \<le> (of_nat (2 ^ 51) :: rat)"
    using assms by (simp only: of_nat_le_iff)
  then have x: "0 < ?x" "?x < 2 powi 51"
    by (simp_all add: power_int_def)
  then have "rat_exp ?x < 51"
    using powi_le_cancel rat_exp_bounds(1) [of ?x] by blast
  then have "ulp_exp ?x \<le> - 1"
    by (simp add: ulp_exp_def)
  then have "b64_pos ?x = ?x"
    using x(1) by (intro b64_pos_exact [where m = "2 * int n + 1" and k = "- 1"]) (simp_all add: power_int_minus field_simps)
  with x(1) show ?thesis
    by (simp add: b64_round_def)
qed

text \<open>A whole number of dollars becomes exactly that price.\<close>

lemma price_from_whole: "n \<le> 10 ^ 9 \<Longrightarrow> price_from_double (of_nat n) = word_of_int (int n * 10000)"
proof -
  assume n: "n \<le> 10 ^ 9"
  then have "b64_round (of_nat (n * 10000)) = of_nat (n * 10000)"
    by (intro b64_round_nat) simp
  then have "dmul (of_nat n) 10000 = of_nat (n * 10000)"
    by (simp add: dmul_def)
  moreover have "dadd (of_nat (n * 10000)) (1 / 2) = of_nat (n * 10000) + 1 / 2"
    using n unfolding dadd_def by (intro b64_round_half) simp
  moreover have "trunc_rat (of_nat (n * 10000) + 1 / 2) = int (n * 10000)"
    unfolding trunc_rat_def using floor_unique [of "int (n * 10000)" "of_nat (n * 10000) + 1 / 2 :: rat"] by simp
  ultimately show ?thesis
    by (simp add: price_from_double_def)
qed

lemma double_of_u64_mono: "a \<le> b \<Longrightarrow> double_of_u64 a \<le> double_of_u64 b"
  unfolding double_of_u64_def by (rule b64_round_mono) (simp only: of_int_le_iff word_le_def)

lemma tsc_to_ns_mono: "0 \<le> ns_per_cycle cal \<Longrightarrow> a \<le> b \<Longrightarrow> tsc_to_ns cal a \<le> tsc_to_ns cal b"
  unfolding tsc_to_ns_def dmul_def by (intro b64_round_mono mult_right_mono double_of_u64_mono)



subsection \<open>Rendering a figure\<close>

text \<open>The decimal digits of a number, as \<open>%llu\<close> prints them.\<close>

fun show_nat :: "nat \<Rightarrow> string" where
  "show_nat n = (if n < 10 then [char_of (48 + n)] else show_nat (n div 10) @ [char_of (48 + n mod 10)])"

declare show_nat.simps [simp del]

text \<open>
  \<open>snprintf\<close> stores at most \<open>cap - 1\<close> characters; \<open>%.0f\<close> prints the nearest integer, ties to even. The
  floor is not negative, as a tick period is not.
\<close>

definition format_ns :: "tsc_calibration \<Rightarrow> nat \<Rightarrow> u64 \<Rightarrow> string" where
  "format_ns cal cap ns = take (cap - 1)
     (if below_resolution cal ns then CHR ''<'' # show_nat (nat (half_even (resolution_floor_ns cal)))
      else show_nat (unat ns))"

primrec read_digits :: "nat \<Rightarrow> string \<Rightarrow> nat" where
  "read_digits acc [] = acc"
| "read_digits acc (c # cs) = read_digits (acc * 10 + (of_char c - 48)) cs"

lemma read_digits_append: "read_digits acc (xs @ ys) = read_digits (read_digits acc xs) ys"
  by (induction xs arbitrary: acc) simp_all

lemma read_show_nat: "read_digits 0 (show_nat n) = n"
proof (induction n rule: show_nat.induct)
  case (1 n)
  have digit: "of_char (char_of (48 + d) :: char) - 48 = d" if "d < 10" for d :: nat
    using that by (simp add: of_char_of)
  show ?case
  proof (cases "n < 10")
    case True
    then show ?thesis by (simp add: show_nat.simps [of n] digit)
  next
    case False
    then show ?thesis
      using 1 by (simp add: show_nat.simps [of n] read_digits_append digit)
  qed
qed

lemma show_nat_digits: "set (show_nat n) \<subseteq> {c. (48 :: nat) \<le> of_char c \<and> of_char c \<le> (57 :: nat)}"
proof (induction n rule: show_nat.induct)
  case (1 n)
  then show ?case
    by (auto simp: show_nat.simps [of n] of_char_of)
qed


subsection \<open>Calibration\<close>

text \<open>The middle of a sorted list lies in any interval that holds more than half of it.\<close>

lemma median_between:
  fixes xs :: "'a::linorder list"
  assumes "length xs < 2 * length (filter (\<lambda>x. lo \<le> x \<and> x \<le> hi) xs)" "k = length xs div 2"
  shows "lo \<le> sort xs ! k \<and> sort xs ! k \<le> hi"
proof -
  define s where "s = sort xs"
  let ?good = "\<lambda>x. lo \<le> x \<and> x \<le> hi"
  let ?I = "{i. i < length s \<and> ?good (s ! i)}"
  have srt: "sorted s" and n: "length s = length xs"
    by (simp_all add: s_def)
  have "length (filter ?good xs) = length (filter ?good s)"
    by (metis filter_sort length_sort s_def)
  then have count: "length s < 2 * card ?I"
    using assms(1) n by (simp add: length_filter_conv_card)
  have k: "k < length s"
    using assms n by (cases xs) auto
  have "\<not> s ! k < lo"
  proof
    assume "s ! k < lo"
    have "?I \<subseteq> {k + 1..<length s}"
    proof
      fix i
      assume i: "i \<in> ?I"
      have "\<not> i \<le> k"
      proof
        assume "i \<le> k"
        then have "s ! i \<le> s ! k"
          using srt k by (intro sorted_nth_mono) simp_all
        with i \<open>s ! k < lo\<close> show False by auto
      qed
      with i show "i \<in> {k + 1..<length s}" by simp
    qed
    from card_mono [OF _ this] show False
      using count assms(2) n by simp
  qed
  moreover have "\<not> hi < s ! k"
  proof
    assume "hi < s ! k"
    have "?I \<subseteq> {..<k}"
    proof
      fix i
      assume i: "i \<in> ?I"
      have "\<not> k \<le> i"
      proof
        assume "k \<le> i"
        then have "s ! k \<le> s ! i"
          using srt i by (intro sorted_nth_mono) simp_all
        with i \<open>hi < s ! k\<close> show False by auto
      qed
      then show "i \<in> {..<k}" by simp
    qed
    from card_mono [OF _ this] show False
      using count assms(2) n by simp
  qed
  ultimately show ?thesis
    by (simp add: s_def not_less)
qed

text \<open>
  The calibration is robust: if the ratios of at least five of its nine rounds lie between \<open>lo\<close> and
  \<open>hi\<close>, so does the nanoseconds-per-cycle factor every measurement is multiplied by, whatever the other
  rounds measured; the factor is a ratio some round measured.
\<close>

theorem calibration_outlier_robust:
  assumes "length rounds = kRounds"
    and "5 \<le> length (filter (\<lambda>r. lo \<le> round_ratio r \<and> round_ratio r \<le> hi) rounds)"
  shows "lo \<le> ns_per_cycle (calibrate_tsc src nominal rounds)
    \<and> ns_per_cycle (calibrate_tsc src nominal rounds) \<le> hi
    \<and> ns_per_cycle (calibrate_tsc src nominal rounds) \<in> round_ratio ` set rounds"
proof -
  let ?xs = "map round_ratio rounds"
  have "length ?xs < 2 * length (filter (\<lambda>x. lo \<le> x \<and> x \<le> hi) ?xs)"
    using assms by (simp add: filter_map o_def kRounds_def)
  moreover have "kRounds div 2 = length ?xs div 2"
    using assms(1) by simp
  ultimately have "lo \<le> sort ?xs ! (kRounds div 2) \<and> sort ?xs ! (kRounds div 2) \<le> hi"
    by (rule median_between)
  moreover have "sort ?xs ! (kRounds div 2) \<in> set (sort ?xs)"
    using assms(1) by (intro nth_mem) (simp add: kRounds_def)
  ultimately show ?thesis
    by (simp add: calibrate_tsc_def Let_def)
qed

text \<open>Five rounds that measure one nanosecond per cycle, four that measured nothing sensible.\<close>

definition demo_rounds :: "(rat \<times> u64) list" where
  "demo_rounds = replicate 5 (4, 4) @ [(0, 1), (5, 0), (5, 0), (0, 2)]"

lemma demo_round_ratio: "round_ratio (4, 4) = 1"
  using b64_round_nat [of 1] b64_round_nat [of 4] by (simp add: round_ratio_def ddiv_def double_of_u64_def)

theorem calibration_outlier_robust_witness:
  "ns_per_cycle (calibrate_tsc kX86InvariantTsc 0 demo_rounds) = 1"
proof -
  have "length demo_rounds = kRounds"
    "5 \<le> length (filter (\<lambda>r. 1 \<le> round_ratio r \<and> round_ratio r \<le> 1) demo_rounds)"
    by (simp_all add: demo_rounds_def kRounds_def demo_round_ratio)
  from calibration_outlier_robust [OF this] show ?thesis
    by (metis order_antisym)
qed

end
