(* ===== verification/LatencyReport.thy ===== *)
theory LatencyReport
  imports Histogram TscClock "HOL-Library.Multiset"
begin

text \<open>
  \<open>include/hft/latency_report.hpp\<close> and the start-up report of \<open>include/hft/tsc.hpp\<close>: the texts the program
  prints or writes, as functions of the histograms and of the calibration. A file is the string written to it.

  The conversions of \<open>printf\<close> are written out: \<open>%llu\<close> is \<^const>\<open>show_nat\<close>, \<open>%.kf\<close> is \<open>show_fixed k\<close> (the
  exact value rounded to \<open>k\<close> decimals, ties to even), \<open>%-ns\<close> is \<open>pad_right n\<close>. A zero of type
  \<open>double\<close> has no sign here, and the quantities printed have none either. The theorems say that the CSV dump of a
  histogram is a lossless record of the reported values, and that a summary row has the columns its header names.
\<close>

subsection \<open>Conversions of printf\<close>

definition newline :: char where
  "newline = CHR 0x0A"

definition comma :: char where
  "comma = CHR '',''"

definition pad_right :: "nat \<Rightarrow> string \<Rightarrow> string" where
  "pad_right n s = s @ replicate (n - length s) (CHR '' '')"

definition show_fixed :: "nat \<Rightarrow> rat \<Rightarrow> string" where
  "show_fixed k x =
     (let ds = show_nat (nat (half_even (\<bar>x\<bar> * 10 ^ k)));
          ds = replicate (Suc k - length ds) (CHR ''0'') @ ds;
          n = length ds - k
      in (if x < 0 then ''-'' else []) @ take n ds @ (if k = 0 then [] else CHR ''.'' # drop n ds))"

definition show_u64 :: "u64 \<Rightarrow> string" where
  "show_u64 v = show_nat (unat v)"


subsection \<open>The CSV dump\<close>

definition raw_count :: "hist \<Rightarrow> nat \<Rightarrow> u64" where
  "raw_count h i = counts h ! i"

definition counts_len :: "hist \<Rightarrow> nat" where
  "counts_len h = length (counts h)"

definition bucket_upper_bound :: "nat \<Rightarrow> nat \<Rightarrow> u64" where
  "bucket_upper_bound P i = highest_equivalent_value P (of_nat i)"

definition csv_row :: "u64 \<Rightarrow> u64 \<Rightarrow> string" where
  "csv_row upper c = show_u64 upper @ [comma] @ show_u64 c @ [newline]"

definition dump_histogram_csv :: "nat \<Rightarrow> bool \<Rightarrow> hist \<Rightarrow> string option" where
  "dump_histogram_csv P opened h =
     (if \<not> opened then None
      else Some (''upper_ns,count'' @ [newline] @
        concat (map (\<lambda>i. let c = raw_count h i in if c \<noteq> 0 then csv_row (bucket_upper_bound P i) c else [])
                    [0..<counts_len h])))"


subsection \<open>The summary\<close>

definition summary_csv_header :: string where
  "summary_csv_header = ''stage,n,p50,p90,p99,p999,max,mean,resolution_ns,clock_source'' @ [newline]"

definition write_summary_row :: "tsc_calibration \<Rightarrow> nat \<Rightarrow> string \<Rightarrow> hist \<Rightarrow> string" where
  "write_summary_row cal P stage h =
     (let p50 = format_ns cal 32 (percentile P h 50);
          p90 = format_ns cal 32 (percentile P h 90);
          p99 = format_ns cal 32 (percentile P h 99);
          p999 = format_ns cal 32 (percentile P h (b64_round (999 / 10)));
          mx = format_ns cal 32 (hist_max h)
      in stage @ [comma] @ show_u64 (hist_count h) @ [comma] @ p50 @ [comma] @ p90 @ [comma] @ p99 @ [comma] @
         p999 @ [comma] @ mx @ [comma] @ show_fixed 0 (hist_mean h) @ [comma] @
         show_fixed 3 (resolution_ns cal) @ [comma] @ clock_source_string (clock_source cal) @ [newline])"

definition print_latency_row :: "tsc_calibration \<Rightarrow> nat \<Rightarrow> string \<Rightarrow> hist \<Rightarrow> string" where
  "print_latency_row cal P label h =
     (if hist_count h = 0 then ''  '' @ pad_right 18 label @ ''  (no samples)'' @ [newline]
      else
        let p50 = format_ns cal 32 (percentile P h 50);
            p90 = format_ns cal 32 (percentile P h 90);
            p99 = format_ns cal 32 (percentile P h 99);
            p999 = format_ns cal 32 (percentile P h (b64_round (999 / 10)));
            mx = format_ns cal 32 (hist_max h)
        in ''  '' @ pad_right 18 label @ '' n='' @ pad_right 9 (show_u64 (hist_count h)) @
           ''  p50='' @ pad_right 7 p50 @ '' p90='' @ pad_right 7 p90 @ '' p99='' @ pad_right 8 p99 @
           '' p99.9='' @ pad_right 8 p999 @ '' max='' @ pad_right 9 mx @ '' mean='' @ show_fixed 0 (hist_mean h) @ [newline])"

definition print_clock_report :: "tsc_calibration \<Rightarrow> string" where
  "print_clock_report c =
     ''clock source      : '' @ clock_source_string (clock_source c) @ [newline] @
     ''measured frequency: '' @ show_fixed 6 (ddiv (double_of_u64 (hz c)) 1000000) @ '' MHz'' @ [newline] @
     (if 0 < nominal_hz c then
        let nominal_mhz = ddiv (double_of_u64 (nominal_hz c)) 1000000;
            drift_pct = ddiv (dmul 100 (dsub (double_of_u64 (hz c)) (double_of_u64 (nominal_hz c))))
                          (double_of_u64 (nominal_hz c))
        in ''nominal frequency : '' @ show_fixed 6 nominal_mhz @ '' MHz (hardware cntfrq_el0)'' @ [newline] @
           ''calibration drift : '' @ (if 0 \<le> drift_pct then ''+'' else []) @ show_fixed 3 drift_pct @ ''%'' @ [newline]
      else ''nominal frequency : not advertised by this architecture'' @ [newline]) @
     ''tick period       : '' @ show_fixed 3 (resolution_ns c) @ '' ns'' @ [newline] @
     ''reporting floor   : '' @ show_fixed 0 (resolution_floor_ns c) @ '' ns ('' @ show_fixed 0 kResolutionFloorTicks @
     '' ticks; finer values print as '' @ [CHR 0x22] @ ''<floor'' @ [CHR 0x22, CHR '')'', newline]"

definition print_engine_report ::
    "tsc_calibration \<Rightarrow> nat \<Rightarrow> hist \<Rightarrow> hist \<Rightarrow> hist \<Rightarrow> hist \<Rightarrow> hist \<Rightarrow> string" where
  "print_engine_report cal P feed strat gw e2e round_trip =
     [newline] @ ''==================== measurement conditions ===================='' @ [newline] @
     print_clock_report cal @
     [newline] @ ''==================== latency report (nanoseconds) ===================='' @ [newline] @
     print_latency_row cal P ''feed handler'' feed @
     print_latency_row cal P ''strategy'' strat @
     print_latency_row cal P ''gateway'' gw @
     ''  ------------------------------------------------------------------'' @ [newline] @
     print_latency_row cal P ''END-TO-END'' e2e @
     print_latency_row cal P ''round trip'' round_trip @
     ''======================================================================'' @ [newline]"


subsection \<open>Reading the texts back\<close>

definition read_row :: "string \<Rightarrow> nat \<times> nat" where
  "read_row line = (let fields = split_on comma line in (read_digits 0 (fields ! 0), read_digits 0 (fields ! 1)))"

definition read_csv :: "string \<Rightarrow> (nat \<times> nat) list" where
  "read_csv contents = map read_row (butlast (tl (split_on newline contents)))"

definition expand_rows :: "(nat \<times> nat) list \<Rightarrow> nat list" where
  "expand_rows rows = concat (map (\<lambda>(upper, c). replicate c upper) rows)"

lemma show_nat_no_sep [simp]: "comma \<notin> set (show_nat n)" "newline \<notin> set (show_nat n)"
  using show_nat_digits [of n] by (auto simp: comma_def newline_def)

lemma show_u64_no_sep [simp]: "comma \<notin> set (show_u64 v)" "newline \<notin> set (show_u64 v)"
  by (simp_all add: show_u64_def)

lemma read_show_u64 [simp]: "read_digits 0 (show_u64 v) = unat v"
  by (simp add: show_u64_def read_show_nat)

lemma read_row_csv: "read_row (show_u64 u @ comma # show_u64 c) = (unat u, unat c)"
  by (simp add: read_row_def Let_def)

lemma concat_if: "concat (map (\<lambda>i. if Q i then f i else []) is) = concat (map f (filter Q is))"
  by (induction "is") auto

lemma read_dump:
  "dump_histogram_csv P True h = Some s \<Longrightarrow>
   read_csv s = map (\<lambda>i. (unat (bucket_upper_bound P i), unat (raw_count h i)))
                  (filter (\<lambda>i. raw_count h i \<noteq> 0) [0..<counts_len h])"
proof -
  let ?is = "filter (\<lambda>i. raw_count h i \<noteq> 0) [0..<counts_len h]"
  let ?line = "\<lambda>i. show_u64 (bucket_upper_bound P i) @ comma # show_u64 (raw_count h i)"
  assume "dump_histogram_csv P True h = Some s"
  then have s: "s = ''upper_ns,count'' @ newline # concat (map (\<lambda>l. l @ [newline]) (map ?line ?is))"
    by (simp add: dump_histogram_csv_def Let_def concat_if csv_row_def comp_def)
  have "split_on newline s = ''upper_ns,count'' # map ?line ?is @ [[]]"
    unfolding s by (subst split_on_sep, simp add: newline_def, subst split_on_lines) (auto simp: newline_def comma_def
        simp flip: newline_def comma_def, simp add: newline_def comma_def)
  then show ?thesis
    by (simp add: read_csv_def read_row_csv comp_def)
qed


subsection \<open>What a dump lists\<close>

lemma expand_skips_zero:
  "expand_rows (map (\<lambda>i. (f i, g i)) (filter (\<lambda>i. g i \<noteq> 0) is)) = expand_rows (map (\<lambda>i. (f i, g i)) is)"
  by (induction "is") (auto simp: expand_rows_def)

text \<open>The tops of the buckets, each as often as its bucket was hit, are the tops of the values' buckets.\<close>

lemma expand_counts:
  "mset (expand_rows (map (\<lambda>i. (f i, length (filter (\<lambda>v. idx v = i) vs))) [0..<n]))
     = {#f (idx v). v \<in># filter_mset (\<lambda>v. idx v < n) (mset vs)#}"
proof (induction n)
  case (Suc n)
  have split: "filter_mset (\<lambda>v. idx v < Suc n) (mset vs)
      = filter_mset (\<lambda>v. idx v < n) (mset vs) + filter_mset (\<lambda>v. idx v = n) (mset vs)"
    by (induction vs) auto
  have "{#f (idx v). v \<in># filter_mset (\<lambda>v. idx v = n) (mset vs)#}
      = replicate_mset (length (filter (\<lambda>v. idx v = n) vs)) (f n)"
    by (induction vs) auto
  with Suc split show ?case
    by (simp add: expand_rows_def)
qed (simp add: expand_rows_def)

lemma sorted_expand:
  assumes "\<And>i j. i \<in> set is \<Longrightarrow> j \<in> set is \<Longrightarrow> i \<le> j \<Longrightarrow> (f i :: nat) \<le> f j" "sorted is"
  shows "sorted (expand_rows (map (\<lambda>i. (f i, g i)) is))"
  using assms by (induction "is") (auto simp: expand_rows_def sorted_append)

text \<open>The reported value of \<open>x\<close>: the top of the bucket its clamped value falls into.\<close>

definition reported :: "u64 \<Rightarrow> nat \<Rightarrow> u64 \<Rightarrow> nat" where
  "reported H P x = unat (highest_equivalent_value P (counts_index P (clamp H x)))"

lemma dump_counts:
  fixes vs :: "u64 list"
  assumes "length vs < 2 ^ 64" "i < kCountsLen H P"
  shows "unat (raw_count (hist_of H P vs) i) = length (filter (\<lambda>v. unat (counts_index P v) = i) vs)"
proof -
  have "length (filter (\<lambda>v. unat (counts_index P v) = i) vs) < 2 ^ 64"
    using assms(1) length_filter_le [of "\<lambda>v. unat (counts_index P v) = i" vs] by (rule le_less_trans [rotated])
  then show ?thesis
    using assms(2) by (simp add: raw_count_def hist_of_def unat_of_nat_u64)
qed

lemma expand_dump:
  fixes vs :: "u64 list"
  assumes "precision_ok P" "length vs < 2 ^ 64" "\<And>v. v \<in> set vs \<Longrightarrow> v \<le> H"
    and "dump_histogram_csv P True (hist_of H P vs) = Some s"
  shows "expand_rows (read_csv s) = sort (map (\<lambda>v. unat (highest_equivalent_value P (counts_index P v))) vs)"
proof -
  let ?h = "hist_of H P vs" and ?f = "\<lambda>i. unat (bucket_upper_bound P i)"
  let ?idx = "\<lambda>v. unat (counts_index P v)" and ?K = "kCountsLen H P"
  let ?hit = "filter (\<lambda>i. raw_count ?h i \<noteq> 0) [0..<counts_len ?h]"
  have len: "counts_len ?h = ?K"
    by (simp add: counts_len_def hist_of_def)
  have zero: "raw_count ?h i \<noteq> 0 \<longleftrightarrow> unat (raw_count ?h i) \<noteq> 0" for i
    by (simp add: unat_eq_zero)
  have rows: "expand_rows (read_csv s) = expand_rows (map (\<lambda>i. (?f i, unat (raw_count ?h i))) ?hit)"
    using read_dump [OF assms(4)] by simp
  have "mset (expand_rows (read_csv s)) = mset (expand_rows (map (\<lambda>i. (?f i, unat (raw_count ?h i))) [0..<?K]))"
    unfolding rows zero len by (simp only: expand_skips_zero)
  also have "map (\<lambda>i. (?f i, unat (raw_count ?h i))) [0..<?K] = map (\<lambda>i. (?f i, length (filter (\<lambda>v. ?idx v = i) vs))) [0..<?K]"
    using dump_counts [OF assms(2)] by simp
  also have "mset (expand_rows \<dots>) = {#?f (?idx v). v \<in># filter_mset (\<lambda>v. ?idx v < ?K) (mset vs)#}"
    by (rule expand_counts)
  also have "filter_mset (\<lambda>v. ?idx v < ?K) (mset vs) = mset vs"
    using counts_index_in_array [OF assms(1) assms(3)] by (auto simp: filter_mset_eq_conv)
  finally have perm: "mset (expand_rows (read_csv s)) = mset (map (\<lambda>v. unat (highest_equivalent_value P (counts_index P v))) vs)"
    by (simp add: bucket_upper_bound_def comp_def)
  have "?f i \<le> ?f j" if ij: "i \<in> set ?hit" "j \<in> set ?hit" "i \<le> j" for i j
  proof (cases "i = j")
    case False
    have hit: "\<exists>v \<in> set vs. ?idx v = k" if "k \<in> set ?hit" for k
      using that dump_counts [OF assms(2), of k H P] by (auto simp: len zero filter_empty_conv)
    obtain v w where v: "v \<in> set vs" "?idx v = i" and w: "w \<in> set vs" "?idx w = j"
      using hit [OF ij(1)] hit [OF ij(2)] by blast
    have "v \<le> w"
      using counts_index_mono [OF assms(1), of w v] v(2) w(2) ij(3) False by (auto simp: word_le_nat_alt intro: ccontr)
    then show ?thesis
      using hdr.top_mono [of "(H, P)" v w] assms(1) v(2) w(2) by (simp add: bucket_upper_bound_def word_le_nat_alt)
  qed simp
  then have "sorted (expand_rows (read_csv s))"
    unfolding rows by (rule sorted_expand) (auto intro: sorted_wrt_filter)
  with perm show ?thesis
    by (metis properties_for_sort)
qed


subsection \<open>The cells of a summary row\<close>

lemma show_nat_length: "n < 10 ^ Suc k \<Longrightarrow> length (show_nat n) \<le> Suc k"
proof (induction k arbitrary: n)
  case (Suc k)
  then have "n div 10 < 10 ^ Suc k"
    by (simp add: less_mult_imp_div_less)
  with Suc.IH show ?case
    by (subst show_nat.simps) simp
qed (simp add: show_nat.simps)

lemma show_u64_length: "length (show_u64 v) \<le> 20"
proof -
  have "unat v < 10 ^ Suc 19"
    using unat_lt_u64 [of v] by simp
  from show_nat_length [OF this] show ?thesis
    by (simp add: show_u64_def)
qed

lemma format_ns_no_comma [simp]: "comma \<notin> set (format_ns cal cap ns)"
  using show_nat_no_sep(1) by (auto simp: format_ns_def comma_def dest: in_set_takeD)

text \<open>A cell of 32 bytes holds every 64-bit number.\<close>

lemma format_ns_cell:
  "if below_resolution cal ns then hd (format_ns cal 32 ns) = CHR ''<'' else read_digits 0 (format_ns cal 32 ns) = unat ns"
  using show_u64_length [of ns] by (simp add: format_ns_def read_show_nat show_u64_def)

lemma show_fixed_no_comma [simp]: "comma \<notin> set (show_fixed k x)"
  using show_nat_no_sep(1)
  by (auto simp: show_fixed_def Let_def comma_def dest!: in_set_takeD in_set_dropD split: if_splits)

lemma clock_source_no_comma [simp]: "comma \<notin> set (clock_source_string src @ [newline])"
  by (cases src) (simp_all add: comma_def newline_def)

lemma split_summary_row:
  assumes "comma \<notin> set stage"
  shows "split_on comma (write_summary_row cal P stage h) =
    [stage, show_u64 (hist_count h), format_ns cal 32 (percentile P h 50), format_ns cal 32 (percentile P h 90),
     format_ns cal 32 (percentile P h 99), format_ns cal 32 (percentile P h (b64_round (999 / 10))),
     format_ns cal 32 (hist_max h), show_fixed 0 (hist_mean h), show_fixed 3 (resolution_ns cal),
     clock_source_string (clock_source cal) @ [newline]]"
  using assms clock_source_no_comma [of "clock_source cal"] by (simp add: write_summary_row_def Let_def del: set_append)


subsection \<open>Properties\<close>

text \<open>
  C32. The CSV dump loses nothing of what a histogram can say: read back and with every bound repeated as often as
  its count says, the file of any histogram lists exactly the reported values of what was recorded, in
  ascending order.
\<close>

theorem csv_dump_lists_reported_values:
  assumes "precision_ok P" "length xs < 2 ^ 64"
  shows "\<exists>s. dump_histogram_csv P True (fold (record_value H P) xs (hist_init H P)) = Some s
    \<and> expand_rows (read_csv s) = sort (map (reported H P) xs)"
proof -
  obtain s where s: "dump_histogram_csv P True (fold (record_value H P) xs (hist_init H P)) = Some s"
    by (simp add: dump_histogram_csv_def)
  then have "expand_rows (read_csv s)
      = sort (map (\<lambda>v. unat (highest_equivalent_value P (counts_index P v))) (map (clamp H) xs))"
    using assms by (intro expand_dump [where H = H]) (auto simp: hist_after)
  with s show ?thesis
    by (simp add: reported_def [abs_def] comp_def)
qed

theorem csv_dump_lists_reported_values_witness:
  "\<exists>s. dump_histogram_csv 5 True (fold (record_value 1000 5) [900, 3] (hist_init 1000 5)) = Some s
    \<and> expand_rows (read_csv s) = sort [reported 1000 5 900, reported 1000 5 3]"
  using csv_dump_lists_reported_values [OF precision_ok_5, of "[900, 3]" 1000] by simp

text \<open>
  A row of the summary has one cell for each column of the header, whatever the stage measured, and a
  percentile or maximum is either the number the histogram reports or, below the resolution floor of the clock, a
  cell that starts with a less-than sign and so is not read as a measurement.
\<close>

theorem summary_row_matches_header:
  fixes cal :: tsc_calibration and P :: nat and h :: hist
  assumes "comma \<notin> set stage"
  defines "cells \<equiv> split_on comma (write_summary_row cal P stage h)"
  shows "length cells = length (split_on comma summary_csv_header) \<and> cells ! 0 = stage
    \<and> read_digits 0 (cells ! 1) = unat (hist_count h)
    \<and> list_all2 (\<lambda>cell ns. if below_resolution cal ns then hd cell = CHR ''<'' else read_digits 0 cell = unat ns)
        (take 5 (drop 2 cells))
        [percentile P h 50, percentile P h 90, percentile P h 99, percentile P h (b64_round (999 / 10)), hist_max h]"
proof -
  have "length (split_on comma summary_csv_header) = 10"
    by (simp add: summary_csv_header_def comma_def newline_def)
  then show ?thesis
    unfolding cells_def split_summary_row [OF assms(1)]
    using format_ns_cell [of cal] by simp
qed

theorem summary_row_matches_header_witness:
  "length (split_on comma (write_summary_row (calibrate_tsc kArmCntvct 24000000 (replicate 9 (1000, 24))) 5 ''feed'' (hist_init 1000 5))) = length (split_on comma summary_csv_header)"
  using summary_row_matches_header [of "''feed''" "calibrate_tsc kArmCntvct 24000000 (replicate 9 (1000, 24))" 5 "hist_init 1000 5"] by (simp add: comma_def)

end
