(* ===== verification/ReplayTool.thy ===== *)
theory ReplayTool
  imports ItchReplay LatencyReport
begin

text \<open>
  \<open>tools/itch50_replay.cpp\<close> from the command line to its report: the exit status, the text on standard
  output, and what the numbers in it count. The file system is an argument; \<^const>\<open>None\<close> is a run that reads past
  the end of the buffer. The text on standard error is left out.
\<close>

datatype file_result = NoFile | ShortRead | Contents "u8 list"

definition kReplayTicks :: nat where
  "kReplayTicks = 65536"

definition pad_left :: "nat \<Rightarrow> string \<Rightarrow> string" where
  "pad_left n s = replicate (n - length s) (CHR '' '') @ s"

definition report_count :: "string \<Rightarrow> u64 \<Rightarrow> string" where
  "report_count label n = label @ show_u64 n @ [newline]"

text \<open>One line of the coverage table; types that never occurred have none.\<close>

definition coverage_row :: "u64 list \<Rightarrow> nat \<Rightarrow> string" where
  "coverage_row by_type i =
     (if by_type ! i = 0 then []
      else
        let handled = expected_length (of_nat i) \<noteq> 0
        in ''  '' @ pad_right 6 [char_of i] @ '' '' @ pad_left 12 (show_u64 (by_type ! i)) @ ''  '' @
           (if handled then ''yes'' else ''no (ignored)'') @ [newline])"

definition replay_report :: "replay \<Rightarrow> string" where
  "replay_report st =
     (let s = rp_decoder st in
      report_count ''messages framed      : '' (rp_messages st) @
      report_count ''decoded              : '' (st_decoded s) @
      report_count ''ignored (other types): '' (st_ignored s) @
      report_count ''malformed length     : '' (st_malformed s) @
      report_count ''unknown order ref    : '' (st_unknown_order s) @
      report_count ''live orders at end   : '' (st_live_orders s) @
      report_count ''book level deltas    : '' (rp_deltas st) @
      report_count ''out-of-window prices : '' (out_of_range (rp_book st)) @
      report_count ''invariant failures   : '' (rp_failures st) @
      [newline] @ ''message type coverage:'' @ [newline] @
      ''  '' @ pad_right 6 ''type'' @ '' '' @ pad_left 12 ''count'' @ ''  decoded?'' @ [newline] @
      concat (map (coverage_row (rp_by_type st)) [0..<length (rp_by_type st)]))"

definition replay_main :: "string list \<Rightarrow> (string \<Rightarrow> file_result) \<Rightarrow> (nat \<times> string) option" where
  "replay_main argv read_file =
     (if length argv < 2 then Some (2, [])
      else case read_file (argv ! 1) of
             NoFile \<Rightarrow> Some (1, [])
           | ShortRead \<Rightarrow> Some (1, [])
           | Contents buf \<Rightarrow>
               map_option (\<lambda>st.
                 (replay_exit st,
                  ''replaying '' @ argv ! 1 @ '' ('' @ show_nat (length buf) @ '' bytes)'' @ [newline, newline] @
                  replay_report st))
                 (replay_loop buf (replay_init kReplayTicks)))"


subsection \<open>What the numbers count\<close>

text \<open>What becomes of a frame: its first byte is the type, and its length must be the one of that type.\<close>

datatype fate = Decoded | Ignored | Malformed

definition fate_of :: "u8 list \<times> nat \<Rightarrow> fate" where
  "fate_of frame =
     (let want = expected_length (hd (fst frame)) in
      if want = 0 then Ignored else if snd frame = want then Decoded else Malformed)"

definition fate_count :: "fate \<Rightarrow> (u8 list \<times> nat) list \<Rightarrow> nat" where
  "fate_count f fs = length (filter (\<lambda>x. fate_of x = f) fs)"

definition type_count :: "nat \<Rightarrow> (u8 list \<times> nat) list \<Rightarrow> nat" where
  "type_count i fs = length (filter (\<lambda>(body, n). unat (hd body) = i) fs)"

lemma counts_Cons:
  "of_nat (fate_count f (x # fs)) = (of_bool (fate_of x = f) + of_nat (fate_count f fs) :: u64)"
  "of_nat (type_count i (x # fs)) = (of_bool (unat (hd (fst x)) = i) + of_nat (type_count i fs) :: u64)"
  by (auto simp: fate_count_def type_count_def)

text \<open>The counters of the frames, and the orders in the table against the number the statistics show.\<close>

definition frame_counters :: "decoder \<Rightarrow> u64 \<times> u64 \<times> u64" where
  "frame_counters d = (st_decoded d, st_ignored d, st_malformed d)"

definition live_shown :: "decoder \<Rightarrow> bool" where
  "live_shown d \<longleftrightarrow> st_live_orders d = of_nat (length (orders d))"

lemmas decoder_counters = frame_counters_def live_shown_def

lemma reduce_counters: "reduce ref shares t out d = (out', d') \<Longrightarrow> frame_counters d' = frame_counters d"
  by (auto simp: reduce_def frame_counters_def Let_def split: option.splits)

lemma decode_switch_counters:
  "decode_switch body h out d = Some (out', d') \<Longrightarrow> frame_counters d' = frame_counters d"
  by (auto simp: decode_switch_def decode_add_def decode_reduce_def decode_delete_def decode_replace_def frame_counters_def Let_def
      dest: reduce_counters [unfolded frame_counters_def] split: if_splits bind_splits option.splits)

lemma read_header_type: "read_header body = Some h \<Longrightarrow> h_type h = hd body"
  by (auto simp: read_header_def byte_at_def hd_conv_nth split: bind_splits if_splits)

lemma decoder_apply_counters:
  assumes "decoder_apply body len d = Some (out, d')" "0 < len"
  shows "st_decoded d' = st_decoded d + of_bool (fate_of (body, len) = Decoded)"
    and "st_ignored d' = st_ignored d + of_bool (fate_of (body, len) = Ignored)"
    and "st_malformed d' = st_malformed d + of_bool (fate_of (body, len) = Malformed)"
    and "live_shown d \<Longrightarrow> live_shown d'"
proof -
  obtain h where h: "read_header body = Some h"
    using assms by (auto simp: decoder_apply_def split: bind_splits)
  have switch: "frame_counters d1 = (st_decoded d + 1, st_ignored d, st_malformed d)"
    if "decode_switch body h o1 (d\<lparr>st_decoded := st_decoded d + 1\<rparr>) = Some (o2, d1)" for o1 o2 d1
    using decode_switch_counters [OF that] by (simp add: frame_counters_def)
  show "st_decoded d' = st_decoded d + of_bool (fate_of (body, len) = Decoded)"
    "st_ignored d' = st_ignored d + of_bool (fate_of (body, len) = Ignored)"
    "st_malformed d' = st_malformed d + of_bool (fate_of (body, len) = Malformed)"
    "live_shown d \<Longrightarrow> live_shown d'"
    using assms h read_header_type [OF h] switch
    by (auto simp: decoder_apply_def fate_of_def decoder_counters Let_def split: if_splits bind_splits)
qed

lemma delta_loop_counters:
  "rp_messages (delta_loop d st) = rp_messages st \<and> rp_by_type (delta_loop d st) = rp_by_type st
   \<and> frame_counters (rp_decoder (delta_loop d st)) = frame_counters (rp_decoder st)
   \<and> live_shown (rp_decoder (delta_loop d st)) = live_shown (rp_decoder st)"
proof (induction d st rule: delta_loop.induct)
  case (1 d st)
  then show ?case
    by (subst (1 2 3 4) delta_loop.simps)
      (auto simp: replay_delta_def take_pending_def decoder_counters Let_def)
qed

text \<open>The state after the frames \<open>fs\<close> counts them.\<close>

definition counted :: "replay \<Rightarrow> (u8 list \<times> nat) list \<Rightarrow> replay \<Rightarrow> bool" where
  "counted st fs st' \<longleftrightarrow>
     rp_messages st' = rp_messages st + of_nat (length fs) \<and>
     st_decoded (rp_decoder st') = st_decoded (rp_decoder st) + of_nat (fate_count Decoded fs) \<and>
     st_ignored (rp_decoder st') = st_ignored (rp_decoder st) + of_nat (fate_count Ignored fs) \<and>
     st_malformed (rp_decoder st') = st_malformed (rp_decoder st) + of_nat (fate_count Malformed fs) \<and>
     length (rp_by_type st') = length (rp_by_type st) \<and>
     (\<forall>i < length (rp_by_type st). rp_by_type st' ! i = rp_by_type st ! i + of_nat (type_count i fs)) \<and>
     (live_shown (rp_decoder st) \<longrightarrow> live_shown (rp_decoder st'))"

lemma counted_Nil: "counted st [] st"
  by (simp add: counted_def fate_count_def type_count_def)

lemma counted_Cons: "counted st [f] st1 \<Longrightarrow> counted st1 fs st' \<Longrightarrow> counted st (f # fs) st'"
  using counts_Cons [of _ f fs] counts_Cons [of _ f "[]"]
  by (auto simp: counted_def fate_count_def type_count_def)

lemma replay_message_counted:
  assumes "replay_message body len st = Some st'" "0 < len"
  shows "counted st [(body, len)] st'"
proof -
  obtain d dec where apply_eq: "body \<noteq> []" "decoder_apply body len (rp_decoder st) = Some (d, dec)"
    and st': "st' = delta_loop d (st\<lparr>rp_messages := rp_messages st + 1,
      rp_by_type := count_type (hd body) (rp_by_type st), rp_decoder := dec\<rparr>)"
    using assms by (auto simp: replay_message_def byte_at_def hd_conv_nth split: bind_splits if_splits)
  have "frame_counters (rp_decoder st') = frame_counters dec" "live_shown (rp_decoder st') = live_shown dec"
    unfolding st' by (simp_all add: delta_loop_counters)
  moreover have "rp_messages st' = rp_messages st + 1" "rp_by_type st' = count_type (hd body) (rp_by_type st)"
    unfolding st' by (simp_all add: delta_loop_counters)
  moreover have "length (count_type t xs) = length xs"
    "i < length xs \<Longrightarrow> count_type t xs ! i = xs ! i + of_bool (unat t = i)" for t xs i
    by (auto simp: count_type_def nth_list_update)
  ultimately show ?thesis
    using decoder_apply_counters [OF apply_eq(2) assms(2)]
    by (simp add: counted_def counts_Cons frame_counters_def) (simp add: fate_count_def type_count_def)
qed

lemma reader_next50_positive: "reader_next50 rest = Some (body, len, rest') \<Longrightarrow> 0 < len"
  by (auto simp: reader_next50_def Let_def split: if_splits option.splits)

lemma replay_loop_counted: "replay_loop rest st = Some st' \<Longrightarrow> counted st (frames50 rest) st'"
proof (induction rest st rule: replay_loop.induct)
  case (1 rest st)
  show ?case
  proof (cases "reader_next50 rest")
    case None
    with 1(2) show ?thesis
      by (simp add: replay_loop.simps frames50.simps counted_Nil)
  next
    case (Some r)
    obtain body len rest' where r: "r = (body, len, rest')"
      by (cases r) auto
    with 1(2) Some obtain st1 where st1: "replay_message body len st = Some st1" "replay_loop rest' st1 = Some st'"
      by (subst (asm) replay_loop.simps) (auto split: option.splits)
    have "frames50 rest = (body, len) # frames50 rest'"
      using Some r by (simp add: frames50.simps [of rest])
    then show ?thesis
      using counted_Cons [OF replay_message_counted [OF st1(1)] 1(1) [OF Some r [symmetric] refl st1]]
        reader_next50_positive [of rest body len rest'] Some r by simp
  qed
qed


subsection \<open>Property\<close>

text \<open>
  C35. The replay tool on a file it can read: if it reads nothing past the end of the buffer it exits with success,
  whatever the bytes, because no delta ever leaves the book with an empty best level or an imbalance outside
  \<open>[-1, 1]\<close>; and the report it prints is right: the messages are the frames of the file; the decoded, the ignored
  and the malformed ones are those whose length is the one of their type, those of an unknown type, and
  those of another length; the live orders are those in the decoder's table; and the coverage table has one
  row for each type that occurs, with the number of its frames.
\<close>

theorem replay_report_exact:
  assumes "read_file path = Contents buf" "replay_main [prog, path] read_file = Some (status, out)"
  defines "fs \<equiv> frames50 buf"
  shows "status = 0 \<and> (\<exists>st. replay_loop buf (replay_init kReplayTicks) = Some st
    \<and> out = ''replaying '' @ path @ '' ('' @ show_nat (length buf) @ '' bytes)'' @ [newline, newline] @
        report_count ''messages framed      : '' (of_nat (length fs)) @
        report_count ''decoded              : '' (of_nat (fate_count Decoded fs)) @
        report_count ''ignored (other types): '' (of_nat (fate_count Ignored fs)) @
        report_count ''malformed length     : '' (of_nat (fate_count Malformed fs)) @
        report_count ''unknown order ref    : '' (st_unknown_order (rp_decoder st)) @
        report_count ''live orders at end   : '' (of_nat (length (orders (rp_decoder st)))) @
        report_count ''book level deltas    : '' (rp_deltas st) @
        report_count ''out-of-window prices : '' (out_of_range (rp_book st)) @
        report_count ''invariant failures   : '' 0 @
        [newline] @ ''message type coverage:'' @ [newline] @
        ''  '' @ pad_right 6 ''type'' @ '' '' @ pad_left 12 ''count'' @ ''  decoded?'' @ [newline] @
        concat (map (coverage_row (map (\<lambda>i. of_nat (type_count i fs)) [0..<128])) [0..<128]))"
proof -
  obtain st where st: "replay_loop buf (replay_init kReplayTicks) = Some st" "status = replay_exit st"
    "out = ''replaying '' @ path @ '' ('' @ show_nat (length buf) @ '' bytes)'' @ [newline, newline] @ replay_report st"
    using assms by (auto simp: replay_main_def)
  have fails: "rp_failures st = 0"
    using replay_loop_ok [OF st(1)] by (simp add: replay_init_def)
  have init: "rp_by_type (replay_init kReplayTicks) = replicate 128 0" "rp_messages (replay_init kReplayTicks) = 0"
    "rp_decoder (replay_init kReplayTicks) = decoder_init" "live_shown decoder_init"
    "st_decoded decoder_init = 0" "st_ignored decoder_init = 0" "st_malformed decoder_init = 0"
    by (simp_all add: replay_init_def decoder_init_def live_shown_def)
  have "counted (replay_init kReplayTicks) fs st"
    unfolding fs_def by (rule replay_loop_counted [OF st(1)])
  note counts = this [unfolded counted_def init]
  have "rp_by_type st = map (\<lambda>i. of_nat (type_count i fs)) [0..<128]"
    by (rule nth_equalityI) (use counts in simp_all)
  then show ?thesis
    using st fails counts init(4) by (simp add: replay_exit_def replay_report_def live_shown_def Let_def)
qed

text \<open>A file with one add order.\<close>

lemma demo_file_replayed: "\<exists>st. replay_loop demo_file (replay_init n) = Some st"
proof -
  have "rp_decoder (replay_init n) = decoder_init" "byte_at demo_add50 0 = Some 65"
    by (simp_all add: replay_init_def demo_add50_def)
  then have "\<exists>st. replay_message demo_add50 36 (replay_init n) = Some st"
    by (simp add: replay_message_def demo_add50_decoded)
  then obtain st where "replay_message demo_add50 36 (replay_init n) = Some st"
    by blast
  then show ?thesis
    by (subst replay_loop.simps) (simp add: demo_file_frame replay_loop.simps [of "[]"] reader_next50_Nil)
qed

lemma demo_frames: "frames50 demo_file = [(demo_add50, 36)]"
  by (simp add: frames50.simps [of demo_file] demo_file_frame frames50.simps [of "[]"] reader_next50_Nil)

theorem replay_report_exact_witness:
  "\<exists>rest. replay_main [''replay'', ''f''] (\<lambda>_. Contents demo_file) =
     Some (0, ''replaying f ('' @ show_nat 38 @ '' bytes)'' @ [newline, newline] @ report_count ''messages framed      : '' 1 @
       report_count ''decoded              : '' 1 @ report_count ''ignored (other types): '' 0 @
       report_count ''malformed length     : '' 0 @ rest)"
proof -
  obtain status out where run: "replay_main [''replay'', ''f''] (\<lambda>_. Contents demo_file) = Some (status, out)"
    using demo_file_replayed [of kReplayTicks] by (auto simp: replay_main_def)
  have len: "length demo_file = 38"
    by (simp add: demo_file_def frame50_def demo_add50_def)
  have "fate_of (demo_add50, 36) = Decoded"
    by (simp add: fate_of_def demo_add50_def expected_length_def)
  then have fs: "fate_count Decoded [(demo_add50, 36)] = 1" "fate_count Ignored [(demo_add50, 36)] = 0"
    "fate_count Malformed [(demo_add50, 36)] = 0"
    by (simp_all add: fate_count_def)
  from replay_report_exact [OF refl run] run show ?thesis
    unfolding demo_frames fs len by auto
qed

end
