(* ===== verification/FuzzTargets.thy ===== *)
theory FuzzTargets
  imports BookView TscClock
begin

text \<open>
  \<open>fuzz/fuzz_book.cpp\<close> and \<open>fuzz/fuzz_itch.cpp\<close>: what the two fuzz targets check on arbitrary bytes. A
  failed \<open>require\<close> traps with its message, a read of a byte that is not in the input is \<open>OutOfBounds\<close>, and \<open>Returned\<close> is the
  target's normal return. The theorem says that no input makes either of them trap or read outside the input,
  which is what a fuzzing campaign can only sample.
\<close>

datatype fuzz_result = Returned | Trapped string | OutOfBounds


subsection \<open>The order book\<close>

definition kTicks :: nat where
  "kTicks = 1024"

definition require :: "bool \<Rightarrow> string \<Rightarrow> string option" where
  "require condition what = (if condition then None else Some what)"

primrec first_failure :: "string option list \<Rightarrow> string option" where
  "first_failure [] = None"
| "first_failure (v # vs) = (case v of None \<Rightarrow> first_failure vs | Some what \<Rightarrow> Some what)"

definition check_book :: "i64 \<Rightarrow> i64 \<Rightarrow> book \<Rightarrow> string option" where
  "check_book bs tk b = first_failure
     ((if has_bid b
       then [require (0 < best_bid_size b) ''best bid has zero size'',
             require (size_at b kBuy (best_bid_price b) = best_bid_size b) ''best bid size disagrees with size_at'']
       else []) @
      (if has_ask b
       then [require (0 < best_ask_size b) ''best ask has zero size'',
             require (size_at b kSell (best_ask_price b) = best_ask_size b) ''best ask size disagrees with size_at'']
       else []) @
      [require (- 1 \<le> imbalance b \<and> imbalance b \<le> 1) ''imbalance outside [-1, 1]''] @
      (if has_bid b
       then [require (sint bs \<le> sint (best_bid_price b) \<and> sint (best_bid_price b) < sint (bs + of_nat kTicks * tk))
               ''best bid price outside the book window'']
       else []) @
      (if has_ask b
       then [require (sint bs \<le> sint (best_ask_price b) \<and> sint (best_ask_price b) < sint (bs + of_nat kTicks * tk))
               ''best ask price outside the book window'']
       else []))"

text \<open>\<open>parse_message(data + pos)\<close> copies a whole message, all of which must be in the input.\<close>

definition message_at :: "u8 list \<Rightarrow> nat \<Rightarrow> itch_message option" where
  "message_at data pos =
     (if pos + kMsgSize \<le> length data then Some (parse_message (take kMsgSize (drop pos data))) else None)"

text \<open>The loop over the messages \<open>i, i + 1, ...\<close> of the input.\<close>

fun fuzz_book_loop :: "i64 \<Rightarrow> i64 \<Rightarrow> u8 list \<Rightarrow> nat list \<Rightarrow> book \<Rightarrow> fuzz_result" where
  "fuzz_book_loop bs tk data [] b = Returned"
| "fuzz_book_loop bs tk data (i # is) b =
     (case message_at data (i * kMsgSize) of
        None \<Rightarrow> OutOfBounds
      | Some m \<Rightarrow>
          let b = apply_msg m b in
          case check_book bs tk b of None \<Rightarrow> fuzz_book_loop bs tk data is b | Some what \<Rightarrow> Trapped what)"

definition fuzz_book :: "u8 list \<Rightarrow> fuzz_result" where
  "fuzz_book data =
     (let bs = price_from_double 90; tk = i64_div kPriceScale 100; count = length data div kMsgSize
      in fuzz_book_loop bs tk data [0..<count] (book_init kTicks bs tk))"


subsection \<open>The frame reader\<close>

function fuzz_itch_loop :: "nat \<Rightarrow> nat \<Rightarrow> feed_reader \<Rightarrow> fuzz_result" where
  "fuzz_itch_loop nbytes seen r =
     (if has_next r then
        (case reader_next r of
           None \<Rightarrow> OutOfBounds
         | Some (m, r') \<Rightarrow>
             if nbytes < seen + 1 then Trapped ''reader produced more messages than input bytes''
             else fuzz_itch_loop nbytes (seen + 1) r')
      else if seen \<noteq> nbytes div kMsgSize then Trapped ''reader yielded an unexpected number of messages''
      else Returned)"
  by pat_completeness auto
termination
  by (relation "measure (\<lambda>(nbytes, seen, r). fr_end r - fr_cur r)")
    (auto simp: has_next_def reader_next_def kMsgSize_def split: option.splits)

declare fuzz_itch_loop.simps [simp del]

definition fuzz_itch :: "u8 list \<Rightarrow> fuzz_result" where
  "fuzz_itch data = fuzz_itch_loop (length data) 0 (feed_reader_init data (length data))"


subsection \<open>No input traps\<close>

lemma require_None [simp]: "require c what = None \<longleftrightarrow> c"
  by (simp add: require_def)

lemma first_failure_None: "first_failure vs = None \<longleftrightarrow> (\<forall>v \<in> set vs. v = None)"
  by (induction vs) (auto split: option.splits)

definition book_window :: "i64 \<Rightarrow> i64 \<Rightarrow> bool" where
  "book_window bs tk \<longleftrightarrow> 0 \<le> sint bs \<and> 0 < sint tk \<and> sint bs + int kTicks * sint tk < 2 ^ 62"

lemma fuzz_window: "book_window (price_from_double 90) (i64_div kPriceScale 100)"
proof -
  have "price_from_double 90 = 900000"
    using price_from_whole [of 90] by simp
  moreover have "i64_div kPriceScale 100 = 100"
    by (simp add: i64_div_def kPriceScale_def sdiv_nonneg)
  ultimately show ?thesis
    by (simp add: book_window_def kTicks_def)
qed

lemma window_product:
  assumes "book_window bs tk" "i \<le> kTicks"
  shows "0 \<le> int i * sint tk" "sint bs + int i * sint tk < 2 ^ 62" "in_i64 (int i * sint tk)"
proof -
  have "int i * sint tk \<le> int kTicks * sint tk"
    using assms by (intro mult_right_mono) (simp_all add: book_window_def)
  then show bound: "sint bs + int i * sint tk < 2 ^ 62"
    using assms(1) unfolding book_window_def by linarith
  show nonneg: "0 \<le> int i * sint tk"
    using assms(1) by (simp add: book_window_def)
  have "0 \<le> sint bs"
    using assms(1) by (simp add: book_window_def)
  with bound nonneg show "in_i64 (int i * sint tk)"
    by (simp add: in_i64_def)
qed

lemma sint_window_price:
  assumes "book_window bs tk" "i \<le> kTicks"
  shows "sint (bs + of_nat i * tk) = sint bs + int i * sint tk"
proof -
  note w = window_product [OF assms]
  have "sint (of_nat i :: i64) = int i"
    using assms(2) sint_of_int_i64 [of "int i"] by (simp add: kTicks_def in_i64_def)
  then have m: "sint (of_nat i * tk) = int i * sint tk"
    using w(3) by (subst sint_mult_i64) simp_all
  have "0 \<le> sint bs"
    using assms(1) by (simp add: book_window_def)
  then have "in_i64 (sint bs + int i * sint tk)"
    using w(1,2) by (simp add: in_i64_def)
  then show ?thesis
    using m by (subst sint_add_i64) simp_all
qed

lemma best_price_in_window:
  assumes "book_window (base b) (tick b)" "num_ticks b = kTicks" "i < kTicks"
  defines "p \<equiv> price_at b (int i)"
  shows "sint (base b) \<le> sint p" "sint p < sint (base b + of_nat kTicks * tick b)" "to_index b p = int i"
proof -
  have p: "sint p = sint (base b) + int i * sint (tick b)"
    using sint_window_price [OF assms(1), of i] assms(3) by (simp add: p_def price_at_def)
  have t: "0 < sint (tick b)"
    using assms(1) by (simp add: book_window_def)
  have lt: "int i * sint (tick b) < int kTicks * sint (tick b)"
    using t assms(3) by (intro mult_strict_right_mono) simp_all
  show "sint (base b) \<le> sint p"
    using p t by simp
  show "sint p < sint (base b + of_nat kTicks * tick b)"
    using p lt sint_window_price [OF assms(1), of kTicks] by simp
  have "int i * sint (tick b) < 2 ^ 31 * sint (tick b)" "0 \<le> int i * sint (tick b)"
    using t assms(3) by (auto simp: kTicks_def)
  moreover have "in_i64 (int i * sint (tick b))"
    using window_product(3) [OF assms(1)] assms(3) by simp
  ultimately have "price_fits b p"
    using t p by (simp add: price_fits_def)
  then show "to_index b p = int i"
    using p by (rule to_index_on_tick)
qed

lemma check_book_passes:
  assumes "book_ok b" "book_window (base b) (tick b)" "num_ticks b = kTicks"
  shows "check_book (base b) (tick b) b = None"
proof -
  have bid: "0 < best_bid_size b" "size_at b kBuy (best_bid_price b) = best_bid_size b"
    "sint (base b) \<le> sint (best_bid_price b)" "sint (best_bid_price b) < sint (base b + of_nat kTicks * tick b)"
    if "has_bid b"
  proof -
    have i: "nat (best_bid_idx b) < kTicks" "best_bid_idx b = int (nat (best_bid_idx b))"
        "0 \<le> best_bid_idx b" "best_bid_idx b < int kTicks"
      using best_bid_levels(3) [OF assms(1) that] assms(3) that by (auto simp: has_bid_def)
    note w = best_price_in_window [OF assms(2,3) i(1)]
    show "0 < best_bid_size b"
      using best_bid_levels(2) [OF assms(1) that] by (simp add: word_less_nat_alt)
    show "sint (base b) \<le> sint (best_bid_price b)" "sint (best_bid_price b) < sint (base b + of_nat kTicks * tick b)"
      using w(1,2) i(2) by (simp_all add: best_bid_price_def)
    show "size_at b kBuy (best_bid_price b) = best_bid_size b"
      using w(3) i that assms(3) by (auto simp: size_at_def best_bid_price_def best_bid_size_def Let_def)
  qed
  have ask: "0 < best_ask_size b" "size_at b kSell (best_ask_price b) = best_ask_size b"
    "sint (base b) \<le> sint (best_ask_price b)" "sint (best_ask_price b) < sint (base b + of_nat kTicks * tick b)"
    if "has_ask b"
  proof -
    have "0 \<le> best_ask_idx b"
      using assms(1) that by (auto simp: book_ok_def ask_best_def has_ask_def)
    then have i: "nat (best_ask_idx b) < kTicks" "best_ask_idx b = int (nat (best_ask_idx b))"
      "0 \<le> best_ask_idx b" "best_ask_idx b < int kTicks"
      using best_ask_levels(3) [OF assms(1) that] assms(3) by (simp_all add: nat_less_iff)
    note w = best_price_in_window [OF assms(2,3) i(1)]
    show "0 < best_ask_size b"
      using best_ask_levels(2) [OF assms(1) that] by (simp add: word_less_nat_alt)
    show "sint (base b) \<le> sint (best_ask_price b)" "sint (best_ask_price b) < sint (base b + of_nat kTicks * tick b)"
      using w(1,2) i(2) by (simp_all add: best_ask_price_def)
    show "size_at b kSell (best_ask_price b) = best_ask_size b"
      using w(3) i that assms(3) by (auto simp: size_at_def best_ask_price_def best_ask_size_def Let_def)
  qed
  have "- 1 \<le> imbalance b \<and> imbalance b \<le> 1"
    using imbalance_facts [OF assms(1)] imbalance_def [of b] by (cases "two_sided b") auto
  then show ?thesis
    using bid ask by (auto simp: check_book_def first_failure_None)
qed

lemma fuzz_book_loop_passes:
  assumes "book_ok b" "book_window (base b) (tick b)" "num_ticks b = kTicks" "\<forall>i \<in> set is. (i + 1) * kMsgSize \<le> length data"
  shows "fuzz_book_loop (base b) (tick b) data is b = Returned"
  using assms
proof (induction "is" arbitrary: b)
  case (Cons i "is")
  let ?m = "parse_message (take kMsgSize (drop (i * kMsgSize) data))"
  have read: "message_at data (i * kMsgSize) = Some ?m"
    using Cons.prems(4) by (simp add: message_at_def algebra_simps)
  have b: "book_ok (apply_msg ?m b)" "base (apply_msg ?m b) = base b" "tick (apply_msg ?m b) = tick b"
    "num_ticks (apply_msg ?m b) = kTicks"
    using fold_apply_msg [OF Cons.prems(1), of "[?m]"] Cons.prems(3) by simp_all
  then have "check_book (base b) (tick b) (apply_msg ?m b) = None"
    using check_book_passes [of "apply_msg ?m b"] Cons.prems(2) by simp
  moreover have "fuzz_book_loop (base b) (tick b) data is (apply_msg ?m b) = Returned"
    using Cons.IH [of "apply_msg ?m b"] b Cons.prems(2,4) by simp
  ultimately show ?case
    by (simp add: read Let_def)
qed simp

lemma whole_messages: "i < n div kMsgSize \<Longrightarrow> (i + 1) * kMsgSize \<le> n"
  using div_times_less_eq_dividend [of n kMsgSize] mult_le_mono1 [of "i + 1" "n div kMsgSize" kMsgSize] by linarith

lemma fuzz_itch_loop_returns:
  assumes "fr_end r \<le> length (fr_data r)" "fr_cur r \<le> fr_end r"
    and "seen + remaining_bytes r div kMsgSize = nbytes div kMsgSize"
  shows "fuzz_itch_loop nbytes seen r = Returned"
  using assms
proof (induction nbytes seen r rule: fuzz_itch_loop.induct)
  case (1 nbytes seen r)
  show ?case
  proof (cases "has_next r")
    case False
    then have "remaining_bytes r div kMsgSize = 0"
      by (simp add: has_next_def remaining_bytes_def kMsgSize_def)
    with False 1(4) show ?thesis
      by (simp add: fuzz_itch_loop.simps)
  next
    case True
    let ?r' = "r\<lparr>fr_cur := fr_cur r + kMsgSize\<rparr>"
    have nxt: "reader_next r = Some (parse_message (take kMsgSize (unread r)), ?r')"
      using True 1(2) by (rule reader_next_has_next)
    have fits: "fr_cur r + kMsgSize \<le> fr_end r"
      using True by (simp add: has_next_def kMsgSize_def)
    then have "remaining_bytes r = remaining_bytes ?r' + kMsgSize"
      by (simp add: remaining_bytes_def)
    then have rem: "remaining_bytes r div kMsgSize = Suc (remaining_bytes ?r' div kMsgSize)"
      by (simp add: kMsgSize_def)
    then have small: "\<not> nbytes < seen + 1"
      using 1(4) div_le_dividend [of nbytes kMsgSize] by linarith
    have "fuzz_itch_loop nbytes (seen + 1) ?r' = Returned"
      using 1(1) [OF True nxt refl small] 1(2,4) fits rem by simp
    then show ?thesis
      using True nxt small by (simp add: fuzz_itch_loop.simps)
  qed
qed

text \<open>
  C33. Neither fuzz target can trap or read outside its input: on every byte string the order book keeps every
  invariant the first one checks after every message, each of which lies in the input, and the frame reader
  the second one drives yields exactly one message per 32 bytes and reads only inside.
\<close>

theorem fuzz_targets_never_trap:
  "fuzz_book data = Returned \<and> fuzz_itch data = Returned"
proof
  let ?bs = "price_from_double 90" and ?tk = "i64_div kPriceScale 100"
  let ?b = "book_init kTicks ?bs ?tk"
  have b: "base ?b = ?bs" "tick ?b = ?tk" "num_ticks ?b = kTicks" "book_ok ?b"
    by (simp_all add: book_init_def num_ticks_def) (simp add: book_ok_init flip: book_init_def)
  show "fuzz_book data = Returned"
    using fuzz_book_loop_passes [OF b(4), of "[0..<length data div kMsgSize]" data] b fuzz_window
    by (simp add: fuzz_book_def Let_def whole_messages [simplified])
  show "fuzz_itch data = Returned"
    unfolding fuzz_itch_def
    by (rule fuzz_itch_loop_returns) (simp_all add: feed_reader_init_def remaining_bytes_def)
qed

end
