(* ===== verification/Sockets.thy ===== *)
theory Sockets
  imports HftPrelude
begin

text \<open>
  \<open>include/hft/net.hpp\<close>: the address type and the socket class. The operating system is outside the source, so
  the results of its calls are arguments; what an operation does to descriptors is the list of the descriptors it
  opens and closes, in order. An object is its \<open>fd_\<close>, and \<open>-1\<close> an object that owns nothing. Exceptions are
  \<^const>\<open>Inl\<close>, and leaving a function by one destroys the objects constructed in it.

  \<open>sock_step\<close> lets a program construct, bind, move, assign and destroy any number of objects; the theorem says
  that whatever it does, every open descriptor has exactly one owner and is closed exactly once. The stages use
  a socket as the datagrams that go in and out; see their theories.
\<close>

subsection \<open>Addresses\<close>

record endpoint =
  ep_addr :: u32
  ep_port :: u16

text \<open>\<open>Endpoint::v4\<close>: \<open>pton\<close> is the C library's \<open>inet_pton\<close>, \<^const>\<open>None\<close> the exception of a bad address.\<close>

definition endpoint_v4 :: "(string \<Rightarrow> u32 option) \<Rightarrow> string \<Rightarrow> u16 \<Rightarrow> endpoint option" where
  "endpoint_v4 pton ip port = map_option (\<lambda>a. \<lparr>ep_addr = a, ep_port = port\<rparr>) (pton ip)"

text \<open>\<open>htons\<close> and \<open>ntohs\<close> on the little-endian targets.\<close>

definition htons :: "u16 \<Rightarrow> u16" where
  "htons p = le_word (rev (le_bytes 2 p))"

definition ntohs :: "u16 \<Rightarrow> u16" where
  "ntohs p = le_word (rev (le_bytes 2 p))"

record sockaddr_in =
  sin_addr :: u32
  sin_port :: u16

definition endpoint_sockaddr :: "endpoint \<Rightarrow> sockaddr_in" where
  "endpoint_sockaddr e = \<lparr>sin_addr = ep_addr e, sin_port = htons (ep_port e)\<rparr>"

lemma ntohs_htons [simp]: "ntohs (htons p) = p"
  by (simp add: ntohs_def htons_def)


subsection \<open>The class\<close>

datatype fd_call = Opened int | Closed int

datatype sock_error = Errno string | BadBindAddress string

type_synonym 'a sock_result = "fd_call list \<times> (sock_error + 'a)"

definition udp_construct :: "int \<Rightarrow> int sock_result" where
  "udp_construct fd = (if fd < 0 then ([], Inl (Errno ''socket'')) else ([Opened fd], Inr fd))"

definition udp_destroy :: "int \<Rightarrow> fd_call list" where
  "udp_destroy fd = (if 0 \<le> fd then [Closed fd] else [])"

text \<open>The new object and what is left of the other one.\<close>

definition udp_move :: "int \<Rightarrow> int \<times> int" where
  "udp_move other = (other, - 1)"

definition udp_move_assign :: "bool \<Rightarrow> int \<Rightarrow> int \<Rightarrow> fd_call list \<times> int \<times> int" where
  "udp_move_assign same this other =
     (if \<not> same then ((if 0 \<le> this then [Closed this] else []), other, - 1) else ([], this, other))"

definition udp_bound :: "(string \<Rightarrow> u32 option) \<Rightarrow> int \<Rightarrow> (sockaddr_in \<Rightarrow> int) \<Rightarrow> u16 \<Rightarrow> string \<Rightarrow> int sock_result" where
  "udp_bound pton fd bind_rc port bind_addr =
     (case udp_construct fd of
        (calls, Inl e) \<Rightarrow> (calls, Inl e)
      | (calls, Inr s) \<Rightarrow>
          (case pton bind_addr of
             None \<Rightarrow> (calls @ udp_destroy s, Inl (BadBindAddress bind_addr))
           | Some a \<Rightarrow>
               if bind_rc \<lparr>sin_addr = a, sin_port = htons port\<rparr> < 0
               then (calls @ udp_destroy s, Inl (Errno ''bind'')) else (calls, Inr s)))"

text \<open>The flags written back, from the two results of \<open>fcntl\<close>; \<open>O_NONBLOCK\<close> is the platform's.\<close>

definition udp_set_nonblocking :: "int \<Rightarrow> bool \<Rightarrow> int \<Rightarrow> (int \<Rightarrow> int) \<Rightarrow> sock_error + int" where
  "udp_set_nonblocking O_NONBLOCK on flags set_rc =
     (if flags < 0 then Inl (Errno ''fcntl(F_GETFL)'')
      else
        let flags = (if on then flags OR O_NONBLOCK else flags AND NOT O_NONBLOCK)
        in if set_rc flags < 0 then Inl (Errno ''fcntl(F_SETFL)'') else Inr flags)"

definition udp_local_port :: "sockaddr_in option \<Rightarrow> u16" where
  "udp_local_port name = (case name of None \<Rightarrow> 0 | Some sa \<Rightarrow> ntohs (sin_port sa))"

text \<open>
  \<open>send_to\<close> is \<open>sendto\<close> on the address of the endpoint. \<open>recv\<close> takes the first datagram waiting, stores what fits into
  the buffer and drops the rest; \<open>-1\<close> says that nothing was waiting. The results are the value returned, the bytes
  stored and the datagrams left.
\<close>

definition udp_send_to :: "(int \<Rightarrow> u8 list \<Rightarrow> sockaddr_in \<Rightarrow> int) \<Rightarrow> int \<Rightarrow> endpoint \<Rightarrow> u8 list \<Rightarrow> int" where
  "udp_send_to sendto fd dst bytes = sendto fd bytes (endpoint_sockaddr dst)"

definition udp_try_recv :: "nat \<Rightarrow> u8 list list \<Rightarrow> int \<times> u8 list \<times> u8 list list" where
  "udp_try_recv len inbox =
     (case inbox of
        [] \<Rightarrow> (- 1, [], [])
      | bs # rest \<Rightarrow> let stored = take len bs in (int (length stored), stored, rest))"

text \<open>A socket bound to a port reports that port, and blocking mode is set and cleared without touching other flags.\<close>

lemma local_port_of_endpoint: "udp_local_port (Some (endpoint_sockaddr e)) = ep_port e"
  by (simp add: udp_local_port_def endpoint_sockaddr_def)

lemma set_nonblocking_flags:
  assumes "udp_set_nonblocking nb on flags set_rc = Inr flags'"
  shows "flags' AND nb = (if on then nb else 0)" "flags' AND NOT nb = flags AND NOT nb"
  using assms by (auto simp: udp_set_nonblocking_def Let_def bit_eq_iff bit_simps split: if_splits)


subsection \<open>Descriptors and their owners\<close>

text \<open>The open descriptors after some calls; \<^const>\<open>None\<close> once a descriptor that is not open is closed.\<close>

fun open_fds :: "int list \<Rightarrow> fd_call list \<Rightarrow> int list option" where
  "open_fds fs [] = Some fs"
| "open_fds fs (Opened fd # calls) = open_fds (fd # fs) calls"
| "open_fds fs (Closed fd # calls) = (if fd \<in> set fs then open_fds (remove1 fd fs) calls else None)"

type_synonym objects = "nat \<Rightarrow> int option"

text \<open>\<open>socket\<close> returns a descriptor that is not open, or fails.\<close>

definition fresh_fd :: "int \<Rightarrow> fd_call list \<Rightarrow> bool" where
  "fresh_fd fd calls \<longleftrightarrow> fd < 0 \<or> (case open_fds [] calls of None \<Rightarrow> True | Some fs \<Rightarrow> fd \<notin> set fs)"

inductive sock_step :: "objects \<times> fd_call list \<Rightarrow> objects \<times> fd_call list \<Rightarrow> bool" where
  construct: "objs x = None \<Longrightarrow> fresh_fd fd calls \<Longrightarrow> udp_construct fd = (cs, Inr s) \<Longrightarrow>
    sock_step (objs, calls) (objs(x \<mapsto> s), calls @ cs)"
| construct_throws: "udp_construct fd = (cs, Inl e) \<Longrightarrow> sock_step (objs, calls) (objs, calls @ cs)"
| bound: "objs x = None \<Longrightarrow> fresh_fd fd calls \<Longrightarrow> udp_bound pton fd bind_rc port addr = (cs, Inr s) \<Longrightarrow>
    sock_step (objs, calls) (objs(x \<mapsto> s), calls @ cs)"
| bound_throws: "fresh_fd fd calls \<Longrightarrow> udp_bound pton fd bind_rc port addr = (cs, Inl e) \<Longrightarrow>
    sock_step (objs, calls) (objs, calls @ cs)"
| move: "objs x = None \<Longrightarrow> objs y = Some other \<Longrightarrow> udp_move other = (s, other') \<Longrightarrow>
    sock_step (objs, calls) (objs(x \<mapsto> s, y \<mapsto> other'), calls)"
| move_assign: "objs x = Some this \<Longrightarrow> objs y = Some other \<Longrightarrow> udp_move_assign (x = y) this other = (cs, this', other') \<Longrightarrow>
    sock_step (objs, calls) ((if x = y then objs(x \<mapsto> this') else objs(x \<mapsto> this', y \<mapsto> other')), calls @ cs)"
| destroy: "objs x = Some s \<Longrightarrow> sock_step (objs, calls) (objs(x := None), calls @ udp_destroy s)"

definition owns :: "objects \<Rightarrow> nat \<Rightarrow> int \<Rightarrow> bool" where
  "owns objs x fd \<longleftrightarrow> objs x = Some fd \<and> 0 \<le> fd"

definition owned_by_one :: "objects \<Rightarrow> int list \<Rightarrow> bool" where
  "owned_by_one objs fs \<longleftrightarrow> distinct fs \<and> (\<forall>fd. fd \<in> set fs \<longleftrightarrow> (\<exists>x. owns objs x fd))
     \<and> (\<forall>x y fd. owns objs x fd \<longrightarrow> owns objs y fd \<longrightarrow> x = y)"

lemma open_fds_append:
  "open_fds fs (calls @ cs) = (case open_fds fs calls of None \<Rightarrow> None | Some fs' \<Rightarrow> open_fds fs' cs)"
  by (induction fs calls rule: open_fds.induct) auto

lemma owns_upd:
  "owns (objs(x := v)) z fd \<longleftrightarrow> (if z = x then v = Some fd \<and> 0 \<le> fd else owns objs z fd)"
  by (auto simp: owns_def)

lemma owned_by_oneD:
  assumes "owned_by_one objs fs"
  shows "distinct fs" "\<And>fd. fd \<in> set fs \<longleftrightarrow> (\<exists>x. owns objs x fd)"
    "\<And>x y fd. owns objs x fd \<Longrightarrow> owns objs y fd \<Longrightarrow> x = y"
  using assms by (auto simp: owned_by_one_def)

lemma owned_open:
  assumes "owned_by_one objs fs" "objs x = None" "fd \<notin> set fs" "0 \<le> fd"
  shows "owned_by_one (objs(x \<mapsto> fd)) (fd # fs)"
proof -
  note own = owned_by_oneD [OF assms(1)]
  have x: "\<not> owns objs x k" for k
    using assms(2) by (simp add: owns_def)
  have "\<not> owns objs y fd" for y
    using assms(3) own(2) by blast
  then show ?thesis
    using own x assms(3,4) unfolding owned_by_one_def owns_upd
    by (intro conjI allI) (simp_all, metis, metis)
qed

lemma owned_close:
  assumes "owned_by_one objs fs" "objs x = Some fd" "0 \<le> fd" "\<And>k. v = Some k \<Longrightarrow> k < 0"
  shows "fd \<in> set fs" "owned_by_one (objs(x := v)) (remove1 fd fs)"
proof -
  note own = owned_by_oneD [OF assms(1)]
  have x: "owns objs x k \<longleftrightarrow> k = fd" for k
    using assms(2,3) by (auto simp: owns_def)
  then show "fd \<in> set fs"
    using own(2) by blast
  have v: "v \<noteq> Some k \<or> \<not> 0 \<le> k" for k
    using assms(4) [of k] by auto
  show "owned_by_one (objs(x := v)) (remove1 fd fs)"
    unfolding owned_by_one_def owns_upd
  proof (intro conjI allI impI)
    show "distinct (remove1 fd fs)"
      using own(1) by simp
    show "k \<in> set (remove1 fd fs) \<longleftrightarrow> (\<exists>z. if z = x then v = Some k \<and> 0 \<le> k else owns objs z k)" for k
      using own x v by (simp add: set_remove1_eq) metis
    show "y = z" if "if y = x then v = Some k \<and> 0 \<le> k else owns objs y k"
      "if z = x then v = Some k \<and> 0 \<le> k else owns objs z k" for y z k
      using that own(3) v [of k] by (auto split: if_splits)
  qed
qed

lemma owned_same:
  assumes "owned_by_one objs fs" "\<And>fd. (\<exists>x. owns objs' x fd) \<longleftrightarrow> (\<exists>x. owns objs x fd)"
    and "\<And>x y fd. owns objs' x fd \<Longrightarrow> owns objs' y fd \<Longrightarrow> x = y"
  shows "owned_by_one objs' fs"
  using assms unfolding owned_by_one_def by blast

lemma owned_empty_object:
  assumes "owned_by_one objs fs" "\<And>fd. \<not> owns objs x fd" "\<And>k. v = Some k \<Longrightarrow> k < 0"
  shows "owned_by_one (objs(x := v)) fs"
proof -
  have "owns (objs(x := v)) z fd \<longleftrightarrow> owns objs z fd" for z fd
    using assms(2,3) by (auto simp: owns_upd)
  with assms(1) show ?thesis
    by (simp add: owned_by_one_def)
qed

lemma owned_handed_over:
  assumes "owned_by_one objs fs" "\<And>fd. \<not> owns objs x fd" "objs y = Some s" "x \<noteq> y"
  shows "owned_by_one (objs(x \<mapsto> s, y \<mapsto> - 1)) fs"
proof (rule owned_same [OF assms(1)])
  note own = owned_by_oneD [OF assms(1)]
  have new: "owns (objs(x \<mapsto> s, y \<mapsto> - 1)) z fd \<longleftrightarrow> (if z = x then owns objs y fd else z \<noteq> y \<and> owns objs z fd)" for z fd
    using assms(3,4) by (auto simp: owns_def)
  show "(\<exists>z. owns (objs(x \<mapsto> s, y \<mapsto> - 1)) z fd) \<longleftrightarrow> (\<exists>z. owns objs z fd)" for fd
    unfolding new using assms(2,4) by metis
  show "z = z'" if "owns (objs(x \<mapsto> s, y \<mapsto> - 1)) z fd" "owns (objs(x \<mapsto> s, y \<mapsto> - 1)) z' fd" for z z' fd
    using that own(3) unfolding new by (auto split: if_splits)
qed

definition sock_inv :: "objects \<times> fd_call list \<Rightarrow> bool" where
  "sock_inv st \<longleftrightarrow> (case open_fds [] (snd st) of None \<Rightarrow> False | Some fs \<Rightarrow> owned_by_one (fst st) fs)"

lemma udp_destroy_owned:
  assumes "owned_by_one objs fs" "objs x = Some s" "\<And>k. v = Some k \<Longrightarrow> k < 0"
  shows "\<exists>fs'. open_fds fs (udp_destroy s) = Some fs' \<and> owned_by_one (objs(x := v)) fs'"
proof (cases "0 \<le> s")
  case True
  then show ?thesis
    using owned_close [OF assms(1,2) True assms(3)] by (simp add: udp_destroy_def)
next
  case False
  then have "\<not> owns objs x fd" for fd
    using assms(2) by (simp add: owns_def)
  with False show ?thesis
    using owned_empty_object [OF assms(1)] assms(3) by (simp add: udp_destroy_def)
qed

text \<open>\<open>bound\<close> opens what it returns, and nothing stays open when it throws.\<close>

lemma udp_bound_cases:
  assumes "udp_bound pton fd bind_rc port addr = (cs, r)"
  obtains (returned) "0 \<le> fd" "r = Inr fd" "cs = [Opened fd]"
  | (threw) e where "r = Inl e" "cs = [] \<or> 0 \<le> fd \<and> cs = [Opened fd, Closed fd]"
  using assms by (auto simp: udp_bound_def udp_construct_def udp_destroy_def split: if_splits option.splits)

lemma opened_inv:
  assumes "sock_inv (objs, calls)" "objs x = None" "fresh_fd fd calls" "0 \<le> fd"
  shows "sock_inv (objs(x \<mapsto> fd), calls @ [Opened fd])"
  using assms owned_open [of objs _ x fd]
  by (auto simp: sock_inv_def open_fds_append fresh_fd_def split: option.splits)

lemma sock_step_inv:
  assumes "sock_step st st'" "sock_inv st"
  shows "sock_inv st'"
  using assms
proof (induction rule: sock_step.induct)
  case (construct objs x fd calls cs s)
  then show ?case
    using opened_inv by (auto simp: udp_construct_def split: if_splits)
next
  case (construct_throws fd cs e objs calls)
  then show ?case
    by (auto simp: udp_construct_def split: if_splits)
next
  case (bound objs x fd calls pton bind_rc port addr cs s)
  from bound(3) show ?case
    by (cases rule: udp_bound_cases) (use bound opened_inv in auto)
next
  case (bound_throws fd calls pton bind_rc port addr cs e objs)
  from bound_throws(2) show ?case
    by (cases rule: udp_bound_cases)
      (use bound_throws in \<open>auto simp: sock_inv_def open_fds_append split: option.splits\<close>)
next
  case (move objs x y other s other' calls)
  then have "x \<noteq> y" "\<And>fd. \<not> owns objs x fd" "s = other" "other' = - 1"
    by (auto simp: owns_def udp_move_def)
  with move show ?case
    using owned_handed_over by (auto simp: sock_inv_def split: option.splits)
next
  case (move_assign objs x this y other cs this' other' calls)
  show ?case
  proof (cases "x = y")
    case True
    with move_assign have "objs(x \<mapsto> this') = objs" "cs = []"
      by (auto simp: udp_move_assign_def)
    with move_assign True show ?thesis
      by simp
  next
    case False
    then have eq: "cs = udp_destroy this" "this' = other" "other' = - 1"
      using move_assign(3) by (auto simp: udp_move_assign_def udp_destroy_def)
    obtain fs where fs: "open_fds [] calls = Some fs" "owned_by_one objs fs"
      using move_assign(4) by (auto simp: sock_inv_def split: option.splits)
    obtain fs' where fs': "open_fds fs (udp_destroy this) = Some fs'" "owned_by_one (objs(x := Some (- 1))) fs'"
      using udp_destroy_owned [OF fs(2) move_assign(1), of "Some (- 1)"] by auto
    have "owned_by_one (objs(x := Some (- 1), x \<mapsto> other, y \<mapsto> - 1)) fs'"
      using False move_assign(2) by (intro owned_handed_over [OF fs'(2)]) (simp_all add: owns_def)
    with fs(1) fs'(1) eq False show ?thesis
      by (simp add: sock_inv_def open_fds_append)
  qed
next
  case (destroy objs x s calls)
  then show ?case
    using udp_destroy_owned [of objs _ x s None] by (fastforce simp: sock_inv_def open_fds_append split: option.splits)
qed

lemma sock_runs_inv: "sock_step\<^sup>*\<^sup>* st st' \<Longrightarrow> sock_inv st \<Longrightarrow> sock_inv st'"
  by (induction rule: rtranclp_induct) (auto intro: sock_step_inv)


subsection \<open>Property\<close>

text \<open>
  C34. Descriptors are owned: whatever sequence of constructions, binds (failing ones included), moves, move
  assignments, self-assignment included, and destructions a program performs, no descriptor is closed that is not
  open, the open ones are exactly those of the live objects, no two objects share one, and when the last object
  is gone nothing is open.
\<close>

theorem socket_descriptors_owned:
  assumes "sock_step\<^sup>*\<^sup>* (Map.empty, []) (objs, calls)"
  shows "\<exists>fs. open_fds [] calls = Some fs \<and> owned_by_one objs fs \<and> (objs = Map.empty \<longrightarrow> fs = [])"
proof -
  have "sock_inv (Map.empty, [])"
    by (simp add: sock_inv_def owned_by_one_def owns_def)
  with sock_runs_inv [OF assms] obtain fs where fs: "open_fds [] calls = Some fs" "owned_by_one objs fs"
    by (auto simp: sock_inv_def split: option.splits)
  moreover have "fs = []" if "objs = Map.empty"
    using owned_by_oneD(2) [OF fs(2)] that by (cases fs) (force simp: owns_def)+
  ultimately show ?thesis
    by blast
qed

text \<open>Two sockets; the first is assigned over the second, whose descriptor is closed; then both are destroyed.\<close>

theorem socket_descriptors_owned_witness:
  "\<exists>fs. open_fds [] [Opened 3, Opened 4, Closed 4, Closed 3] = Some fs \<and> fs = []"
proof -
  let ?o1 = "[0 \<mapsto> 3] :: objects" and ?c1 = "[Opened 3]"
  let ?o2 = "?o1(1 \<mapsto> 4)" and ?c2 = "?c1 @ [Opened 4]"
  let ?o3 = "?o2(1 \<mapsto> 3, 0 \<mapsto> - 1)" and ?c3 = "?c2 @ [Closed 4]"
  let ?o4 = "?o3(1 := None)" and ?c4 = "?c3 @ udp_destroy 3"
  have 1: "sock_step (Map.empty, []) (?o1, ?c1)"
    using sock_step.construct [of Map.empty 0 3 "[]" "[Opened 3]" 3] by (simp add: fresh_fd_def udp_construct_def)
  have 2: "sock_step (?o1, ?c1) (?o2, ?c2)"
    by (rule sock_step.construct [where fd = 4]) (simp_all add: fresh_fd_def udp_construct_def)
  have 3: "sock_step (?o2, ?c2) (?o3, ?c3)"
    using sock_step.move_assign [of ?o2 1 4 0 3 "[Closed 4]" 3 "- 1" ?c2] by (simp add: udp_move_assign_def)
  have 4: "sock_step (?o3, ?c3) (?o4, ?c4)"
    by (rule sock_step.destroy) simp
  have 5: "sock_step (?o4, ?c4) (?o4(0 := None), ?c4 @ udp_destroy (- 1))"
    by (rule sock_step.destroy) simp
  note run = rtranclp.rtrancl_refl [THEN rtranclp.rtrancl_into_rtrancl, THEN rtranclp.rtrancl_into_rtrancl,
      THEN rtranclp.rtrancl_into_rtrancl, THEN rtranclp.rtrancl_into_rtrancl, THEN rtranclp.rtrancl_into_rtrancl]
  have "sock_step\<^sup>*\<^sup>* (Map.empty, []) (?o4(0 := None), ?c4 @ udp_destroy (- 1))"
    by (rule run [where r = sock_step, OF 1 2 3 4 5])
  from socket_descriptors_owned [OF this] show ?thesis
    by (simp add: udp_destroy_def)
qed

end
