(* ===== verification/SpscQueue.thy ===== *)
theory SpscQueue
  imports HftPrelude
begin

text \<open>
  The single-producer single-consumer ring buffer of \<open>include/hft/spsc_queue.hpp\<close>.

  \<open>spsc\<close> holds the object's fields: the two published positions, the two private
  snapshots of the other side's position, and the slots; \<open>Capacity\<close> is the length of
  \<open>sq_buf\<close>. Positions are \<open>u64\<close> (\<open>std::size_t\<close> on the 64-bit targets) and wrap.

  Two models share the state:
  \<^item> \<open>spsc_push\<close> and \<open>spsc_pop\<close> are the member functions run without interference; they
    refine a bounded FIFO list (\<open>spsc_contents\<close>), which is the interface \<open>bounded_fifo\<close> the
    pipeline stages use;
  \<^item> \<open>spsc_step\<close> interleaves a producer and a consumer thread at the granularity of their
    accesses to shared memory. An acquire load of the other side's position may return any
    value published since the thread's last load, not only the newest one; the slots
    themselves are plain memory, and the absence of a data race on them is a theorem.
\<close>

record 'a spsc =
  sq_producer_pos :: u64
  sq_cached_consumer_pos :: u64
  sq_consumer_pos :: u64
  sq_cached_producer_pos :: u64
  sq_buf :: "'a list"

definition spsc_init :: "nat \<Rightarrow> 'a \<Rightarrow> 'a spsc" where
  "spsc_init capacity dflt =
     \<lparr>sq_producer_pos = 0, sq_cached_consumer_pos = 0, sq_consumer_pos = 0,
      sq_cached_producer_pos = 0, sq_buf = replicate capacity dflt\<rparr>"

definition sq_capacity :: "'a spsc \<Rightarrow> u64" where
  "sq_capacity q = of_nat (length (sq_buf q))"

definition sq_mask :: "'a spsc \<Rightarrow> u64" where
  "sq_mask q = sq_capacity q - 1"

text \<open>The slot of a position: \<open>pos & kMask\<close>.\<close>

definition sq_slot :: "'a spsc \<Rightarrow> u64 \<Rightarrow> nat" where
  "sq_slot q pos = unat (pos AND sq_mask q)"

text \<open>The static assertions: capacity a power of two, at least 2 (and a \<open>std::size_t\<close>).\<close>

definition capacity_ok :: "nat \<Rightarrow> bool" where
  "capacity_ok n \<longleftrightarrow> 2 \<le> n \<and> n AND (n - 1) = 0 \<and> n < 2 ^ 64"


subsection \<open>The member functions\<close>

definition sq_write :: "'a spsc \<Rightarrow> 'a \<Rightarrow> 'a spsc" where
  "sq_write q x = q\<lparr>sq_buf := (sq_buf q)[sq_slot q (sq_producer_pos q) := x]\<rparr>"

definition sq_publish_push :: "'a spsc \<Rightarrow> 'a spsc" where
  "sq_publish_push q = q\<lparr>sq_producer_pos := sq_producer_pos q + 1\<rparr>"

definition sq_looks_full :: "'a spsc \<Rightarrow> bool" where
  "sq_looks_full q \<longleftrightarrow> sq_capacity q \<le> sq_producer_pos q - sq_cached_consumer_pos q"

definition spsc_push :: "'a spsc \<Rightarrow> 'a \<Rightarrow> bool \<times> 'a spsc" where
  "spsc_push q x =
     (if sq_looks_full q
      then (let q1 = q\<lparr>sq_cached_consumer_pos := sq_consumer_pos q\<rparr>
            in if sq_looks_full q1 then (False, q1)
               else (True, sq_publish_push (sq_write q1 x)))
      else (True, sq_publish_push (sq_write q x)))"

definition sq_looks_empty :: "'a spsc \<Rightarrow> bool" where
  "sq_looks_empty q \<longleftrightarrow> sq_consumer_pos q = sq_cached_producer_pos q"

definition sq_read :: "'a spsc \<Rightarrow> 'a" where
  "sq_read q = sq_buf q ! sq_slot q (sq_consumer_pos q)"

definition sq_publish_pop :: "'a spsc \<Rightarrow> 'a spsc" where
  "sq_publish_pop q = q\<lparr>sq_consumer_pos := sq_consumer_pos q + 1\<rparr>"

definition spsc_pop :: "'a spsc \<Rightarrow> 'a option \<times> 'a spsc" where
  "spsc_pop q =
     (if sq_looks_empty q
      then (let q1 = q\<lparr>sq_cached_producer_pos := sq_producer_pos q\<rparr>
            in if sq_looks_empty q1 then (None, q1)
               else (Some (sq_read q1), sq_publish_pop q1))
      else (Some (sq_read q), sq_publish_pop q))"

definition size_approx :: "'a spsc \<Rightarrow> u64" where
  "size_approx q = sq_producer_pos q - sq_consumer_pos q"

definition empty_approx :: "'a spsc \<Rightarrow> bool" where
  "empty_approx q \<longleftrightarrow> size_approx q = 0"


subsection \<open>Positions as numbers\<close>

text \<open>
  Positions are residues modulo \<open>2 ^ 64\<close> of the numbers of pushes and pops. As long as the
  two numbers differ by less than \<open>2 ^ 64\<close> the difference of the words is the difference of
  the numbers, and as the capacity is a power of two, masking a position gives the number
  modulo the capacity, wrap-around included.
\<close>

lemma unat_of_nat_diff: "b \<le> a \<Longrightarrow> a - b < 2 ^ 64 \<Longrightarrow> unat (of_nat a - of_nat b :: u64) = a - b"
  by (simp add: of_nat_diff [symmetric] unsigned_of_nat take_bit_nat_eq_self del: of_nat_diff)

lemma of_nat_eq_u64: "b \<le> a \<Longrightarrow> a - b < 2 ^ 64 \<Longrightarrow> (of_nat a :: u64) = of_nat b \<longleftrightarrow> a = b"
  using unat_of_nat_diff [of b a] by auto

lemma le_of_nat_diff:
  "b \<le> a \<Longrightarrow> a - b < 2 ^ 64 \<Longrightarrow> n < 2 ^ 64 \<Longrightarrow> (of_nat n :: u64) \<le> of_nat a - of_nat b \<longleftrightarrow> n \<le> a - b"
  by (simp add: word_le_nat_alt unat_of_nat_diff unsigned_of_nat take_bit_nat_eq_self)

text \<open>
  The invariant, with the numbers behind the words: \<open>np\<close> pushes and \<open>nc\<close> pops published, \<open>kc\<close>
  pops known to the producer, \<open>kp\<close> pushes known to the consumer. Each side's snapshot lags
  behind the truth in the direction that is safe for it.
\<close>

definition spsc_at :: "'a spsc \<Rightarrow> nat \<Rightarrow> nat \<Rightarrow> nat \<Rightarrow> nat \<Rightarrow> bool" where
  "spsc_at q np nc kp kc \<longleftrightarrow>
     capacity_ok (length (sq_buf q)) \<and>
     sq_producer_pos q = of_nat np \<and> sq_consumer_pos q = of_nat nc \<and>
     sq_cached_producer_pos q = of_nat kp \<and> sq_cached_consumer_pos q = of_nat kc \<and>
     kc \<le> nc \<and> nc \<le> kp \<and> kp \<le> np \<and> np \<le> kc + length (sq_buf q)"

definition spsc_inv :: "'a spsc \<Rightarrow> bool" where
  "spsc_inv q \<longleftrightarrow> (\<exists>np nc kp kc. spsc_at q np nc kp kc)"

definition spsc_contents :: "'a spsc \<Rightarrow> 'a list" where
  "spsc_contents q =
     map (\<lambda>i. sq_buf q ! sq_slot q (sq_consumer_pos q + of_nat i)) [0..<unat (size_approx q)]"

lemma capacity_lt: "capacity_ok n \<Longrightarrow> 0 < n \<and> n < 2 ^ 64"
  by (simp add: capacity_ok_def)

lemma and_pred_power: "0 < n \<Longrightarrow> n AND (n - 1) = 0 \<Longrightarrow> \<exists>k. n = 2 ^ k" for n :: nat
proof (induction n rule: less_induct)
  case (less n)
  show ?case
  proof (cases "even n")
    case True
    then obtain m where m: "n = 2 * m" by blast
    with less.prems have "0 < m" "odd (n - 1)" "(n - 1) div 2 = m - 1"
      by auto
    have "n AND (n - 1) = of_bool (odd n \<and> odd (n - 1)) + 2 * (n div 2 AND (n - 1) div 2)"
      by (rule and_rec)
    with less.prems(2) m \<open>(n - 1) div 2 = m - 1\<close> have "m AND (m - 1) = 0"
      by simp
    with less.IH [of m] m \<open>0 < m\<close> obtain k where "m = 2 ^ k"
      by auto
    with m show ?thesis
      by (auto intro: exI [of _ "Suc k"])
  next
    case False
    then obtain m where m: "n = 2 * m + 1"
      using oddE by blast
    then have "n - 1 = 2 * m" "n div 2 = m" "(n - 1) div 2 = m"
      by simp_all
    moreover have "n AND (n - 1) = of_bool (odd n \<and> odd (n - 1)) + 2 * (n div 2 AND (n - 1) div 2)"
      by (rule and_rec)
    ultimately have "m = 0"
      using less.prems(2) by simp
    with m show ?thesis
      by (auto intro: exI [of _ 0])
  qed
qed

lemma capacity_ok_power:
  assumes "capacity_ok n"
  obtains k where "k < 64" "n = 2 ^ k"
proof -
  from assms have "0 < n" "n AND (n - 1) = 0" "n < 2 ^ 64"
    by (simp_all add: capacity_ok_def)
  then obtain k where k: "n = 2 ^ k"
    using and_pred_power by blast
  with \<open>n < 2 ^ 64\<close> have "(2::nat) ^ k < 2 ^ 64"
    by simp
  then have "k < 64"
    by (simp only: power_strict_increasing_iff)
  then show thesis
    using k by (rule that)
qed

lemma sq_slot_of_nat:
  "capacity_ok (length (sq_buf q)) \<Longrightarrow> sq_slot q (of_nat n) = n mod length (sq_buf q)"
  by (erule capacity_ok_power)
    (simp add: sq_slot_def sq_mask_def sq_capacity_def unat_and_mask del: of_nat_power)

lemma looks_full_iff: "spsc_at q np nc kp kc \<Longrightarrow> sq_looks_full q \<longleftrightarrow> length (sq_buf q) \<le> np - kc"
  using capacity_lt [of "length (sq_buf q)"]
  by (auto simp: spsc_at_def sq_looks_full_def sq_capacity_def le_of_nat_diff)

lemma looks_empty_iff: "spsc_at q np nc kp kc \<Longrightarrow> sq_looks_empty q \<longleftrightarrow> nc = kp"
proof -
  assume A: "spsc_at q np nc kp kc"
  then have "nc \<le> kp" "kp - nc \<le> length (sq_buf q)" "length (sq_buf q) < 2 ^ 64"
    using capacity_lt [of "length (sq_buf q)"] by (auto simp: spsc_at_def)
  with of_nat_eq_u64 [of nc kp] A show ?thesis
    by (auto simp: spsc_at_def sq_looks_empty_def)
qed

lemma size_approx_at: "spsc_at q np nc kp kc \<Longrightarrow> unat (size_approx q) = np - nc"
  using capacity_lt [of "length (sq_buf q)"]
  by (auto simp: spsc_at_def size_approx_def unat_of_nat_diff)

lemma contents_at:
  assumes "spsc_at q np nc kp kc"
  shows "spsc_contents q = map (\<lambda>i. sq_buf q ! (i mod length (sq_buf q))) [nc..<np]"
proof -
  have "sq_slot q (sq_consumer_pos q + of_nat i) = (nc + i) mod length (sq_buf q)" for i
    using assms sq_slot_of_nat [of q "nc + i"] by (simp add: spsc_at_def)
  then have "spsc_contents q = map (\<lambda>i. sq_buf q ! ((nc + i) mod length (sq_buf q))) [0..<np - nc]"
    by (simp add: spsc_contents_def size_approx_at [OF assms])
  also have "\<dots> = map (\<lambda>i. sq_buf q ! (i mod length (sq_buf q))) [nc..<np]"
    using assms by (intro nth_equalityI) (auto simp: spsc_at_def)
  finally show ?thesis .
qed

text \<open>Distinct positions of a window no longer than the capacity use distinct slots.\<close>

lemma mod_window_inj: "i < j \<Longrightarrow> j < i + n \<Longrightarrow> i mod n \<noteq> j mod (n :: nat)"
proof
  assume "i < j" "j < i + n" "i mod n = j mod n"
  then have "n dvd j - i" "0 < j - i" "j - i < n"
    using mod_eq_dvd_iff_nat [of i j n] by auto
  then show False
    using nat_dvd_not_less by blast
qed

lemma reload_consumer_at:
  assumes "spsc_at q np nc kp kc" "kc \<le> j" "j \<le> nc"
  shows "spsc_at (q\<lparr>sq_cached_consumer_pos := of_nat j\<rparr>) np nc kp j"
  using assms by (simp add: spsc_at_def)

lemma reload_producer_at:
  assumes "spsc_at q np nc kp kc" "kp \<le> j" "j \<le> np"
  shows "spsc_at (q\<lparr>sq_cached_producer_pos := of_nat j\<rparr>) np nc j kc"
  using assms by (simp add: spsc_at_def)

lemma sq_write_at: "spsc_at q np nc kp kc \<Longrightarrow> spsc_at (sq_write q x) np nc kp kc"
  by (simp add: spsc_at_def sq_write_def)

lemma publish_push_at:
  assumes "spsc_at q np nc kp kc" "\<not> sq_looks_full q"
  shows "spsc_at (sq_publish_push q) (Suc np) nc kp kc"
  using assms(2) looks_full_iff [OF assms(1)] assms(1)
  by (auto simp: spsc_at_def sq_publish_push_def)

lemma publish_pop_at:
  assumes "spsc_at q np nc kp kc" "\<not> sq_looks_empty q"
  shows "spsc_at (sq_publish_pop q) np (Suc nc) kp kc"
  using assms(2) looks_empty_iff [OF assms(1)] assms(1)
  by (auto simp: spsc_at_def sq_publish_pop_def)

lemma write_contents_at:
  assumes "spsc_at q np nc kp kc" "\<not> sq_looks_full q"
  shows "spsc_contents (sq_publish_push (sq_write q x)) = spsc_contents q @ [x]"
proof -
  let ?n = "length (sq_buf q)"
  have full: "np - kc < ?n"
    using looks_full_iff [OF assms(1)] assms(2) by simp
  have at: "spsc_at (sq_publish_push (sq_write q x)) (Suc np) nc kp kc"
    using assms by (intro publish_push_at sq_write_at) (auto simp: sq_looks_full_def sq_write_def sq_capacity_def)
  have slot: "sq_slot q (sq_producer_pos q) = np mod ?n"
    using assms(1) sq_slot_of_nat [of q np] by (simp add: spsc_at_def)
  have "np mod ?n \<noteq> i mod ?n" if "nc \<le> i" "i < np" for i
    using that full assms(1) by (intro mod_window_inj [THEN not_sym]) (auto simp: spsc_at_def)
  moreover have "np mod ?n < ?n"
    by (rule mod_less_divisor) (use full in linarith)
  moreover have "nc \<le> np"
    using assms(1) by (simp add: spsc_at_def)
  ultimately show ?thesis
    unfolding contents_at [OF at] contents_at [OF assms(1)]
    by (auto simp: sq_publish_push_def sq_write_def slot)
qed

lemma read_contents_at:
  assumes "spsc_at q np nc kp kc" "\<not> sq_looks_empty q"
  shows "spsc_contents q = sq_read q # spsc_contents (sq_publish_pop q)"
proof -
  have lt: "nc < np"
    using looks_empty_iff [OF assms(1)] assms by (auto simp: spsc_at_def)
  have "sq_read q = sq_buf q ! (nc mod length (sq_buf q))"
    using assms(1) sq_slot_of_nat [of q nc] by (simp add: spsc_at_def sq_read_def)
  then show ?thesis
    unfolding contents_at [OF assms(1)] contents_at [OF publish_pop_at [OF assms]]
    using lt by (simp add: upt_conv_Cons sq_publish_pop_def)
qed


subsection \<open>The member functions refine a bounded list\<close>

lemma spsc_at_init: "capacity_ok n \<Longrightarrow> spsc_at (spsc_init n d) 0 0 0 0"
  by (simp add: spsc_at_def spsc_init_def)

lemma contents_init [simp]: "spsc_contents (spsc_init n d) = []"
  by (simp add: spsc_contents_def spsc_init_def size_approx_def)

lemma reload_full_contents:
  "spsc_contents (q\<lparr>sq_cached_consumer_pos := c\<rparr>) = spsc_contents q"
  "spsc_contents (q\<lparr>sq_cached_producer_pos := c\<rparr>) = spsc_contents q"
  by (simp_all add: spsc_contents_def size_approx_def sq_slot_def sq_mask_def sq_capacity_def)

lemma sq_buf_length [simp]:
  "length (sq_buf (sq_write q x)) = length (sq_buf q)"
  "sq_buf (sq_publish_push q) = sq_buf q"
  "sq_buf (sq_publish_pop q) = sq_buf q"
  by (simp_all add: sq_write_def sq_publish_push_def sq_publish_pop_def)

lemma looks_full_write [simp]: "sq_looks_full (sq_write q x) = sq_looks_full q"
  by (simp add: sq_looks_full_def sq_write_def sq_capacity_def)

lemma length_contents_at: "spsc_at q np nc kp kc \<Longrightarrow> length (spsc_contents q) = np - nc"
  by (simp add: contents_at)

lemma spsc_push_spec:
  assumes "spsc_at q np nc kp kc"
  shows "(length (spsc_contents q) < length (sq_buf q) \<and>
            (\<exists>q'. spsc_push q x = (True, q') \<and> spsc_contents q' = spsc_contents q @ [x] \<and>
               length (sq_buf q') = length (sq_buf q) \<and> (\<exists>kc'. spsc_at q' (Suc np) nc kp kc'))) \<or>
         (length (spsc_contents q) = length (sq_buf q) \<and>
            (\<exists>q'. spsc_push q x = (False, q') \<and> spsc_contents q' = spsc_contents q \<and>
               sq_buf q' = sq_buf q \<and> (\<exists>kc'. spsc_at q' np nc kp kc')))"
proof -
  let ?q1 = "q\<lparr>sq_cached_consumer_pos := sq_consumer_pos q\<rparr>"
  have q1: "spsc_at ?q1 np nc kp nc"
    using reload_consumer_at [OF assms, of nc] assms by (simp add: spsc_at_def)
  have ok: "\<not> sq_looks_full r \<Longrightarrow> spsc_at r np nc kp k \<Longrightarrow>
      spsc_at (sq_publish_push (sq_write r x)) (Suc np) nc kp k" for r k
    by (rule publish_push_at) (simp_all add: sq_write_at)
  show ?thesis
  proof (cases "sq_looks_full q")
    case False
    then have "np - nc < length (sq_buf q)"
      using looks_full_iff [OF assms] assms by (auto simp: spsc_at_def)
    with False show ?thesis
      using ok [OF False assms] write_contents_at [OF assms False]
      by (auto simp: spsc_push_def length_contents_at [OF assms])
  next
    case True
    show ?thesis
    proof (cases "sq_looks_full ?q1")
      case False
      then show ?thesis
        using True looks_full_iff [OF q1] ok [OF False q1] write_contents_at [OF q1 False]
        by (auto simp: spsc_push_def Let_def length_contents_at [OF assms] reload_full_contents)
    next
      case full: True
      have "np - nc = length (sq_buf q)"
        using looks_full_iff [OF q1] full assms by (auto simp: spsc_at_def)
      then show ?thesis
        using True full q1
        by (auto simp: spsc_push_def Let_def length_contents_at [OF assms] reload_full_contents)
    qed
  qed
qed

lemma spsc_pop_spec:
  assumes "spsc_at q np nc kp kc"
  shows "case spsc_contents q of
           [] \<Rightarrow> (\<exists>q'. spsc_pop q = (None, q') \<and> spsc_contents q' = [] \<and> sq_buf q' = sq_buf q \<and>
                  (\<exists>kp'. spsc_at q' np nc kp' kc))
         | x # xs \<Rightarrow> (\<exists>q'. spsc_pop q = (Some x, q') \<and> spsc_contents q' = xs \<and> sq_buf q' = sq_buf q \<and>
                  (\<exists>kp'. spsc_at q' np (Suc nc) kp' kc))"
proof -
  let ?q1 = "q\<lparr>sq_cached_producer_pos := sq_producer_pos q\<rparr>"
  have q1: "spsc_at ?q1 np nc np kc"
    using reload_producer_at [OF assms, of np] assms by (simp add: spsc_at_def)
  show ?thesis
  proof (cases "sq_looks_empty q")
    case False
    then show ?thesis
      using read_contents_at [OF assms False] publish_pop_at [OF assms False]
      by (auto simp: spsc_pop_def)
  next
    case True
    show ?thesis
    proof (cases "sq_looks_empty ?q1")
      case False
      then show ?thesis
        using True read_contents_at [OF q1 False] publish_pop_at [OF q1 False]
        by (auto simp: spsc_pop_def Let_def reload_full_contents)
    next
      case empty: True
      then have "spsc_contents q = []"
        using looks_empty_iff [OF q1] by (simp add: contents_at [OF assms])
      then show ?thesis
        using True empty q1 by (auto simp: spsc_pop_def Let_def reload_full_contents)
    qed
  qed
qed


subsection \<open>The interface of a stage's queue\<close>

text \<open>
  The pipeline stages are templates over their queue types. \<open>bounded_fifo\<close> is what they
  rely on: a push is accepted exactly when there is room and then appends, a refused push
  changes nothing they can see, a pop takes the oldest element.
\<close>

locale bounded_fifo =
  fixes push :: "'q \<Rightarrow> 'a \<Rightarrow> bool \<times> 'q"
    and pop :: "'q \<Rightarrow> 'a option \<times> 'q"
    and contents :: "'q \<Rightarrow> 'a list"
    and invar :: "'q \<Rightarrow> bool"
    and cap :: "'q \<Rightarrow> nat"
  assumes push_accepts: "invar q \<Longrightarrow> fst (push q x) \<longleftrightarrow> length (contents q) < cap q"
    and push_contents: "invar q \<Longrightarrow>
          contents (snd (push q x)) = (if fst (push q x) then contents q @ [x] else contents q)"
    and push_invar: "invar q \<Longrightarrow> invar (snd (push q x))"
    and push_cap: "invar q \<Longrightarrow> cap (snd (push q x)) = cap q"
    and pop_result: "invar q \<Longrightarrow> fst (pop q) = (case contents q of [] \<Rightarrow> None | x # _ \<Rightarrow> Some x)"
    and pop_contents: "invar q \<Longrightarrow> contents (snd (pop q)) = tl (contents q)"
    and pop_invar: "invar q \<Longrightarrow> invar (snd (pop q))"
    and pop_cap: "invar q \<Longrightarrow> cap (snd (pop q)) = cap q"
    and bounded: "invar q \<Longrightarrow> length (contents q) \<le> cap q"

definition spsc_cap :: "'a spsc \<Rightarrow> nat" where
  "spsc_cap q = length (sq_buf q)"

lemma spsc_invI: "spsc_at q np nc kp kc \<Longrightarrow> spsc_inv q"
  by (auto simp: spsc_inv_def)

lemma spsc_inv_init [simp, intro]: "capacity_ok n \<Longrightarrow> spsc_inv (spsc_init n d)"
  by (rule spsc_invI [OF spsc_at_init])

lemma spsc_cap_init [simp]: "spsc_cap (spsc_init n d) = n"
  by (simp add: spsc_cap_def spsc_init_def)

interpretation spsc_fifo: bounded_fifo spsc_push spsc_pop spsc_contents spsc_inv spsc_cap
proof unfold_locales
  fix q :: "'a spsc" and x :: 'a
  assume "spsc_inv q"
  then obtain np nc kp kc where A: "spsc_at q np nc kp kc"
    unfolding spsc_inv_def by blast
  show "fst (spsc_push q x) \<longleftrightarrow> length (spsc_contents q) < spsc_cap q"
    using spsc_push_spec [OF A, of x] by (auto simp: spsc_cap_def)
  show "spsc_contents (snd (spsc_push q x))
      = (if fst (spsc_push q x) then spsc_contents q @ [x] else spsc_contents q)"
    using spsc_push_spec [OF A, of x] by auto
  show "spsc_inv (snd (spsc_push q x))"
    using spsc_push_spec [OF A, of x] by (auto intro: spsc_invI)
  show "spsc_cap (snd (spsc_push q x)) = spsc_cap q"
    using spsc_push_spec [OF A, of x] by (auto simp: spsc_cap_def)
  show "fst (spsc_pop q) = (case spsc_contents q of [] \<Rightarrow> None | x # _ \<Rightarrow> Some x)"
    using spsc_pop_spec [OF A] by (auto split: list.splits)
  show "spsc_contents (snd (spsc_pop q)) = tl (spsc_contents q)"
    using spsc_pop_spec [OF A] by (auto split: list.splits)
  show "spsc_inv (snd (spsc_pop q))"
    using spsc_pop_spec [OF A] by (auto split: list.splits intro: spsc_invI)
  show "spsc_cap (snd (spsc_pop q)) = spsc_cap q"
    using spsc_pop_spec [OF A] by (auto simp: spsc_cap_def split: list.splits)
  show "length (spsc_contents q) \<le> spsc_cap q"
    using spsc_push_spec [OF A, of x] by (auto simp: spsc_cap_def)
qed

text \<open>
  The loops the stages run over a queue. \<open>push_attempts\<close> is a bounded spin on \<open>push\<close>;
  \<open>push_wait\<close> is an unbounded one, where \<^const>\<open>None\<close> means that it keeps spinning;
  \<open>drain_into\<close> pops at most \<open>n\<close> elements and hands each to \<open>f\<close>.
\<close>

primrec push_attempts :: "('q \<Rightarrow> 'a \<Rightarrow> bool \<times> 'q) \<Rightarrow> nat \<Rightarrow> 'q \<Rightarrow> 'a \<Rightarrow> bool \<times> 'q" where
  "push_attempts push 0 q x = (False, q)"
| "push_attempts push (Suc n) q x =
     (case push q x of (ok, q') \<Rightarrow> if ok then (True, q') else push_attempts push n q' x)"

definition push_wait :: "('q \<Rightarrow> 'a \<Rightarrow> bool \<times> 'q) \<Rightarrow> 'q \<Rightarrow> 'a \<Rightarrow> 'q option" where
  "push_wait push q x = (case push q x of (ok, q') \<Rightarrow> if ok then Some q' else None)"

primrec drain_into ::
    "('q \<Rightarrow> 'a option \<times> 'q) \<Rightarrow> ('s \<Rightarrow> 'a \<Rightarrow> 's) \<Rightarrow> nat \<Rightarrow> 's \<Rightarrow> 'q \<Rightarrow> 's \<times> 'q" where
  "drain_into pop f 0 s q = (s, q)"
| "drain_into pop f (Suc n) s q =
     (case pop q of
        (None, q') \<Rightarrow> (s, q')
      | (Some x, q') \<Rightarrow> drain_into pop f n (f s x) q')"

context bounded_fifo
begin

lemma push_cases:
  assumes "invar q"
  obtains (room) q' where "length (contents q) < cap q" "push q x = (True, q')"
      "contents q' = contents q @ [x]" "invar q'" "cap q' = cap q"
  | (full) q' where "length (contents q) = cap q" "push q x = (False, q')"
      "contents q' = contents q" "invar q'" "cap q' = cap q"
proof (cases "push q x")
  case (Pair ok q')
  then show thesis
    using push_accepts [OF assms, of x] push_contents [OF assms, of x] push_invar [OF assms, of x]
      push_cap [OF assms, of x] bounded [OF assms] that by (cases ok) auto
qed

lemma pop_cases:
  assumes "invar q"
  obtains (item) x q' where "contents q = x # contents q'" "pop q = (Some x, q')" "invar q'" "cap q' = cap q"
  | (empty) q' where "contents q = []" "pop q = (None, q')" "contents q' = []" "invar q'" "cap q' = cap q"
proof (cases "pop q")
  case (Pair r q')
  then show thesis
    using pop_result [OF assms] pop_contents [OF assms] pop_invar [OF assms] pop_cap [OF assms] that
    by (cases "contents q") auto
qed

lemma push_attempts_spec:
  assumes "invar q" "0 < n"
  obtains (room) q' where "length (contents q) < cap q" "push_attempts push n q x = (True, q')"
      "contents q' = contents q @ [x]" "invar q'" "cap q' = cap q"
  | (full) q' where "length (contents q) = cap q" "push_attempts push n q x = (False, q')"
      "contents q' = contents q" "invar q'" "cap q' = cap q"
proof -
  have "(length (contents q) < cap q \<and> (\<exists>q'. push_attempts push n q x = (True, q') \<and>
           contents q' = contents q @ [x] \<and> invar q' \<and> cap q' = cap q)) \<or>
        (length (contents q) = cap q \<and> (\<exists>q'. push_attempts push n q x = (False, q') \<and>
           contents q' = contents q \<and> invar q' \<and> cap q' = cap q))"
    using assms
  proof (induction n arbitrary: q)
    case 0
    then show ?case by simp
  next
    case (Suc n)
    from Suc.prems(1) show ?case
    proof (cases rule: push_cases [of q x])
      case (room q')
      then show ?thesis by simp
    next
      case (full q')
      then show ?thesis
        using Suc.IH [of q'] by (cases "n = 0") auto
    qed
  qed
  then show thesis
    using that by blast
qed

lemma push_wait_spec:
  assumes "invar q" "length (contents q) < cap q"
  obtains q' where "push_wait push q x = Some q'" "contents q' = contents q @ [x]" "invar q'" "cap q' = cap q"
  using assms(1)
proof (cases rule: push_cases [of q x])
  case (room q')
  then show thesis using that by (simp add: push_wait_def)
qed (use assms(2) in simp)

lemma push_wait_SomeD:
  assumes "push_wait push q x = Some q'" "invar q"
  shows "length (contents q) < cap q \<and> contents q' = contents q @ [x] \<and> invar q' \<and> cap q' = cap q"
  using assms(2,1) by (cases rule: push_cases [of q x]) (auto simp: push_wait_def)

lemma drain_into_spec:
  assumes "invar q"
  shows "\<exists>q'. drain_into pop f n s q = (fold (\<lambda>x s. f s x) (take n (contents q)) s, q') \<and>
           contents q' = drop n (contents q) \<and> invar q' \<and> cap q' = cap q"
  using assms
proof (induction n arbitrary: s q)
  case 0
  then show ?case by simp
next
  case (Suc n)
  from Suc.prems show ?case
  proof (cases rule: pop_cases)
    case (item x q')
    then show ?thesis
      using Suc.IH [of q' "f s x"] by auto
  next
    case (empty q')
    then show ?thesis by simp
  qed
qed

end


subsection \<open>Two threads\<close>

text \<open>
  Where each thread stands between its accesses to shared memory. \<open>PReload\<close>: the producer's
  snapshot says full, it is about to load \<open>consumer_pos_\<close>; \<open>PWrite\<close>: about to write the slot;
  \<open>PPublish\<close>: about to store \<open>producer_pos_\<close>. The consumer likewise; \<open>CPublish y\<close> has moved
  \<open>y\<close> out of the slot.
\<close>

datatype 'a ppc = PIdle | PReload 'a | PWrite 'a | PPublish 'a
datatype 'a cpc = CIdle | CReload | CRead | CPublish 'a

record 'a conc =
  cq :: "'a spsc"
  ppc :: "'a ppc"
  cpc :: "'a cpc"
  pushed :: "'a list"
  popped :: "'a list"

definition conc_init :: "nat \<Rightarrow> 'a \<Rightarrow> 'a conc" where
  "conc_init capacity dflt =
     \<lparr>cq = spsc_init capacity dflt, ppc = PIdle, cpc = CIdle, pushed = [], popped = []\<rparr>"

text \<open>The values an acquire load of the other side's position may return.\<close>

definition visible_consumer_pos :: "'a spsc \<Rightarrow> u64 \<Rightarrow> bool" where
  "visible_consumer_pos q v \<longleftrightarrow>
     unat (v - sq_cached_consumer_pos q) \<le> unat (sq_consumer_pos q - sq_cached_consumer_pos q)"

definition visible_producer_pos :: "'a spsc \<Rightarrow> u64 \<Rightarrow> bool" where
  "visible_producer_pos q v \<longleftrightarrow>
     unat (v - sq_cached_producer_pos q) \<le> unat (sq_producer_pos q - sq_cached_producer_pos q)"

inductive spsc_step :: "'a conc \<Rightarrow> 'a conc \<Rightarrow> bool" where
  push_start: "ppc s = PIdle \<Longrightarrow>
     spsc_step s (s\<lparr>ppc := (if sq_looks_full (cq s) then PReload x else PWrite x)\<rparr>)"
| push_reload: "ppc s = PReload x \<Longrightarrow> visible_consumer_pos (cq s) v \<Longrightarrow>
     q' = (cq s)\<lparr>sq_cached_consumer_pos := v\<rparr> \<Longrightarrow>
     spsc_step s (s\<lparr>cq := q', ppc := (if sq_looks_full q' then PIdle else PWrite x)\<rparr>)"
| push_write: "ppc s = PWrite x \<Longrightarrow>
     spsc_step s (s\<lparr>cq := sq_write (cq s) x, ppc := PPublish x\<rparr>)"
| push_publish: "ppc s = PPublish x \<Longrightarrow>
     spsc_step s (s\<lparr>cq := sq_publish_push (cq s), ppc := PIdle, pushed := pushed s @ [x]\<rparr>)"
| pop_start: "cpc s = CIdle \<Longrightarrow>
     spsc_step s (s\<lparr>cpc := (if sq_looks_empty (cq s) then CReload else CRead)\<rparr>)"
| pop_reload: "cpc s = CReload \<Longrightarrow> visible_producer_pos (cq s) v \<Longrightarrow>
     q' = (cq s)\<lparr>sq_cached_producer_pos := v\<rparr> \<Longrightarrow>
     spsc_step s (s\<lparr>cq := q', cpc := (if sq_looks_empty q' then CIdle else CRead)\<rparr>)"
| pop_read: "cpc s = CRead \<Longrightarrow>
     spsc_step s (s\<lparr>cpc := CPublish (sq_read (cq s))\<rparr>)"
| pop_publish: "cpc s = CPublish y \<Longrightarrow>
     spsc_step s (s\<lparr>cq := sq_publish_pop (cq s), cpc := CIdle, popped := popped s @ [y]\<rparr>)"

inductive_cases spsc_stepE: "spsc_step s t"

inductive spsc_reachable :: "nat \<Rightarrow> 'a \<Rightarrow> 'a conc \<Rightarrow> bool" for n d where
  reach_init: "spsc_reachable n d (conc_init n d)"
| reach_step: "spsc_reachable n d s \<Longrightarrow> spsc_step s t \<Longrightarrow> spsc_reachable n d t"

definition producer_ok :: "'a conc \<Rightarrow> bool" where
  "producer_ok s \<longleftrightarrow>
     (case ppc s of
        PWrite x \<Rightarrow> \<not> sq_looks_full (cq s)
      | PPublish x \<Rightarrow> \<not> sq_looks_full (cq s) \<and>
          sq_buf (cq s) ! sq_slot (cq s) (sq_producer_pos (cq s)) = x
      | _ \<Rightarrow> True)"

definition consumer_ok :: "'a conc \<Rightarrow> bool" where
  "consumer_ok s \<longleftrightarrow>
     (case cpc s of
        CRead \<Rightarrow> \<not> sq_looks_empty (cq s)
      | CPublish y \<Rightarrow> \<not> sq_looks_empty (cq s) \<and> sq_read (cq s) = y
      | _ \<Rightarrow> True)"

definition spsc_counts :: "'a spsc \<Rightarrow> nat \<Rightarrow> nat \<Rightarrow> bool" where
  "spsc_counts q np nc \<longleftrightarrow> (\<exists>kp kc. spsc_at q np nc kp kc)"

definition conc_inv :: "nat \<Rightarrow> 'a conc \<Rightarrow> bool" where
  "conc_inv n s \<longleftrightarrow>
     length (sq_buf (cq s)) = n \<and>
     spsc_counts (cq s) (length (pushed s)) (length (popped s)) \<and>
     popped s @ spsc_contents (cq s) = pushed s \<and> producer_ok s \<and> consumer_ok s"

lemma spsc_countsI: "spsc_at q np nc kp kc \<Longrightarrow> spsc_counts q np nc"
  by (auto simp: spsc_counts_def)

lemma conc_inv_at:
  assumes "conc_inv n s"
  obtains kp kc where "spsc_at (cq s) (length (pushed s)) (length (popped s)) kp kc"
  using assms by (auto simp: conc_inv_def spsc_counts_def)

lemma slot_neq_at:
  assumes "spsc_at q np nc kp kc" "\<not> sq_looks_full q" "nc \<le> i" "i < np"
  shows "np mod length (sq_buf q) \<noteq> i mod length (sq_buf q)"
  using assms looks_full_iff [OF assms(1)]
  by (intro mod_window_inj [THEN not_sym]) (auto simp: spsc_at_def)

lemma write_slot_at:
  assumes "spsc_at q np nc kp kc"
  shows "sq_slot q (sq_producer_pos q) = np mod length (sq_buf q)"
    and "sq_slot q (sq_consumer_pos q) = nc mod length (sq_buf q)"
    and "np mod length (sq_buf q) < length (sq_buf q)"
proof -
  have ok: "capacity_ok (length (sq_buf q))" and pos: "sq_producer_pos q = of_nat np" "sq_consumer_pos q = of_nat nc"
    using assms by (simp_all add: spsc_at_def)
  then show "sq_slot q (sq_producer_pos q) = np mod length (sq_buf q)"
    "sq_slot q (sq_consumer_pos q) = nc mod length (sq_buf q)"
    by (simp_all add: sq_slot_of_nat)
  show "np mod length (sq_buf q) < length (sq_buf q)"
    by (rule mod_less_divisor) (use capacity_lt [OF ok] in simp)
qed

lemma write_unpublished_at:
  assumes "spsc_at q np nc kp kc" "\<not> sq_looks_full q"
  shows "spsc_contents (sq_write q x) = spsc_contents q"
    and "\<not> sq_looks_empty q \<Longrightarrow> sq_read (sq_write q x) = sq_read q"
proof -
  note slots = write_slot_at [OF assms(1)]
  show "spsc_contents (sq_write q x) = spsc_contents q"
    using slot_neq_at [OF assms]
    unfolding contents_at [OF sq_write_at [OF assms(1)]] contents_at [OF assms(1)]
    by (auto simp: sq_write_def slots)
  assume "\<not> sq_looks_empty q"
  then have "nc < np"
    using looks_empty_iff [OF assms(1)] assms(1) by (auto simp: spsc_at_def)
  then show "sq_read (sq_write q x) = sq_read q"
    using slot_neq_at [OF assms, of nc] slots
    by (simp add: sq_read_def sq_write_def sq_slot_def sq_mask_def sq_capacity_def)
qed

lemma publish_push_contents_at:
  assumes "spsc_at q np nc kp kc" "\<not> sq_looks_full q"
  shows "spsc_contents (sq_publish_push q) = spsc_contents q @ [sq_buf q ! sq_slot q (sq_producer_pos q)]"
  using assms(1) unfolding contents_at [OF publish_push_at [OF assms]] contents_at [OF assms(1)]
  by (simp add: spsc_at_def sq_slot_of_nat)

text \<open>A stale position is a number between the thread's snapshot and the truth.\<close>

lemma visible_consumer_at:
  assumes "spsc_at q np nc kp kc" "visible_consumer_pos q v"
  obtains j where "kc \<le> j" "j \<le> nc" "v = of_nat j"
proof -
  let ?d = "unat (v - of_nat kc)"
  have "?d \<le> nc - kc"
    using assms capacity_lt [of "length (sq_buf q)"]
    by (auto simp: spsc_at_def visible_consumer_pos_def unat_of_nat_diff)
  moreover have "v = of_nat (kc + ?d)"
    by simp
  moreover have "kc \<le> nc"
    using assms(1) by (simp add: spsc_at_def)
  ultimately show thesis
    using that [of "kc + ?d"] by linarith
qed

lemma visible_producer_at:
  assumes "spsc_at q np nc kp kc" "visible_producer_pos q v"
  obtains j where "kp \<le> j" "j \<le> np" "v = of_nat j"
proof -
  let ?d = "unat (v - of_nat kp)"
  have "np - kp < 2 ^ 64" "kp \<le> np"
    using assms(1) capacity_lt [of "length (sq_buf q)"] by (auto simp: spsc_at_def)
  then have "?d \<le> np - kp"
    using assms by (auto simp: spsc_at_def visible_producer_pos_def unat_of_nat_diff)
  moreover have "v = of_nat (kp + ?d)"
    by simp
  ultimately show thesis
    using that [of "kp + ?d"] \<open>kp \<le> np\<close> by linarith
qed

lemmas conc_unfold = conc_inv_def producer_ok_def consumer_ok_def

lemma conc_inv_init: "capacity_ok n \<Longrightarrow> conc_inv n (conc_init n d)"
  using spsc_countsI [OF spsc_at_init [of n d]]
  by (simp add: conc_unfold conc_init_def) (simp add: spsc_init_def)

lemma sq_frame [frame]:
  "sq_looks_empty (q\<lparr>sq_cached_consumer_pos := v\<rparr>) = sq_looks_empty q"
  "sq_looks_full (q\<lparr>sq_cached_producer_pos := v\<rparr>) = sq_looks_full q"
  "sq_read (q\<lparr>sq_cached_consumer_pos := v\<rparr>) = sq_read q"
  "sq_slot (q\<lparr>sq_cached_producer_pos := v\<rparr>) = sq_slot q"
  "sq_looks_empty (sq_write q x) = sq_looks_empty q"
  "sq_looks_empty (sq_publish_push q) = sq_looks_empty q"
  "sq_looks_full (sq_publish_pop q) = sq_looks_full q"
  "sq_read (sq_publish_push q) = sq_read q"
  "sq_slot (sq_publish_pop q) = sq_slot q"
  "sq_producer_pos (sq_publish_pop q) = sq_producer_pos q"
  by (simp_all add: sq_looks_empty_def sq_looks_full_def sq_read_def sq_slot_def sq_mask_def
      sq_capacity_def sq_write_def sq_publish_push_def sq_publish_pop_def fun_eq_iff)

lemma producer_step_inv:
  assumes inv: "conc_inv n s" and pc: "ppc s = PWrite x"
  shows "conc_inv n (s\<lparr>cq := sq_write (cq s) x, ppc := PPublish x\<rparr>)"
proof -
  from inv obtain kp kc where at: "spsc_at (cq s) (length (pushed s)) (length (popped s)) kp kc"
    by (rule conc_inv_at)
  from inv pc have room: "\<not> sq_looks_full (cq s)"
    by (simp add: conc_unfold)
  have "sq_buf (sq_write (cq s) x) ! sq_slot (sq_write (cq s) x) (sq_producer_pos (sq_write (cq s) x)) = x"
    using write_slot_at [OF at]
    by (simp add: sq_write_def sq_slot_def sq_mask_def sq_capacity_def)
  moreover have "consumer_ok (s\<lparr>cq := sq_write (cq s) x, ppc := PPublish x\<rparr>)"
    using inv write_unpublished_at(2) [OF at room, of x]
    by (auto simp: conc_unfold frame split: cpc.splits)
  ultimately show ?thesis
    using inv spsc_countsI [OF sq_write_at [OF at]] write_unpublished_at(1) [OF at room] room
    by (auto simp: conc_inv_def producer_ok_def)
qed

lemma publish_step_inv:
  assumes inv: "conc_inv n s" and pc: "ppc s = PPublish x"
  shows "conc_inv n (s\<lparr>cq := sq_publish_push (cq s), ppc := PIdle, pushed := pushed s @ [x]\<rparr>)"
proof -
  from inv obtain kp kc where at: "spsc_at (cq s) (length (pushed s)) (length (popped s)) kp kc"
    by (rule conc_inv_at)
  from inv pc have "\<not> sq_looks_full (cq s)" "sq_buf (cq s) ! sq_slot (cq s) (sq_producer_pos (cq s)) = x"
    by (simp_all add: conc_unfold)
  then show ?thesis
    using inv spsc_countsI [OF publish_push_at [OF at]] publish_push_contents_at [OF at]
    by (auto simp: conc_unfold frame split: cpc.splits)
qed

lemma pop_publish_step_inv:
  assumes inv: "conc_inv n s" and pc: "cpc s = CPublish y"
  shows "conc_inv n (s\<lparr>cq := sq_publish_pop (cq s), cpc := CIdle, popped := popped s @ [y]\<rparr>)"
proof -
  from inv obtain kp kc where at: "spsc_at (cq s) (length (pushed s)) (length (popped s)) kp kc"
    by (rule conc_inv_at)
  from inv pc have "\<not> sq_looks_empty (cq s)" "sq_read (cq s) = y"
    by (simp_all add: conc_unfold)
  then show ?thesis
    using inv spsc_countsI [OF publish_pop_at [OF at]] read_contents_at [OF at]
    by (auto simp: conc_unfold frame split: ppc.splits)
qed

lemma spsc_step_inv [preserves]: "spsc_step s t \<Longrightarrow> conc_inv n s \<Longrightarrow> conc_inv n t"
proof (induction rule: spsc_step.induct)
  case (push_start s x)
  then show ?case by (simp add: conc_unfold split: cpc.splits)
next
  case (push_reload s x v q')
  then obtain kp kc where at: "spsc_at (cq s) (length (pushed s)) (length (popped s)) kp kc"
    by (auto elim: conc_inv_at)
  from at push_reload.hyps(2) obtain j where "kc \<le> j" "j \<le> length (popped s)" "v = of_nat j"
    by (rule visible_consumer_at)
  then have "spsc_counts q' (length (pushed s)) (length (popped s))"
    using spsc_countsI [OF reload_consumer_at [OF at]] push_reload.hyps(3) by simp
  with push_reload show ?case
    by (auto simp: conc_unfold frame reload_full_contents split: cpc.splits)
next
  case (push_write s x)
  then show ?case by (intro producer_step_inv)
next
  case (push_publish s x)
  then show ?case by (intro publish_step_inv)
next
  case (pop_start s)
  then show ?case by (simp add: conc_unfold split: ppc.splits)
next
  case (pop_reload s v q')
  then obtain kp kc where at: "spsc_at (cq s) (length (pushed s)) (length (popped s)) kp kc"
    by (auto elim: conc_inv_at)
  from at pop_reload.hyps(2) obtain j where "kp \<le> j" "j \<le> length (pushed s)" "v = of_nat j"
    by (rule visible_producer_at)
  then have "spsc_counts q' (length (pushed s)) (length (popped s))"
    using spsc_countsI [OF reload_producer_at [OF at]] pop_reload.hyps(3) by simp
  with pop_reload show ?case
    by (auto simp: conc_unfold frame reload_full_contents split: ppc.splits)
next
  case (pop_read s)
  then show ?case by (simp add: conc_unfold split: ppc.splits)
next
  case (pop_publish s y)
  then show ?case by (intro pop_publish_step_inv)
qed

lemma reachable_conc_inv: "spsc_reachable n d s \<Longrightarrow> capacity_ok n \<Longrightarrow> conc_inv n s"
  by (induction rule: spsc_reachable.induct) (auto intro: conc_inv_init spsc_step_inv)


subsection \<open>Properties\<close>

text \<open>
  C1. The queue never loses, duplicates or reorders an element: in every interleaving of the two
  threads, whatever stale positions their loads return and however far the positions have
  wrapped, the elements popped so far are a prefix of the elements pushed so far, in order, and at
  most \<open>Capacity\<close> elements are in between.
\<close>

theorem spsc_concurrent_fifo:
  assumes "capacity_ok n" "spsc_reachable n d s"
  shows "\<exists>waiting. pushed s = popped s @ waiting \<and> length waiting \<le> n"
proof -
  from assms have inv: "conc_inv n s"
    by (simp add: reachable_conc_inv)
  then obtain kp kc where "spsc_at (cq s) (length (pushed s)) (length (popped s)) kp kc"
    by (rule conc_inv_at)
  then have "length (spsc_contents (cq s)) \<le> n"
    using inv by (auto simp: length_contents_at conc_inv_def spsc_at_def)
  moreover have "pushed s = popped s @ spsc_contents (cq s)"
    using inv by (simp add: conc_inv_def)
  ultimately show ?thesis
    by blast
qed

text \<open>
  C7. The slots need no atomics: whenever the producer is about to write a slot and the consumer
  is about to read one, they are different slots, and the slot the consumer reads holds an element
  the producer has already published.
\<close>

theorem spsc_no_data_race:
  assumes "capacity_ok n" "spsc_reachable n d s" "ppc s = PWrite x" "cpc s = CRead"
  shows "sq_slot (cq s) (sq_producer_pos (cq s)) \<noteq> sq_slot (cq s) (sq_consumer_pos (cq s))
         \<and> length (popped s) < length (pushed s)
         \<and> sq_read (cq s) = pushed s ! length (popped s)"
proof -
  from assms have inv: "conc_inv n s"
    by (simp add: reachable_conc_inv)
  then obtain kp kc where at: "spsc_at (cq s) (length (pushed s)) (length (popped s)) kp kc"
    by (rule conc_inv_at)
  from inv assms have room: "\<not> sq_looks_full (cq s)" and item: "\<not> sq_looks_empty (cq s)"
    by (simp_all add: conc_unfold)
  have "length (popped s) < length (pushed s)"
    using item looks_empty_iff [OF at] at by (auto simp: spsc_at_def)
  moreover have "pushed s ! length (popped s) = sq_read (cq s)"
    using inv read_contents_at [OF at item] by (auto simp: conc_inv_def) (metis nth_append_length)
  ultimately show ?thesis
    using slot_neq_at [OF at room, of "length (popped s)"] by (simp add: write_slot_at [OF at])
qed


lemma capacity_ok_2: "capacity_ok 2"
  by (simp add: capacity_ok_def)

text \<open>A reachable state with both threads at a slot: one element published, a second on its way.\<close>

definition race_state :: "nat conc" where
  "race_state =
     \<lparr>cq = \<lparr>sq_producer_pos = 1, sq_cached_consumer_pos = 0, sq_consumer_pos = 0,
            sq_cached_producer_pos = 1, sq_buf = [7, 0]\<rparr>,
      ppc = PWrite 8, cpc = CRead, pushed = [7], popped = []\<rparr>"

lemmas conc_eval = race_state_def conc_init_def spsc_init_def sq_looks_full_def sq_capacity_def
  sq_looks_empty_def sq_write_def sq_publish_push_def sq_slot_def sq_mask_def visible_producer_pos_def

lemma race_state_reachable: "spsc_reachable 2 0 race_state"
proof -
  let ?s0 = "conc_init 2 (0::nat)"
  let ?s1 = "?s0\<lparr>ppc := PWrite 7\<rparr>"
  let ?s2 = "?s1\<lparr>cq := sq_write (cq ?s1) 7, ppc := PPublish 7\<rparr>"
  let ?s3 = "?s2\<lparr>cq := sq_publish_push (cq ?s2), ppc := PIdle, pushed := [7]\<rparr>"
  let ?s4 = "?s3\<lparr>ppc := PWrite 8\<rparr>"
  let ?s5 = "?s4\<lparr>cpc := CReload\<rparr>"
  have small: "\<not> (2::u64) \<le> 1"
    by (simp add: word_le_nat_alt)
  have "spsc_step ?s0 ?s1"
    using spsc_step.push_start [of ?s0 7] by (simp add: conc_eval)
  moreover have "spsc_step ?s1 ?s2"
    by (rule spsc_step.push_write) simp
  moreover have "spsc_step ?s2 ?s3"
    using spsc_step.push_publish [of ?s2 7] by (simp add: conc_eval)
  moreover have "spsc_step ?s3 ?s4"
    using spsc_step.push_start [of ?s3 8] small by (simp add: conc_eval)
  moreover have "spsc_step ?s4 ?s5"
    using spsc_step.pop_start [of ?s4] by (simp add: conc_eval)
  moreover have "spsc_step ?s5 race_state"
    using spsc_step.pop_reload [of ?s5 1] by (simp add: conc_eval numeral_2_eq_2)
  ultimately show ?thesis
    by (meson reach_init reach_step)
qed

theorem spsc_concurrent_fifo_witness:
  "pushed race_state = [7] \<and> (\<exists>waiting. pushed race_state = popped race_state @ waiting \<and> length waiting \<le> 2)"
  using spsc_concurrent_fifo [OF capacity_ok_2 race_state_reachable] by (simp add: race_state_def)

theorem spsc_no_data_race_witness:
  "sq_slot (cq race_state) (sq_producer_pos (cq race_state))
     \<noteq> sq_slot (cq race_state) (sq_consumer_pos (cq race_state))"
proof -
  have "ppc race_state = PWrite 8" "cpc race_state = CRead"
    by (simp_all add: race_state_def)
  from spsc_no_data_race [OF capacity_ok_2 race_state_reachable this] show ?thesis
    by blast
qed

text \<open>Sequences of operations on the object, and on the bounded list it stands for.\<close>

datatype 'a qop = QPush 'a | QPop
datatype 'a qresult = Pushed bool | Popped "'a option"

fun spsc_run :: "'a spsc \<Rightarrow> 'a qop list \<Rightarrow> 'a qresult list" where
  "spsc_run q [] = []"
| "spsc_run q (QPush x # ops) = (case spsc_push q x of (ok, q') \<Rightarrow> Pushed ok # spsc_run q' ops)"
| "spsc_run q (QPop # ops) = (case spsc_pop q of (r, q') \<Rightarrow> Popped r # spsc_run q' ops)"

fun fifo_run :: "nat \<Rightarrow> 'a list \<Rightarrow> 'a qop list \<Rightarrow> 'a qresult list" where
  "fifo_run n xs [] = []"
| "fifo_run n xs (QPush x # ops) =
     (if length xs < n then Pushed True # fifo_run n (xs @ [x]) ops else Pushed False # fifo_run n xs ops)"
| "fifo_run n xs (QPop # ops) =
     (case xs of [] \<Rightarrow> Popped None # fifo_run n [] ops | y # ys \<Rightarrow> Popped (Some y) # fifo_run n ys ops)"

lemma spsc_run_fifo: "spsc_inv q \<Longrightarrow> spsc_run q ops = fifo_run (spsc_cap q) (spsc_contents q) ops"
proof (induction ops arbitrary: q)
  case Nil
  then show ?case by simp
next
  case (Cons op ops)
  show ?case
  proof (cases op)
    case (QPush x)
    from Cons.prems show ?thesis
      by (cases rule: spsc_fifo.push_cases [of q x]) (simp_all add: QPush Cons.IH)
  next
    case QPop
    from Cons.prems show ?thesis
      by (cases rule: spsc_fifo.pop_cases [of q]) (simp_all add: QPop Cons.IH)
  qed
qed

text \<open>
  Any sequence of pushes and pops on a fresh queue, run one after the other, returns exactly
  what a list bounded by the capacity returns: a push fails only when \<open>Capacity\<close> elements wait, a pop
  fails only when none does, and a pop returns the oldest one.
\<close>

theorem spsc_refines_bounded_list:
  assumes "capacity_ok n"
  shows "spsc_run (spsc_init n d) ops = fifo_run n [] ops"
  using spsc_run_fifo [of "spsc_init n d" ops] assms by simp

theorem spsc_refines_bounded_list_witness:
  "spsc_run (spsc_init 2 0) [QPop, QPush 5, QPush 6, QPush (7::nat), QPop]
     = [Popped None, Pushed True, Pushed True, Pushed False, Popped (Some 5)]"
  unfolding spsc_refines_bounded_list [OF capacity_ok_2] by simp

end
