(* ===== verification/FeedHandler.thy ===== *)
theory FeedHandler
  imports SpscQueue Histogram TscClock
begin

text \<open>
  \<open>include/hft/feed_handler.hpp\<close>: the stage that turns datagrams into events. The socket is
  outside: \<open>recv\<close> is what \<open>try_recv\<close> returned, \<^const>\<open>None\<close> for nothing to read or an empty datagram,
  else the bytes stored in the 2048-byte buffer. The cycle counter is an argument: \<open>arrival\<close> is its
  reading after the receive and \<open>clock k\<close> its reading after the \<open>k\<close>-th message was pushed.

  A poll runs against the outbound queue as it stands (the consumer's pops fall between polls); the
  bounded spin of \<open>push_with_backpressure\<close> is \<^const>\<open>push_attempts\<close> with the source's budget.
\<close>

record md_event =
  ev_msg :: itch_message
  ev_arrival_tsc :: u64

record feed_handler =
  fh_received :: u64
  fh_pushed :: u64
  fh_dropped :: u64
  fh_latency :: hist

text \<open>The default template arguments of \<open>Histogram<>\<close>: one second, five precision bits.\<close>

definition default_hist :: hist where
  "default_hist = hist_init 1000000000 5"

definition record_latency :: "tsc_calibration \<Rightarrow> u64 \<Rightarrow> hist \<Rightarrow> hist" where
  "record_latency cal cycles h = record_value 1000000000 5 (tsc_to_ns_u cal cycles) h"

definition feed_handler_init :: feed_handler where
  "feed_handler_init = \<lparr>fh_received = 0, fh_pushed = 0, fh_dropped = 0, fh_latency = default_hist\<rparr>"

definition kMaxMsgsPerDatagram :: nat where
  "kMaxMsgsPerDatagram = 64"

definition kBufBytes :: nat where
  "kBufBytes = kMaxMsgsPerDatagram * kMsgSize"

definition kSpinBudget :: nat where
  "kSpinBudget = 2 ^ 16"

definition push_with_backpressure :: "md_event spsc \<Rightarrow> md_event \<Rightarrow> bool \<times> md_event spsc" where
  "push_with_backpressure q ev = push_attempts spsc_push kSpinBudget q ev"

definition feed_message ::
    "tsc_calibration \<Rightarrow> u64 \<Rightarrow> u64 \<Rightarrow> itch_message \<Rightarrow> feed_handler \<times> md_event spsc \<times> nat
     \<Rightarrow> feed_handler \<times> md_event spsc \<times> nat" where
  "feed_message cal arrival now m s =
     (let (fh, q, enqueued) = s;
          fh = fh\<lparr>fh_received := fh_received fh + 1\<rparr>;
          (ok, q) = push_with_backpressure q \<lparr>ev_msg = m, ev_arrival_tsc = arrival\<rparr>
      in if ok
         then (fh\<lparr>fh_pushed := fh_pushed fh + 1,
                 fh_latency := record_latency cal (now - arrival) (fh_latency fh)\<rparr>, q, enqueued + 1)
         else (fh\<lparr>fh_dropped := fh_dropped fh + 1\<rparr>, q, enqueued))"

text \<open>The loop \<open>while (reader.has_next())\<close>; \<^const>\<open>None\<close> is a read outside the buffer.\<close>

function feed_loop ::
    "tsc_calibration \<Rightarrow> u64 \<Rightarrow> (nat \<Rightarrow> u64) \<Rightarrow> nat \<Rightarrow> feed_reader \<Rightarrow> feed_handler \<times> md_event spsc \<times> nat
     \<Rightarrow> (feed_handler \<times> md_event spsc \<times> nat) option" where
  "feed_loop cal arrival clock k r s =
     (if has_next r then
        (case reader_next r of
           None \<Rightarrow> None
         | Some (m, r') \<Rightarrow> feed_loop cal arrival clock (k + 1) r' (feed_message cal arrival (clock k) m s))
      else Some s)"
  by pat_completeness auto

termination feed_loop
  by (relation "measure (\<lambda>(cal, arrival, clock, k, r, s). fr_end r - fr_cur r)")
    (auto simp: has_next_def reader_next_def kMsgSize_def split: option.splits)

declare feed_loop.simps [simp del]

definition feed_poll_once ::
    "tsc_calibration \<Rightarrow> u8 list option \<Rightarrow> u64 \<Rightarrow> (nat \<Rightarrow> u64) \<Rightarrow> feed_handler \<times> md_event spsc
     \<Rightarrow> (nat \<times> feed_handler \<times> md_event spsc) option" where
  "feed_poll_once cal recv arrival clock s =
     (case recv of
        None \<Rightarrow> Some (0, s)
      | Some bs \<Rightarrow>
          (if bs = [] then Some (0, s)
           else map_option (\<lambda>(fh, q, n). (n, fh, q))
                  (feed_loop cal arrival clock 0 (feed_reader_init bs (length bs)) (fst s, snd s, 0))))"


subsection \<open>What a poll does\<close>

lemma feed_loop_fold:
  assumes "fr_end r \<le> length (fr_data r)" "fr_cur r \<le> fr_end r"
  shows "feed_loop cal arrival clock k r s =
    Some (fold (\<lambda>(j, m). feed_message cal arrival (clock j) m)
            (enumerate k (map parse_message (frames kMsgSize (unread r)))) s)"
  using assms
proof (induction cal arrival clock k r s rule: feed_loop.induct)
  case (1 cal arrival clock k r s)
  show ?case
  proof (cases "has_next r")
    case True
    let ?r' = "r\<lparr>fr_cur := fr_cur r + kMsgSize\<rparr>"
    have nxt: "reader_next r = Some (parse_message (take kMsgSize (unread r)), ?r')"
      using True 1(2) by (rule reader_next_has_next)
    have drop: "unread ?r' = drop kMsgSize (unread r)"
      by (simp add: unread_def drop_take add.commute)
    have "kMsgSize \<le> length (unread r)"
      using True 1(2,3) by (simp add: has_next_def unread_def)
    moreover have "0 < kMsgSize"
      by (simp add: kMsgSize_def)
    ultimately have "frames kMsgSize (unread r) = take kMsgSize (unread r) # frames kMsgSize (unread ?r')"
      unfolding drop by (simp add: frames.simps [of kMsgSize "unread r"])
    then show ?thesis
      using 1(1) [OF True nxt refl] 1(2,3) True nxt
      by (simp add: feed_loop.simps [of _ _ _ k r] has_next_def)
  next
    case False
    then have "frames kMsgSize (unread r) = []"
      using 1(2,3) by (simp add: frames_short has_next_def unread_def)
    then show ?thesis
      using False by (simp add: feed_loop.simps [of _ _ _ k r])
  qed
qed

definition queue_room :: "'a spsc \<Rightarrow> nat" where
  "queue_room q = spsc_cap q - length (spsc_contents q)"

abbreviation stamp_event :: "u64 \<Rightarrow> itch_message \<Rightarrow> md_event" where
  "stamp_event arrival m \<equiv> \<lparr>ev_msg = m, ev_arrival_tsc = arrival\<rparr>"

text \<open>One message: received, and then pushed and timed or dropped, by the room in the queue.\<close>

lemma feed_message_cases:
  assumes "spsc_inv q"
  obtains (room) q' where "queue_room q = Suc (queue_room q')" "spsc_inv q'"
      "spsc_contents q' = spsc_contents q @ [stamp_event arrival m]" "spsc_cap q' = spsc_cap q"
      "feed_message cal arrival now m (fh, q, n) =
        (fh\<lparr>fh_received := fh_received fh + 1, fh_pushed := fh_pushed fh + 1,
            fh_latency := record_latency cal (now - arrival) (fh_latency fh)\<rparr>, q', n + 1)"
  | (full) q' where "queue_room q = 0" "queue_room q' = 0" "spsc_inv q'" "spsc_contents q' = spsc_contents q"
      "spsc_cap q' = spsc_cap q"
      "feed_message cal arrival now m (fh, q, n) =
        (fh\<lparr>fh_received := fh_received fh + 1, fh_dropped := fh_dropped fh + 1\<rparr>, q', n)"
proof -
  have "0 < kSpinBudget"
    by (simp add: kSpinBudget_def)
  with assms show thesis
  proof (cases rule: spsc_fifo.push_attempts_spec [of q kSpinBudget "stamp_event arrival m"])
    case (room q')
    then show ?thesis
      by (intro that(1) [of q']) (auto simp: feed_message_def push_with_backpressure_def queue_room_def)
  next
    case (full q')
    then show ?thesis
      by (intro that(2) [of q']) (auto simp: feed_message_def push_with_backpressure_def queue_room_def)
  qed
qed

definition fed :: "tsc_calibration \<Rightarrow> u64 \<Rightarrow> u64 list \<Rightarrow> nat \<Rightarrow> nat \<Rightarrow> feed_handler \<Rightarrow> feed_handler" where
  "fed cal arrival stamps seen put fh =
     \<lparr>fh_received = fh_received fh + of_nat seen, fh_pushed = fh_pushed fh + of_nat put,
      fh_dropped = fh_dropped fh + of_nat (seen - put),
      fh_latency = fold (\<lambda>t. record_latency cal (t - arrival)) (take put stamps) (fh_latency fh)\<rparr>"

lemma fed_Cons:
  "put \<le> seen \<Longrightarrow> fed cal arrival stamps seen put (fh\<lparr>fh_received := fh_received fh + 1,
      fh_pushed := fh_pushed fh + 1, fh_latency := record_latency cal (t - arrival) (fh_latency fh)\<rparr>)
    = fed cal arrival (t # stamps) (Suc seen) (Suc put) fh"
  "fed cal arrival stamps seen 0 (fh\<lparr>fh_received := fh_received fh + 1, fh_dropped := fh_dropped fh + 1\<rparr>)
    = fed cal arrival (t # stamps) (Suc seen) 0 fh"
  by (simp_all add: fed_def)

lemma feed_messages_spec:
  assumes "spsc_inv q"
  shows "\<exists>q'. fold (\<lambda>(j, m). feed_message cal arrival (clock j) m) (enumerate k ms) (fh, q, n)
      = (fed cal arrival (map clock [k..<k + length ms]) (length ms) (min (queue_room q) (length ms)) fh, q',
         n + min (queue_room q) (length ms))
    \<and> spsc_inv q' \<and> spsc_cap q' = spsc_cap q
    \<and> spsc_contents q' = spsc_contents q @ take (queue_room q) (map (stamp_event arrival) ms)"
  using assms
proof (induction ms arbitrary: k fh q n)
  case Nil
  then show ?case by (auto simp: fed_def)
next
  case (Cons m ms)
  have upt: "[k..<k + length (m # ms)] = k # [Suc k..<Suc k + length ms]"
    by (simp add: upt_conv_Cons del: upt_Suc)
  show ?case
    using Cons.prems
  proof (cases rule: feed_message_cases [of q m arrival cal "clock k" fh n])
    case (room q')
    show ?thesis
      using Cons.IH [OF room(2), where k = "Suc k" and n = "n + 1" and fh = "fh\<lparr>fh_received := fh_received fh + 1,
          fh_pushed := fh_pushed fh + 1, fh_latency := record_latency cal (clock k - arrival) (fh_latency fh)\<rparr>"]
      by (simp only: room enumerate_simps fold_simps split upt)
        (simp add: fed_Cons(1) room(1,3) del: upt_Suc, blast?)
  next
    case (full q')
    show ?thesis
      using Cons.IH [OF full(3), where k = "Suc k" and n = n
          and fh = "fh\<lparr>fh_received := fh_received fh + 1, fh_dropped := fh_dropped fh + 1\<rparr>"]
      by (simp only: full enumerate_simps fold_simps split upt)
        (simp add: fed_Cons(2) [where t = "clock k"] full(1,2) del: upt_Suc)
  qed
qed


text \<open>A poll reads inside the bytes received, so it always returns.\<close>

lemma feed_poll_returns: "feed_poll_once cal recv arrival clock s \<noteq> None"
  by (simp add: feed_poll_once_def feed_loop_fold feed_reader_init_def del: not_None_eq split: option.split)

text \<open>What a poll of a datagram does, from any state of handler and queue.\<close>

lemma feed_poll_spec:
  fixes bs :: "u8 list" and q :: "md_event spsc"
  assumes "spsc_inv q"
  defines "ms \<equiv> map parse_message (frames kMsgSize bs)"
  defines "put \<equiv> min (queue_room q) (length ms)"
  shows "\<exists>fh' q'. feed_poll_once cal (Some bs) arrival clock (fh, q) = Some (put, fh', q')
    \<and> spsc_inv q' \<and> spsc_contents q' = spsc_contents q @ take put (map (stamp_event arrival) ms)
    \<and> fh_received fh' = fh_received fh + of_nat (length ms)
    \<and> fh_pushed fh' = fh_pushed fh + of_nat put
    \<and> fh_dropped fh' = fh_dropped fh + of_nat (length ms - put)
    \<and> fh_latency fh' = fold (\<lambda>k. record_latency cal (clock k - arrival)) [0..<put] (fh_latency fh)"
proof (cases "bs = []")
  case True
  then have "ms = []"
    by (simp add: ms_def frames_short kMsgSize_def)
  with True assms(1) show ?thesis
    by (simp add: feed_poll_once_def put_def)
next
  case False
  have un: "unread (feed_reader_init bs (length bs)) = bs"
    by (simp add: unread_def feed_reader_init_def)
  have "feed_loop cal arrival clock 0 (feed_reader_init bs (length bs)) (fh, q, 0)
      = Some (fold (\<lambda>(j, m). feed_message cal arrival (clock j) m) (enumerate 0 ms) (fh, q, 0))"
    by (subst feed_loop_fold) (simp_all add: un ms_def, simp_all add: feed_reader_init_def)
  then show ?thesis
    using feed_messages_spec [OF assms(1), of cal arrival clock 0 ms fh 0] False
    by (auto simp: feed_poll_once_def put_def fed_def take_map fold_map o_def min.commute take_upt min_def)
qed

text \<open>
  C16. A poll of a datagram accounts for every message in it: with room for \<open>r\<close> more events in the
  queue, the first \<open>r\<close> messages are appended in datagram order, each with the arrival stamp of the
  datagram, and timed against their own clock reading; the others are counted as dropped, and
  received is pushed plus dropped. The poll always returns, and returns the number of events enqueued.
\<close>

theorem feed_poll_accounting:
  fixes bs :: "u8 list" and q :: "md_event spsc"
  assumes "spsc_inv q"
  defines "ms \<equiv> map parse_message (frames kMsgSize bs)"
  defines "put \<equiv> min (queue_room q) (length ms)"
  shows "\<exists>fh' q'. feed_poll_once cal (Some bs) arrival clock (fh, q) = Some (put, fh', q')
    \<and> spsc_inv q' \<and> spsc_contents q' = spsc_contents q @ take put (map (stamp_event arrival) ms)
    \<and> fh_received fh' = fh_received fh + of_nat (length ms)
    \<and> fh_pushed fh' = fh_pushed fh + of_nat put
    \<and> fh_dropped fh' = fh_dropped fh + of_nat (length ms - put)
    \<and> fh_latency fh' = fold (\<lambda>k. record_latency cal (clock k - arrival)) [0..<put] (fh_latency fh)"
  using assms(1) unfolding ms_def put_def by (rule feed_poll_spec)

definition demo_datagram :: "u8 list" where
  "demo_datagram = concat (replicate 3 (encode_message zero_itch_message))"

definition demo_calibration :: tsc_calibration where
  "demo_calibration = \<lparr>ns_per_cycle = 1, cycles_per_ns = 1, hz = 1000000000, nominal_hz = 0,
     resolution_ns = 1, clock_source = kX86InvariantTsc\<rparr>"

lemma demo_datagram_frames: "length (frames kMsgSize demo_datagram) = 3"
  using itch_codec.frames_encoded [of "[]" "replicate 3 zero_itch_message"]
  by (simp add: demo_datagram_def kMsgSize_def)

text \<open>The last poll of the demonstration, from any handler state.\<close>

lemma demo_feed_poll:
  "\<exists>fh' q'. feed_poll_once demo_calibration (Some demo_datagram) 5 (\<lambda>k. 7)
      (fh, spsc_init 2 \<lparr>ev_msg = zero_itch_message, ev_arrival_tsc = 0\<rparr>) = Some (2, fh', q')"
proof -
  let ?q = "spsc_init 2 \<lparr>ev_msg = zero_itch_message, ev_arrival_tsc = 0\<rparr> :: md_event spsc"
  let ?ms = "map parse_message (frames kMsgSize demo_datagram)"
  have "demo_datagram \<noteq> []"
    using demo_datagram_frames by (auto simp: frames_short kMsgSize_def)
  moreover have "feed_loop demo_calibration 5 (\<lambda>k. 7) 0 (feed_reader_init demo_datagram (length demo_datagram)) (fh, ?q, 0)
      = Some (fold (\<lambda>(j, m). feed_message demo_calibration 5 7 m) (enumerate 0 ?ms) (fh, ?q, 0))"
    by (subst feed_loop_fold) (simp_all add: unread_def feed_reader_init_def)
  moreover obtain q' where "fold (\<lambda>(j, m). feed_message demo_calibration 5 7 m) (enumerate 0 ?ms) (fh, ?q, 0)
      = (fed demo_calibration 5 (map (\<lambda>k. 7) [0..<0 + length ?ms]) (length ?ms) (min (queue_room ?q) (length ?ms)) fh, q',
         0 + min (queue_room ?q) (length ?ms))"
    using feed_messages_spec [OF spsc_inv_init [OF capacity_ok_2], where clock = "\<lambda>k. 7" and k = 0] by blast
  ultimately show ?thesis
    by (simp add: feed_poll_once_def demo_datagram_frames queue_room_def)
qed

theorem feed_poll_accounting_witness:
  "\<exists>fh' q'. feed_poll_once demo_calibration (Some demo_datagram) 5 (\<lambda>k. 7)
      (feed_handler_init, spsc_init 2 \<lparr>ev_msg = zero_itch_message, ev_arrival_tsc = 0\<rparr>) = Some (2, fh', q')
    \<and> fh_received fh' = 3 \<and> fh_pushed fh' = 2 \<and> fh_dropped fh' = 1"
  using feed_poll_accounting [OF spsc_inv_init [OF capacity_ok_2, of "\<lparr>ev_msg = zero_itch_message, ev_arrival_tsc = 0\<rparr>"],
      where bs = demo_datagram and cal = demo_calibration and arrival = 5 and clock = "\<lambda>k. 7"
        and fh = feed_handler_init]
  by (auto simp: demo_datagram_frames queue_room_def feed_handler_init_def)

end
