(* ===== verification/Strategy.thy ===== *)
theory Strategy
  imports FeedHandler BookView
begin

text \<open>
  \<open>include/hft/strategy.hpp\<close>: the book-imbalance strategy and the stage that runs it. \<open>on_md\<close> returns
  the order handed to the \<open>emit\<close> callback, if any, with the new state; \<open>on_fill\<close> is the fill handler.
  All decisions are on 64-bit integers as in the source. \<open>strategy_poll\<close> is
  \<open>StrategyRunner::poll_once\<close> over its three queues: at most 16 fills, then at most one market-data
  event; the wait for room in the order queue is \<^const>\<open>push_wait\<close>, where \<^const>\<open>None\<close> means that it
  spins until the consumer makes room.

  The lemmas say that the integer cross product decides exactly what the rational imbalance
  decides, and what the latch guarantees over any interleaving of events and fills.
\<close>

record strategy_params =
  sp_base_price :: i64
  sp_tick :: i64
  sp_threshold :: rat
  sp_order_size :: u32

record strategy =
  st_book :: book
  st_position :: i64
  st_last_order_id :: u64
  st_orders_sent :: u64
  st_fills_seen :: u64
  st_md_seen :: u64
  st_order_size :: u32
  st_thr_num :: i64
  st_in_flight :: bool

definition kThrDen :: i64 where
  "kThrDen = 16384"

definition strategy_init :: "nat \<Rightarrow> strategy_params \<Rightarrow> strategy" where
  "strategy_init NumTicks p =
     \<lparr>st_book = book_init NumTicks (sp_base_price p) (sp_tick p), st_position = 0, st_last_order_id = 0,
      st_orders_sent = 0, st_fills_seen = 0, st_md_seen = 0, st_order_size = sp_order_size p,
      st_thr_num = word_of_int (llround_rat (dmul (sp_threshold p) (of_int (sint kThrDen)))),
      st_in_flight = False\<rparr>"

definition on_md :: "md_event \<Rightarrow> strategy \<Rightarrow> order_request option \<times> strategy" where
  "on_md ev s =
     (let s = s\<lparr>st_md_seen := st_md_seen s + 1, st_book := apply_msg (ev_msg ev) (st_book s)\<rparr>;
          b = st_book s
      in if \<not> two_sided b then (None, s)
      else
        let bs = ucast (best_bid_size b) :: i64;
            as = ucast (best_ask_size b) :: i64;
            diff = bs - as;
            tot = bs + as;
            lhs = diff * kThrDen;
            rhs = st_thr_num s * tot;
            buy = sint rhs < sint lhs;
            sell = sint rhs < sint (- lhs);
            want_buy = (buy \<and> sint (st_position s) \<le> 0);
            want_sell = (sell \<and> 0 \<le> sint (st_position s))
        in if st_in_flight s \<or> \<not> (want_buy \<or> want_sell) then (None, s)
        else
          let s = s\<lparr>st_last_order_id := st_last_order_id s + 1, st_in_flight := True,
                    st_orders_sent := st_orders_sent s + 1\<rparr>
          in (Some (zero_order\<lparr>o_order_id := st_last_order_id s,
                      o_md_timestamp := ev_arrival_tsc ev,
                      o_symbol := m_symbol (ev_msg ev),
                      o_size := st_order_size s,
                      o_side := side_code (if want_buy then kBuy else kSell),
                      o_action := order_action_code kNew,
                      o_price := (if want_buy then best_bid_price b else best_ask_price b)\<rparr>), s))"

definition on_fill :: "exec_report \<Rightarrow> strategy \<Rightarrow> strategy" where
  "on_fill r s =
     s\<lparr>st_position := (if r_side r = side_code kBuy then st_position s + ucast (r_fill_size r)
                        else st_position s - ucast (r_fill_size r)),
       st_in_flight := False, st_fills_seen := st_fills_seen s + 1\<rparr>"

record strategy_runner =
  sr_strat :: strategy
  sr_latency :: hist
  sr_processed :: u64
  sr_orders_pushed :: u64

definition strategy_runner_init :: "nat \<Rightarrow> strategy_params \<Rightarrow> strategy_runner" where
  "strategy_runner_init NumTicks p = \<lparr>sr_strat = strategy_init NumTicks p, sr_latency = default_hist,
     sr_processed = 0, sr_orders_pushed = 0\<rparr>"

text \<open>At most 16 fills; \<^const>\<open>None\<close> is the null \<open>fills_\<close> pointer of a standalone run.\<close>

definition drain_strategy_fills ::
    "exec_report spsc option \<Rightarrow> strategy \<Rightarrow> strategy \<times> exec_report spsc option" where
  "drain_strategy_fills fills s =
     (case fills of
        None \<Rightarrow> (s, None)
      | Some fq \<Rightarrow> (case drain_into spsc_pop (\<lambda>s r. on_fill r s) 16 s fq of (s', fq') \<Rightarrow> (s', Some fq')))"

text \<open>
  One event: the order it emits, if any, is pushed. \<open>t0\<close> and \<open>t1\<close> are the two readings of the cycle
  counter around the decision.
\<close>

definition strategy_event ::
    "tsc_calibration \<Rightarrow> u64 \<Rightarrow> u64 \<Rightarrow> md_event \<Rightarrow> strategy_runner \<times> order_request spsc
     \<Rightarrow> (strategy_runner \<times> order_request spsc) option" where
  "strategy_event cal t0 t1 ev st =
     (let (sr, orders) = st;
          (emitted, s) = on_md ev (sr_strat sr);
          fin = (\<lambda>sr. sr\<lparr>sr_latency := record_latency cal (t1 - t0) (sr_latency sr),
                         sr_processed := sr_processed sr + 1\<rparr>)
      in case emitted of
           None \<Rightarrow> Some (fin (sr\<lparr>sr_strat := s\<rparr>), orders)
         | Some ord \<Rightarrow>
             (case push_wait spsc_push orders ord of
                None \<Rightarrow> None
              | Some orders \<Rightarrow>
                  Some (fin (sr\<lparr>sr_strat := s, sr_orders_pushed := sr_orders_pushed sr + 1\<rparr>), orders)))"

definition strategy_poll ::
    "tsc_calibration \<Rightarrow> u64 \<Rightarrow> u64
     \<Rightarrow> strategy_runner \<times> md_event spsc \<times> order_request spsc \<times> exec_report spsc option
     \<Rightarrow> (bool \<times> strategy_runner \<times> md_event spsc \<times> order_request spsc \<times> exec_report spsc option) option" where
  "strategy_poll cal t0 t1 st =
     (let (sr, feed, orders, fills) = st;
          (s, fills) = drain_strategy_fills fills (sr_strat sr);
          sr = sr\<lparr>sr_strat := s\<rparr>
      in case spsc_pop feed of
           (None, feed) \<Rightarrow> Some (False, sr, feed, orders, fills)
         | (Some ev, feed) \<Rightarrow>
             map_option (\<lambda>(sr, orders). (True, sr, feed, orders, fills))
               (strategy_event cal t0 t1 ev (sr, orders)))"


subsection \<open>The decision\<close>

text \<open>The threshold the integers encode, and the rule of the header comment on exact rationals.\<close>

definition threshold :: "strategy \<Rightarrow> rat" where
  "threshold s = of_int (sint (st_thr_num s)) / 16384"

definition exact_imbalance :: "book \<Rightarrow> rat" where
  "exact_imbalance b =
     (of_nat (unat (best_bid_size b)) - of_nat (unat (best_ask_size b)))
     / of_nat (unat (best_bid_size b) + unat (best_ask_size b))"

definition trade_signal :: "rat \<Rightarrow> rat \<Rightarrow> int \<Rightarrow> side option" where
  "trade_signal thr imb pos =
     (if thr < imb \<and> pos \<le> 0 then Some kBuy
      else if imb < - thr \<and> 0 \<le> pos then Some kSell
      else None)"

text \<open>The range of \<open>thr_num_\<close> in which the products fit: thresholds up to 32768, far beyond \<open>(0, 1)\<close>.\<close>

definition thr_ok :: "strategy \<Rightarrow> bool" where
  "thr_ok s \<longleftrightarrow> \<bar>sint (st_thr_num s)\<bar> \<le> 2 ^ 29"

lemma abs_prod_le: "\<bar>a\<bar> \<le> n \<Longrightarrow> \<bar>b\<bar> \<le> m \<Longrightarrow> \<bar>a * b\<bar> \<le> n * m" for a b :: int
  by (simp add: abs_mult mult_mono')

lemma sint_products:
  fixes x y :: u32 and t :: i64
  assumes "\<bar>sint t\<bar> \<le> 2 ^ 29"
  shows "sint ((ucast x - ucast y :: i64) * kThrDen) = (uint x - uint y) * 16384"
    and "sint (- ((ucast x - ucast y :: i64) * kThrDen)) = - ((uint x - uint y) * 16384)"
    and "sint (t * (ucast x + ucast y)) = sint t * (uint x + uint y)"
proof -
  note b = uint_u32_bounds [of x] uint_u32_bounds [of y]
  have fits: "in_i64 (uint x - uint y)" "in_i64 ((uint x - uint y) * 16384)"
    "in_i64 (- ((uint x - uint y) * 16384))" "in_i64 (uint x + uint y)"
    using b by - (rule in_i64I; (simp only: left_diff_distrib)?; linarith)+
  have d: "sint (ucast x - ucast y :: i64) = uint x - uint y"
    by (subst sint_diff_i64) (simp_all add: fits)
  have k: "sint kThrDen = 16384"
    by (simp add: kThrDen_def)
  show l: "sint ((ucast x - ucast y :: i64) * kThrDen) = (uint x - uint y) * 16384"
    by (subst sint_mult_i64) (simp_all only: d k fits)
  show "sint (- ((ucast x - ucast y :: i64) * kThrDen)) = - ((uint x - uint y) * 16384)"
    unfolding l [symmetric] by (intro sint_uminus_i64) (simp only: l fits)
  have p: "sint (ucast x + ucast y :: i64) = uint x + uint y"
    by (subst sint_add_i64) (simp_all add: fits)
  have "\<bar>uint x + uint y\<bar> \<le> 2 ^ 33"
    using b by simp
  from abs_prod_le [OF assms this] have "in_i64 (sint t * (uint x + uint y))"
    by (auto intro: in_i64I)
  then show "sint (t * (ucast x + ucast y)) = sint t * (uint x + uint y)"
    by (subst sint_mult_i64) (simp_all add: p)
qed

lemma cross_product:
  fixes m n :: nat and t :: int
  assumes "0 < m + n"
  shows "t * (int m + int n) < (int m - int n) * 16384
      \<longleftrightarrow> (of_int t / 16384 :: rat) < (of_nat m - of_nat n) / of_nat (m + n)"
    and "t * (int m + int n) < - ((int m - int n) * 16384)
      \<longleftrightarrow> (of_nat m - of_nat n) / of_nat (m + n) < - (of_int t / 16384 :: rat)"
proof -
  have pos: "(0 :: rat) < of_nat (m + n)"
    using assms by (simp only: of_nat_0_less_iff)
  have "(of_int t / 16384 :: rat) < (of_nat m - of_nat n) / of_nat (m + n)
      \<longleftrightarrow> of_int t * of_nat (m + n) < (of_nat m - of_nat n) * (16384 :: rat)"
    using pos by (simp add: divide_less_eq less_divide_eq mult.commute)
  also have "\<dots> \<longleftrightarrow> (of_int (t * (int m + int n)) :: rat) < of_int ((int m - int n) * 16384)"
    by simp
  finally show "t * (int m + int n) < (int m - int n) * 16384
      \<longleftrightarrow> (of_int t / 16384 :: rat) < (of_nat m - of_nat n) / of_nat (m + n)"
    unfolding of_int_less_iff by blast
  have "(of_nat m - of_nat n) / of_nat (m + n) < - (of_int t / 16384 :: rat)
      \<longleftrightarrow> of_int t * of_nat (m + n) < - ((of_nat m - of_nat n) * (16384 :: rat))"
    using pos by (simp add: divide_less_eq mult.commute) (rule iffI; linarith)
  also have "\<dots> \<longleftrightarrow> (of_int (t * (int m + int n)) :: rat) < of_int (- ((int m - int n) * 16384))"
    by simp
  finally show "t * (int m + int n) < - ((int m - int n) * 16384)
      \<longleftrightarrow> (of_nat m - of_nat n) / of_nat (m + n) < - (of_int t / 16384 :: rat)"
    unfolding of_int_less_iff by blast
qed


text \<open>What one event does, on the rational imbalance.\<close>

definition order_for :: "md_event \<Rightarrow> strategy \<Rightarrow> book \<Rightarrow> side \<Rightarrow> order_request" where
  "order_for ev s b sd =
     \<lparr>o_order_id = st_last_order_id s + 1, o_md_timestamp = ev_arrival_tsc ev,
      o_price = (if sd = kBuy then best_bid_price b else best_ask_price b),
      o_symbol = m_symbol (ev_msg ev), o_size = st_order_size s, o_side = side_code sd,
      o_action = order_action_code kNew, o_flags = 0, o_pad = 0\<rparr>"

definition md_decision :: "md_event \<Rightarrow> strategy \<Rightarrow> side option" where
  "md_decision ev s =
     (let b = apply_msg (ev_msg ev) (st_book s) in
      if two_sided b \<and> \<not> st_in_flight s
      then trade_signal (threshold s) (exact_imbalance b) (sint (st_position s)) else None)"

lemma on_md_eq:
  fixes ev :: md_event
  assumes "book_ok (st_book s)" "thr_ok s"
  defines "b \<equiv> apply_msg (ev_msg ev) (st_book s)"
  defines "s1 \<equiv> s\<lparr>st_md_seen := st_md_seen s + 1, st_book := b\<rparr>"
  shows "on_md ev s =
    (case md_decision ev s of
       None \<Rightarrow> (None, s1)
     | Some sd \<Rightarrow> (Some (order_for ev s b sd),
                   s1\<lparr>st_last_order_id := st_last_order_id s + 1, st_in_flight := True,
                      st_orders_sent := st_orders_sent s + 1\<rparr>))"
proof (cases "two_sided b")
  case False
  then show ?thesis
    by (simp add: on_md_def md_decision_def b_def s1_def Let_def)
next
  case True
  have ok: "book_ok b"
    unfolding b_def using assms(1) by (rule apply_msg_ok)
  define x y where "x = best_bid_size b" and "y = best_ask_size b"
  have "0 < unat x"
    using True best_bid_levels(2) [OF ok] by (simp add: two_sided_def x_def)
  then have pos: "0 < unat x + unat y"
    by simp
  have u: "uint x = int (unat x)" "uint y = int (unat y)"
    by simp_all
  have thr: "\<bar>sint (st_thr_num s)\<bar> \<le> 2 ^ 29"
    using assms(2) by (simp add: thr_ok_def)
  have buy: "sint (st_thr_num s * (ucast x + ucast y)) < sint ((ucast x - ucast y) * kThrDen)
      \<longleftrightarrow> threshold s < exact_imbalance b"
    unfolding sint_products [OF thr] u cross_product(1) [OF pos]
    by (simp add: threshold_def exact_imbalance_def x_def y_def)
  have sell: "sint (st_thr_num s * (ucast x + ucast y)) < sint (- ((ucast x - ucast y) * kThrDen))
      \<longleftrightarrow> exact_imbalance b < - threshold s"
    unfolding sint_products [OF thr] u cross_product(2) [OF pos]
    by (simp add: threshold_def exact_imbalance_def x_def y_def)
  show ?thesis
    using True buy sell
    by (simp add: on_md_def md_decision_def trade_signal_def order_for_def zero_order_def s1_def Let_def
        flip: b_def x_def y_def)
qed

lemma on_md_cases:
  fixes ev :: md_event
  defines "s1 \<equiv> \<lambda>s. s\<lparr>st_md_seen := st_md_seen s + 1, st_book := apply_msg (ev_msg ev) (st_book s)\<rparr>"
  obtains (quiet) "on_md ev s = (None, s1 s)"
  | (emit) sd where "on_md ev s = (Some (order_for ev s (apply_msg (ev_msg ev) (st_book s)) sd),
        (s1 s)\<lparr>st_last_order_id := st_last_order_id s + 1, st_in_flight := True,
           st_orders_sent := st_orders_sent s + 1\<rparr>)"
      "\<not> st_in_flight s" "sd = kBuy \<and> sint (st_position s) \<le> 0 \<or> sd = kSell \<and> 0 \<le> sint (st_position s)"
proof (cases "snd (on_md ev s) = s1 s \<and> fst (on_md ev s) = None")
  case True
  then show thesis
    by (intro quiet) (simp add: prod_eq_iff)
next
  case False
  let ?b = "apply_msg (ev_msg ev) (st_book s)"
  define bs as where "bs = (ucast (best_bid_size ?b) :: i64)" and "as = (ucast (best_ask_size ?b) :: i64)"
  define up where "up \<longleftrightarrow> sint (st_thr_num s * (bs + as)) < sint ((bs - as) * kThrDen) \<and> sint (st_position s) \<le> 0"
  define down where
    "down \<longleftrightarrow> sint (st_thr_num s * (bs + as)) < sint (- ((bs - as) * kThrDen)) \<and> 0 \<le> sint (st_position s)"
  have eq: "on_md ev s =
     (if \<not> two_sided ?b \<or> st_in_flight s \<or> \<not> (up \<or> down) then (None, s1 s)
      else (Some (order_for ev s ?b (if up then kBuy else kSell)),
        (s1 s)\<lparr>st_last_order_id := st_last_order_id s + 1, st_in_flight := True,
           st_orders_sent := st_orders_sent s + 1\<rparr>))"
    by (simp add: on_md_def order_for_def zero_order_def s1_def Let_def
        flip: bs_def as_def) (auto simp: up_def down_def)
  then have "\<not> st_in_flight s" "up \<or> down"
    using False by (auto split: if_split_asm)
  moreover from this False eq have "on_md ev s = (Some (order_for ev s ?b (if up then kBuy else kSell)),
        (s1 s)\<lparr>st_last_order_id := st_last_order_id s + 1, st_in_flight := True,
           st_orders_sent := st_orders_sent s + 1\<rparr>)"
    by (auto split: if_split_asm)
  ultimately show thesis
    by (intro emit) (auto simp: up_def down_def split: if_splits)
qed

text \<open>Whatever is decided, the book takes the message; fills leave it alone.\<close>

lemma on_md_book: "st_book (snd (on_md ev s)) = apply_msg (ev_msg ev) (st_book s)"
  by (rule on_md_cases [of ev s]) simp_all


subsection \<open>Sequences of events and fills\<close>

datatype strategy_input = Md md_event | Fill exec_report

fun strategy_run :: "strategy_input list \<Rightarrow> strategy \<Rightarrow> order_request list \<times> strategy" where
  "strategy_run [] s = ([], s)"
| "strategy_run (Md ev # ins) s =
     (case on_md ev s of (emitted, s') \<Rightarrow>
      case strategy_run ins s' of (ords, s'') \<Rightarrow> ((case emitted of None \<Rightarrow> [] | Some ord \<Rightarrow> [ord]) @ ords, s''))"
| "strategy_run (Fill r # ins) s = strategy_run ins (on_fill r s)"

primrec is_fill :: "strategy_input \<Rightarrow> bool" where
  "is_fill (Md ev) = False"
| "is_fill (Fill r) = True"

definition fills_in :: "strategy_input list \<Rightarrow> nat" where
  "fills_in ins = length (filter is_fill ins)"

lemma fills_in_simps [simp]:
  "fills_in [] = 0" "fills_in (Md ev # ins) = fills_in ins" "fills_in (Fill r # ins) = Suc (fills_in ins)"
  by (simp_all add: fills_in_def)

lemma order_for_simps [simp]:
  "o_order_id (order_for ev s b sd) = st_last_order_id s + 1" "o_size (order_for ev s b sd) = st_order_size s"
  "o_side (order_for ev s b sd) = side_code sd" "o_md_timestamp (order_for ev s b sd) = ev_arrival_tsc ev"
  by (simp_all add: order_for_def)

lemma on_fill_simps [simp]:
  "st_in_flight (on_fill r s) = False" "st_last_order_id (on_fill r s) = st_last_order_id s"
  "st_orders_sent (on_fill r s) = st_orders_sent s" "st_order_size (on_fill r s) = st_order_size s"
  "st_book (on_fill r s) = st_book s" "st_thr_num (on_fill r s) = st_thr_num s"
  by (simp_all add: on_fill_def)

lemma on_fills_book: "st_book (fold on_fill rs s) = st_book s"
  by (induction rs arbitrary: s) simp_all

lemma strategy_run_orders:
  assumes "strategy_run ins s = (ords, s')"
  shows "length ords \<le> fills_in ins + (if st_in_flight s then 0 else 1)
    \<and> map o_order_id ords = map (\<lambda>i. st_last_order_id s + of_nat i) [1..<Suc (length ords)]
    \<and> st_orders_sent s' = st_orders_sent s + of_nat (length ords)
    \<and> (st_in_flight s' \<and> \<not> st_in_flight s \<longrightarrow> ords \<noteq> [])"
  using assms
proof (induction ins arbitrary: s ords)
  case Nil
  then show ?case by simp
next
  case (Cons inp ins)
  show ?case
  proof (cases inp)
    case (Fill r)
    with Cons.prems Cons.IH [of "on_fill r s" ords] show ?thesis
      by (auto split: if_splits)
  next
    case (Md ev)
    show ?thesis
    proof (cases rule: on_md_cases [of ev s])
      case quiet
      with Md Cons.prems Cons.IH show ?thesis
        by (fastforce split: prod.splits)
    next
      case (emit sd)
      let ?s1 = "snd (on_md ev s)"
      obtain ords1 where run: "strategy_run ins ?s1 = (ords1, s')" and ords: "ords = the (fst (on_md ev s)) # ords1"
        using Cons.prems emit Md by (auto split: prod.splits)
      have upt: "[1..<Suc (length ords)] = 1 # map Suc [1..<Suc (length ords1)]"
        by (simp add: ords upt_conv_Cons map_Suc_upt del: upt_Suc)
      show ?thesis
        using Cons.IH [OF run] emit(1,2) Md unfolding upt
        by (auto simp: ords o_def algebra_simps simp del: upt_Suc)
    qed
  qed
qed

text \<open>
  A market that answers: every fill is for the order that is outstanding, in full and on its side.
\<close>

fun answered :: "order_request option \<Rightarrow> strategy \<Rightarrow> strategy_input list \<Rightarrow> bool" where
  "answered w s [] = True"
| "answered w s (Md ev # ins) =
     (case on_md ev s of
        (None, s') \<Rightarrow> answered w s' ins
      | (Some ord, s') \<Rightarrow> answered (Some ord) s' ins)"
| "answered w s (Fill r # ins) =
     (case w of
        None \<Rightarrow> False
      | Some ord \<Rightarrow> r_side r = o_side ord \<and> r_fill_size r = o_size ord \<and> answered None (on_fill r s) ins)"

definition position_ok :: "order_request option \<Rightarrow> strategy \<Rightarrow> bool" where
  "position_ok w s \<longleftrightarrow>
     sint (st_position s) \<in> {- uint (st_order_size s), 0, uint (st_order_size s)} \<and>
     (case w of
        None \<Rightarrow> \<not> st_in_flight s
      | Some ord \<Rightarrow> st_in_flight s \<and> o_size ord = st_order_size s \<and>
          (o_side ord = side_code kBuy \<and> sint (st_position s) \<le> 0
           \<or> o_side ord = side_code kSell \<and> 0 \<le> sint (st_position s)))"

lemma sint_add_fill:
  fixes z :: u32 and p :: i64
  assumes "sint p \<in> {- uint z, 0, uint z}"
  shows "sint (p + ucast z) = sint p + uint z" "sint (p - ucast z) = sint p - uint z"
proof -
  have "- uint z \<le> sint p" "sint p \<le> uint z"
    using assms uint_u32_bounds(1) [of z] by auto
  then have "in_i64 (sint p + uint z)" "in_i64 (sint p - uint z)"
    using uint_u32_bounds [of z] by - (rule in_i64I; linarith)+
  then show "sint (p + ucast z) = sint p + uint z" "sint (p - ucast z) = sint p - uint z"
    by (simp_all add: sint_add_i64 sint_diff_i64)
qed

lemma on_fill_position_ok:
  assumes "position_ok (Some ord) s" "r_side r = o_side ord" "r_fill_size r = o_size ord"
  shows "position_ok None (on_fill r s)"
proof -
  have z: "o_size ord = st_order_size s" and p: "sint (st_position s) \<in> {- uint (st_order_size s), 0, uint (st_order_size s)}"
    using assms(1) by (simp_all add: position_ok_def)
  show ?thesis
    using assms sint_add_fill [OF p] uint_u32_bounds(1) [of "st_order_size s"]
    by (auto simp: position_ok_def on_fill_def)
qed

lemma on_md_position_ok:
  assumes "position_ok w s" "on_md ev s = (emitted, s')"
  shows "position_ok (case emitted of None \<Rightarrow> w | Some ord \<Rightarrow> Some ord) s'"
  by (cases rule: on_md_cases [of ev s]; use assms in \<open>auto simp: position_ok_def split: option.splits\<close>)

lemma answered_position:
  assumes "answered w s ins" "position_ok w s" "strategy_run ins s = (ords, s')"
  shows "sint (st_position s') \<in> {- uint (st_order_size s), 0, uint (st_order_size s)}"
  using assms
proof (induction w s ins arbitrary: ords rule: answered.induct)
  case (1 w s)
  then show ?case by (simp add: position_ok_def)
next
  case (2 w s ev ins)
  obtain emitted s1 where md: "on_md ev s = (emitted, s1)"
    by (rule prod.exhaust)
  have size: "st_order_size s1 = st_order_size s"
    using md by (cases rule: on_md_cases [of ev s]) auto
  obtain ords1 where run: "strategy_run ins s1 = (ords1, s')"
    using 2(5) md by (auto split: prod.splits)
  show ?case
    using 2(1,2) [OF md [symmetric]] 2(3,4) on_md_position_ok [OF 2(4) md] run md size
    by (cases emitted) auto
next
  case (3 w s r ins)
  then show ?case
    by (auto split: option.splits intro: on_fill_position_ok)
qed

lemma strategy_init_simps [simp]:
  "book_ok (st_book (strategy_init N p))" "st_position (strategy_init N p) = 0"
  "st_last_order_id (strategy_init N p) = 0" "st_orders_sent (strategy_init N p) = 0"
  "st_in_flight (strategy_init N p) = False" "st_order_size (strategy_init N p) = sp_order_size p"
  by (simp_all add: strategy_init_def)


subsection \<open>The stage\<close>

lemma drain_strategy_fills_spec:
  assumes "spsc_inv fq"
  shows "\<exists>fq'. drain_strategy_fills (Some fq) s = (fold on_fill (take 16 (spsc_contents fq)) s, Some fq')
    \<and> spsc_inv fq' \<and> spsc_contents fq' = drop 16 (spsc_contents fq) \<and> spsc_cap fq' = spsc_cap fq"
  using spsc_fifo.drain_into_spec [OF assms, of "\<lambda>s r. on_fill r s" 16 s]
  by (auto simp: drain_strategy_fills_def)

lemma push_wait_spsc:
  assumes "spsc_inv q"
  shows "push_wait spsc_push q x = None \<longleftrightarrow> length (spsc_contents q) = spsc_cap q"
    and "push_wait spsc_push q x = Some q' \<Longrightarrow>
          spsc_contents q' = spsc_contents q @ [x] \<and> spsc_inv q' \<and> spsc_cap q' = spsc_cap q"
  using assms spsc_fifo.push_wait_SomeD [OF _ assms, of x q']
  by (cases rule: spsc_fifo.push_cases [of q x]; auto simp: push_wait_def)+

abbreviation emitted_orders :: "md_event \<Rightarrow> strategy \<Rightarrow> order_request list" where
  "emitted_orders ev s \<equiv> (case fst (on_md ev s) of None \<Rightarrow> [] | Some ord \<Rightarrow> [ord])"

lemma strategy_poll_spec:
  fixes sr :: strategy_runner
  assumes "spsc_inv feed" "spsc_inv orders" "spsc_inv fq"
  defines "s1 \<equiv> fold on_fill (take 16 (spsc_contents fq)) (sr_strat sr)"
  shows "case strategy_poll cal t0 t1 (sr, feed, orders, Some fq) of
      None \<Rightarrow> spsc_contents feed \<noteq> [] \<and> fst (on_md (hd (spsc_contents feed)) s1) \<noteq> None
        \<and> length (spsc_contents orders) = spsc_cap orders
    | Some (worked, sr', feed', orders', fills') \<Rightarrow>
        \<exists>fq'. fills' = Some fq' \<and> spsc_inv fq' \<and> spsc_contents fq' = drop 16 (spsc_contents fq)
        \<and> spsc_cap fq' = spsc_cap fq
        \<and> spsc_inv feed' \<and> spsc_contents feed' = tl (spsc_contents feed) \<and> spsc_cap feed' = spsc_cap feed
        \<and> spsc_inv orders' \<and> spsc_cap orders' = spsc_cap orders
        \<and> (if spsc_contents feed = []
           then \<not> worked \<and> sr' = sr\<lparr>sr_strat := s1\<rparr> \<and> orders' = orders
           else (let ev = hd (spsc_contents feed); emitted = emitted_orders ev s1 in
             worked \<and> spsc_contents orders' = spsc_contents orders @ emitted
             \<and> sr' = \<lparr>sr_strat = snd (on_md ev s1), sr_latency = record_latency cal (t1 - t0) (sr_latency sr),
                 sr_processed = sr_processed sr + 1,
                 sr_orders_pushed = sr_orders_pushed sr + of_nat (length emitted)\<rparr>))"
proof -
  obtain fq' where fq': "drain_strategy_fills (Some fq) (sr_strat sr) = (s1, Some fq')"
    "spsc_inv fq'" "spsc_contents fq' = drop 16 (spsc_contents fq)" "spsc_cap fq' = spsc_cap fq"
    using drain_strategy_fills_spec [OF assms(3)] unfolding s1_def by blast
  from assms(1) show ?thesis
  proof (cases rule: spsc_fifo.pop_cases [of feed])
    case (empty feed')
    then show ?thesis
      using fq' assms(2) by (simp add: strategy_poll_def strategy_event_def)
  next
    case (item ev feed')
    obtain emitted s2 where md: "on_md ev s1 = (emitted, s2)"
      by (rule prod.exhaust)
    show ?thesis
    proof (cases emitted)
      case None
      then show ?thesis
        using fq' item md assms(2) by (simp add: strategy_poll_def strategy_event_def)
    next
      case (Some ord)
      then show ?thesis
        using fq' item md push_wait_spsc [OF assms(2), of ord]
        by (cases "push_wait spsc_push orders ord") (simp_all add: strategy_poll_def strategy_event_def)
    qed
  qed
qed


subsection \<open>Properties\<close>

text \<open>
  C17. The strategy decides on the exact imbalance: the integer cross products of the hot path never
  overflow and say precisely whether the rational imbalance of the updated top of book is above the
  threshold or below its negative. A buy at the bid is sent when it is above and the position is flat
  or short, a sell at the ask when it is below and the position is flat or long, and nothing when the
  book is one-sided or an order is in flight; the two signals exclude each other.
\<close>

theorem strategy_decides_on_exact_imbalance:
  fixes ev :: md_event
  assumes "book_ok (st_book s)" "thr_ok s"
  defines "b \<equiv> apply_msg (ev_msg ev) (st_book s)"
  shows "fst (on_md ev s) =
      (if two_sided b \<and> \<not> st_in_flight s
       then map_option (order_for ev s b) (trade_signal (threshold s) (exact_imbalance b) (sint (st_position s)))
       else None)
    \<and> (st_in_flight (snd (on_md ev s)) \<longleftrightarrow> st_in_flight s \<or> fst (on_md ev s) \<noteq> None)
    \<and> st_book (snd (on_md ev s)) = b \<and> st_position (snd (on_md ev s)) = st_position s
    \<and> (0 \<le> threshold s \<longrightarrow> \<not> (threshold s < exact_imbalance b \<and> exact_imbalance b < - threshold s))"
  using on_md_eq [OF assms(1,2), of ev]
  by (auto simp: md_decision_def Let_def simp flip: b_def split: option.splits if_splits)

definition demo_params :: strategy_params where
  "demo_params = \<lparr>sp_base_price = 100, sp_tick = 5, sp_threshold = 1 / 4, sp_order_size = 10\<rparr>"

definition demo_strategy :: strategy where
  "demo_strategy = (strategy_init 4 demo_params)\<lparr>st_book := demo_book\<rparr>"

definition demo_tick :: md_event where
  "demo_tick = \<lparr>ev_msg = demo_msg kTrade kBuy 105 1, ev_arrival_tsc = 42\<rparr>"

lemma demo_thr_num: "st_thr_num (strategy_init 4 demo_params) = 4096"
  using b64_round_nat [of 4096] llround_of_nat [of 4096]
  by (simp add: demo_params_def strategy_init_def dmul_def kThrDen_def)

lemma demo_strategy_ok: "book_ok (st_book demo_strategy)" "thr_ok demo_strategy" "threshold demo_strategy = 1 / 4"
  using demo_book_ok(1) by (simp_all add: demo_strategy_def demo_thr_num thr_ok_def threshold_def)

lemma demo_strategy_imbalance:
  "two_sided (apply_msg (ev_msg demo_tick) demo_book)"
  "exact_imbalance (apply_msg (ev_msg demo_tick) demo_book) = 2 / 5"
  by (simp_all add: demo_tick_def demo_book_def book_eval two_sided_def has_bid_def has_ask_def
      exact_imbalance_def best_bid_size_def best_ask_size_def Let_def)

theorem strategy_decides_on_exact_imbalance_witness:
  "\<exists>ord. fst (on_md demo_tick demo_strategy) = Some ord \<and> o_side ord = side_code kBuy \<and> o_size ord = 10
     \<and> o_md_timestamp ord = 42"
  using strategy_decides_on_exact_imbalance [OF demo_strategy_ok(1,2), of demo_tick]
    demo_strategy_imbalance demo_strategy_ok(3)
  by (auto simp: trade_signal_def demo_strategy_def) (auto simp: demo_params_def strategy_init_def demo_tick_def)

text \<open>
  C18. At most one order is outstanding: over any interleaving of market data and fills the strategy sends
  at most one order more than it has seen fills, numbers its orders 1, 2, 3 and so on without gaps, and
  is in flight only after sending.
\<close>

theorem strategy_one_order_outstanding:
  assumes "strategy_run ins (strategy_init N p) = (ords, s')"
  shows "length ords \<le> fills_in ins + 1
    \<and> map o_order_id ords = map of_nat [1..<Suc (length ords)]
    \<and> st_orders_sent s' = of_nat (length ords)
    \<and> (st_in_flight s' \<longrightarrow> ords \<noteq> [])"
  using strategy_run_orders [OF assms] by simp

text \<open>A bid, an ask, the order they provoke, and its fill.\<close>

definition demo_fill :: exec_report where
  "demo_fill = zero_exec\<lparr>r_order_id := 1, r_side := side_code kBuy, r_fill_size := 10\<rparr>"

definition demo_inputs :: "strategy_input list" where
  "demo_inputs = [Md \<lparr>ev_msg = demo_msg kAdd kBuy 105 7, ev_arrival_tsc = 40\<rparr>,
     Md \<lparr>ev_msg = demo_msg kAdd kSell 110 3, ev_arrival_tsc = 41\<rparr>, Fill demo_fill]"

lemmas strategy_eval = book_eval on_md_def two_sided_def has_bid_def has_ask_def best_bid_size_def
  best_ask_size_def best_bid_price_def best_ask_price_def price_at_def kThrDen_def

lemma demo_first_tick:
  "on_md \<lparr>ev_msg = demo_msg kAdd kBuy 105 7, ev_arrival_tsc = 40\<rparr> (strategy_init 4 demo_params)
    = (None, (strategy_init 4 demo_params)\<lparr>st_md_seen := 1,
         st_book := apply_msg (demo_msg kAdd kBuy 105 7) (book_init 4 100 5)\<rparr>)"
  by (simp add: demo_params_def strategy_init_def strategy_eval Let_def)

lemma demo_second_tick:
  "\<exists>ord s'. on_md \<lparr>ev_msg = demo_msg kAdd kSell 110 3, ev_arrival_tsc = 41\<rparr>
      ((strategy_init 4 demo_params)\<lparr>st_md_seen := 1,
         st_book := apply_msg (demo_msg kAdd kBuy 105 7) (book_init 4 100 5)\<rparr>) = (Some ord, s')
    \<and> o_side ord = side_code kBuy \<and> o_size ord = 10"
  using demo_thr_num
  by (simp add: strategy_eval Let_def) (simp add: demo_params_def strategy_init_def)

theorem strategy_one_order_outstanding_witness:
  "length (fst (strategy_run demo_inputs (strategy_init 4 demo_params))) \<le> 2
   \<and> fst (strategy_run demo_inputs (strategy_init 4 demo_params)) \<noteq> []"
proof -
  have "fst (strategy_run demo_inputs (strategy_init 4 demo_params)) \<noteq> []"
    using demo_second_tick by (auto simp: demo_inputs_def demo_first_tick split: prod.splits)
  then show ?thesis
    using strategy_one_order_outstanding [OF prod.collapse [symmetric], of demo_inputs 4 demo_params]
    by (simp add: demo_inputs_def)
qed

text \<open>
  The position stays in \<open>{-order_size, 0, +order_size}\<close> as the class comment promises, as long as the
  market answers every order with one fill of its full size on its side.
\<close>

theorem strategy_position_bounded:
  assumes "answered None (strategy_init N p) ins" "strategy_run ins (strategy_init N p) = (ords, s')"
  shows "sint (st_position s') \<in> {- uint (sp_order_size p), 0, uint (sp_order_size p)}"
  using answered_position [OF assms(1) _ assms(2)] by (simp add: position_ok_def)

lemma demo_inputs_answered: "answered None (strategy_init 4 demo_params) demo_inputs"
  using demo_second_tick by (auto simp: demo_inputs_def demo_first_tick demo_fill_def)

theorem strategy_position_bounded_witness:
  "sint (st_position (snd (strategy_run demo_inputs (strategy_init 4 demo_params)))) \<in> {- 10, 0, 10}"
  using strategy_position_bounded [OF demo_inputs_answered prod.collapse [symmetric]]
  by (simp add: demo_params_def)

text \<open>
  One poll of the strategy stage applies at most the 16 oldest fills in order, then processes at most
  the oldest event: the order it emits is appended to the order queue and nothing else reaches it. The
  poll blocks in exactly one situation, an order to emit and a full order queue.
\<close>

theorem strategy_stage_poll:
  fixes sr :: strategy_runner
  assumes "spsc_inv feed" "spsc_inv orders" "spsc_inv fq"
  defines "s1 \<equiv> fold on_fill (take 16 (spsc_contents fq)) (sr_strat sr)"
  shows "case strategy_poll cal t0 t1 (sr, feed, orders, Some fq) of
      None \<Rightarrow> spsc_contents feed \<noteq> [] \<and> fst (on_md (hd (spsc_contents feed)) s1) \<noteq> None
        \<and> length (spsc_contents orders) = spsc_cap orders
    | Some (worked, sr', feed', orders', fills') \<Rightarrow>
        \<exists>fq'. fills' = Some fq' \<and> spsc_inv fq' \<and> spsc_contents fq' = drop 16 (spsc_contents fq)
        \<and> spsc_cap fq' = spsc_cap fq
        \<and> spsc_inv feed' \<and> spsc_contents feed' = tl (spsc_contents feed) \<and> spsc_cap feed' = spsc_cap feed
        \<and> spsc_inv orders' \<and> spsc_cap orders' = spsc_cap orders
        \<and> (if spsc_contents feed = []
           then \<not> worked \<and> sr' = sr\<lparr>sr_strat := s1\<rparr> \<and> orders' = orders
           else (let ev = hd (spsc_contents feed); emitted = emitted_orders ev s1 in
             worked \<and> spsc_contents orders' = spsc_contents orders @ emitted
             \<and> sr' = \<lparr>sr_strat = snd (on_md ev s1), sr_latency = record_latency cal (t1 - t0) (sr_latency sr),
                 sr_processed = sr_processed sr + 1,
                 sr_orders_pushed = sr_orders_pushed sr + of_nat (length emitted)\<rparr>))"
  unfolding s1_def by (rule strategy_poll_spec [OF assms(1-3)])

theorem strategy_stage_poll_witness:
  "strategy_poll demo_calibration 1 2 (strategy_runner_init 4 demo_params,
      spsc_init 2 demo_tick, spsc_init 2 zero_order, Some (spsc_init 2 zero_exec)) \<noteq> None"
  using strategy_stage_poll [OF spsc_inv_init [OF capacity_ok_2] spsc_inv_init [OF capacity_ok_2]
      spsc_inv_init [OF capacity_ok_2], where cal = demo_calibration and ?t0.0 = 1 and ?t1.0 = 2]
  by (fastforce split: option.splits)

end
