(* ===== verification/RiskGate.thy ===== *)
theory RiskGate
  imports WireMessages Binary64
begin

text \<open>
  \<open>include/hft/risk_gate.hpp\<close>: the pre-trade risk gate. A \<open>risk_gate\<close> holds the position and
  the limits, the state of the GCRA token bucket (\<open>cycles_per_token\<close>, \<open>tau\<close>, \<open>tat\<close>) and the
  counters. The kill flag the source loads from an atomic and the cycle counter it reads are
  arguments of \<open>risk_check\<close>; the calibrated clock rate is an argument of the constructor.

  The results are ordered as the enumeration is, so that the main theorem can say what the order of
  the checks means: the reported reason is the least failing check. The rate theorems bound the
  number of orders the bucket lets through in any window of time, from above by
  \<open>burst + 1 + window / T\<close> and exactly for a burst at one instant.
\<close>

datatype risk_result = kAccept | kKillSwitch | kOrderSizeLimit | kPositionLimit | kRateLimit

primrec risk_result_code :: "risk_result \<Rightarrow> nat" where
  "risk_result_code kAccept = 0"
| "risk_result_code kKillSwitch = 1"
| "risk_result_code kOrderSizeLimit = 2"
| "risk_result_code kPositionLimit = 3"
| "risk_result_code kRateLimit = 4"

lemma risk_result_code_inject: "risk_result_code r = risk_result_code s \<Longrightarrow> r = s"
  by (cases r; cases s) simp_all

instantiation risk_result :: linorder
begin

definition less_eq_risk_result :: "risk_result \<Rightarrow> risk_result \<Rightarrow> bool" where
  "less_eq_risk_result r s \<longleftrightarrow> risk_result_code r \<le> risk_result_code s"

definition less_risk_result :: "risk_result \<Rightarrow> risk_result \<Rightarrow> bool" where
  "less_risk_result r s \<longleftrightarrow> risk_result_code r < risk_result_code s"

instance
  by standard (auto simp: less_eq_risk_result_def less_risk_result_def dest: risk_result_code_inject)

end

record risk_limits =
  lim_max_position :: i64
  lim_max_order_size :: u32
  lim_max_orders_per_sec :: rat
  lim_burst :: u32

record risk_gate =
  position :: i64
  max_position :: i64
  max_order_size :: u32
  cycles_per_token :: u64
  tau :: u64
  tat :: u64
  accepted :: u64
  rej_kill :: u64
  rej_size :: u64
  rej_pos :: u64
  rej_rate :: u64

definition risk_gate_init :: "rat \<Rightarrow> risk_limits \<Rightarrow> risk_gate" where
  "risk_gate_init cycles_per_ns lm =
     (let hz = dmul cycles_per_ns 1000000000;
          cpt = (if 0 < lim_max_orders_per_sec lm
                 then word_of_int (trunc_rat (ddiv hz (lim_max_orders_per_sec lm))) else 0)
      in \<lparr>position = 0, max_position = lim_max_position lm, max_order_size = lim_max_order_size lm,
          cycles_per_token = cpt, tau = cpt * (if lim_burst lm \<noteq> 0 then ucast (lim_burst lm) else 1),
          tat = 0, accepted = 0, rej_kill = 0, rej_size = 0, rej_pos = 0, rej_rate = 0\<rparr>)"

definition signed_size :: "u8 \<Rightarrow> u32 \<Rightarrow> i64" where
  "signed_size sd sz = (if sd = side_code kBuy then ucast sz else - ucast sz)"

definition risk_check :: "bool \<Rightarrow> u64 \<Rightarrow> order_request \<Rightarrow> risk_gate \<Rightarrow> risk_result \<times> risk_gate" where
  "risk_check kill now ord g =
     (if kill then (kKillSwitch, g\<lparr>rej_kill := rej_kill g + 1\<rparr>)
      else if o_size ord = 0 \<or> max_order_size g < o_size ord
      then (kOrderSizeLimit, g\<lparr>rej_size := rej_size g + 1\<rparr>)
      else
        let projected = position g + signed_size (o_side ord) (o_size ord) in
        if sint (max_position g) < sint projected \<or> sint projected < sint (- max_position g)
        then (kPositionLimit, g\<lparr>rej_pos := rej_pos g + 1\<rparr>)
        else if cycles_per_token g \<noteq> 0 then
          let earliest = (if tau g < tat g then tat g - tau g else 0) in
          if now < earliest then (kRateLimit, g\<lparr>rej_rate := rej_rate g + 1\<rparr>)
          else (kAccept, g\<lparr>tat := (if tat g < now then now else tat g) + cycles_per_token g,
                           accepted := accepted g + 1\<rparr>)
        else (kAccept, g\<lparr>accepted := accepted g + 1\<rparr>))"

definition risk_allow :: "bool \<Rightarrow> u64 \<Rightarrow> order_request \<Rightarrow> risk_gate \<Rightarrow> bool \<times> risk_gate" where
  "risk_allow kill now ord g = (case risk_check kill now ord g of (r, g') \<Rightarrow> (r = kAccept, g'))"

definition risk_on_fill :: "exec_report \<Rightarrow> risk_gate \<Rightarrow> risk_gate" where
  "risk_on_fill r g =
     (if r_side r = side_code kBuy then g\<lparr>position := position g + ucast (r_fill_size r)\<rparr>
      else g\<lparr>position := position g - ucast (r_fill_size r)\<rparr>)"

definition set_position :: "i64 \<Rightarrow> risk_gate \<Rightarrow> risk_gate" where
  "set_position p g = g\<lparr>position := p\<rparr>"

text \<open>A sequence of checks, each with the flag and the clock reading it sees.\<close>

fun risk_run :: "(bool \<times> u64 \<times> order_request) list \<Rightarrow> risk_gate \<Rightarrow> risk_result list \<times> risk_gate" where
  "risk_run [] g = ([], g)"
| "risk_run ((kill, now, ord) # cs) g =
     (case risk_check kill now ord g of (r, g1) \<Rightarrow>
      case risk_run cs g1 of (rs, g2) \<Rightarrow> (r # rs, g2))"


lemma risk_run_Cons:
  "fst (risk_run ((kill, now, ord) # cs) g)
     = fst (risk_check kill now ord g) # fst (risk_run cs (snd (risk_check kill now ord g)))"
  "snd (risk_run ((kill, now, ord) # cs) g) = snd (risk_run cs (snd (risk_check kill now ord g)))"
  by (simp_all split: prod.split)

declare risk_run.simps(2) [simp del]


subsection \<open>The checks on numbers\<close>

text \<open>Which checks fail, on unbounded numbers.\<close>

definition signed_qty :: "order_request \<Rightarrow> int" where
  "signed_qty ord = (if o_side ord = side_code kBuy then uint (o_size ord) else - uint (o_size ord))"

primrec check_fails :: "risk_result \<Rightarrow> bool \<Rightarrow> u64 \<Rightarrow> order_request \<Rightarrow> risk_gate \<Rightarrow> bool" where
  "check_fails kAccept kill now ord g = False"
| "check_fails kKillSwitch kill now ord g = kill"
| "check_fails kOrderSizeLimit kill now ord g =
     (\<not> (1 \<le> unat (o_size ord) \<and> unat (o_size ord) \<le> unat (max_order_size g)))"
| "check_fails kPositionLimit kill now ord g =
     (sint (max_position g) < \<bar>sint (position g) + signed_qty ord\<bar>)"
| "check_fails kRateLimit kill now ord g =
     (0 < unat (cycles_per_token g) \<and> unat now + unat (tau g) < unat (tat g))"

definition position_fits :: "order_request \<Rightarrow> risk_gate \<Rightarrow> bool" where
  "position_fits ord g \<longleftrightarrow> in_i64 (sint (position g) + signed_qty ord) \<and> - (2 ^ 63) < sint (max_position g)"

lemma sint_signed_size: "sint (signed_size (o_side ord) (o_size ord)) = signed_qty ord"
  by (simp add: signed_size_def signed_qty_def)

lemma position_check_iff:
  assumes "position_fits ord g"
  defines "p \<equiv> position g + signed_size (o_side ord) (o_size ord)"
  shows "sint (max_position g) < sint p \<or> sint p < sint (- max_position g)
    \<longleftrightarrow> check_fails kPositionLimit kill now ord g"
proof -
  have "sint p = sint (position g) + signed_qty ord"
    using assms by (simp add: sint_add_i64 sint_signed_size position_fits_def)
  moreover have "sint (- max_position g) = - sint (max_position g)"
    using assms(1) sint_lt [of "max_position g"]
    by (intro sint_uminus_i64) (simp add: position_fits_def in_i64_def)
  ultimately show ?thesis
    by auto
qed

lemma size_check_iff:
  "o_size ord = 0 \<or> max_order_size g < o_size ord \<longleftrightarrow> check_fails kOrderSizeLimit kill now ord g"
  by (auto simp: word_less_nat_alt unat_eq_0 not_le Suc_le_eq)

lemma rate_check_iff:
  "cycles_per_token g \<noteq> 0 \<and> now < (if tau g < tat g then tat g - tau g else 0)
    \<longleftrightarrow> check_fails kRateLimit kill now ord g"
proof -
  have "now < tat g - tau g \<longleftrightarrow> unat now + unat (tau g) < unat (tat g)" if "tau g < tat g"
    using that by (simp add: word_less_nat_alt unat_sub word_le_nat_alt less_imp_le less_diff_conv)
  moreover have "\<not> unat now + unat (tau g) < unat (tat g)" if "\<not> tau g < tat g"
    using that by (simp add: word_less_nat_alt)
  ultimately show ?thesis
    by (auto simp: unat_gt_0)
qed


lemma risk_check_cases:
  obtains
    (Kill) "check_fails kKillSwitch kill now ord g"
      "risk_check kill now ord g = (kKillSwitch, g\<lparr>rej_kill := rej_kill g + 1\<rparr>)"
  | (Size) "\<not> check_fails kKillSwitch kill now ord g" "check_fails kOrderSizeLimit kill now ord g"
      "risk_check kill now ord g = (kOrderSizeLimit, g\<lparr>rej_size := rej_size g + 1\<rparr>)"
  | (Pos) "\<not> check_fails kKillSwitch kill now ord g" "\<not> check_fails kOrderSizeLimit kill now ord g"
      "position_fits ord g \<Longrightarrow> check_fails kPositionLimit kill now ord g"
      "risk_check kill now ord g = (kPositionLimit, g\<lparr>rej_pos := rej_pos g + 1\<rparr>)"
  | (Rate) "\<not> check_fails kKillSwitch kill now ord g" "\<not> check_fails kOrderSizeLimit kill now ord g"
      "position_fits ord g \<Longrightarrow> \<not> check_fails kPositionLimit kill now ord g"
      "check_fails kRateLimit kill now ord g"
      "risk_check kill now ord g = (kRateLimit, g\<lparr>rej_rate := rej_rate g + 1\<rparr>)"
  | (Accept) "\<not> check_fails kKillSwitch kill now ord g" "\<not> check_fails kOrderSizeLimit kill now ord g"
      "position_fits ord g \<Longrightarrow> \<not> check_fails kPositionLimit kill now ord g"
      "\<not> check_fails kRateLimit kill now ord g"
      "risk_check kill now ord g =
        (kAccept, g\<lparr>tat := (if cycles_per_token g = 0 then tat g
                            else (if tat g < now then now else tat g) + cycles_per_token g),
                    accepted := accepted g + 1\<rparr>)"
proof -
  let ?p = "position g + signed_size (o_side ord) (o_size ord)"
  note pos = position_check_iff [of ord g kill now]
  note size = size_check_iff [of ord g kill now]
  note rate = rate_check_iff [of g now kill ord]
  consider "kill" | "\<not> kill" "check_fails kOrderSizeLimit kill now ord g"
    | "\<not> kill" "\<not> check_fails kOrderSizeLimit kill now ord g"
        "sint (max_position g) < sint ?p \<or> sint ?p < sint (- max_position g)"
    | "\<not> kill" "\<not> check_fails kOrderSizeLimit kill now ord g"
        "\<not> (sint (max_position g) < sint ?p \<or> sint ?p < sint (- max_position g))"
        "check_fails kRateLimit kill now ord g"
    | "\<not> kill" "\<not> check_fails kOrderSizeLimit kill now ord g"
        "\<not> (sint (max_position g) < sint ?p \<or> sint ?p < sint (- max_position g))"
        "\<not> check_fails kRateLimit kill now ord g"
    by blast
  then show thesis
  proof cases
    case 1
    then show ?thesis
      by (intro Kill) (simp_all add: risk_check_def)
  next
    case 2
    then show ?thesis
      using size by (intro Size) (simp_all only: risk_check_def if_False if_True check_fails.simps simp_thms)
  next
    case 3
    then show ?thesis
      using pos size by (intro Pos) (auto simp only: risk_check_def Let_def if_False if_True check_fails.simps(2))
  next
    case 4
    then show ?thesis
      using pos size rate
      by (intro Rate) (auto simp only: risk_check_def Let_def if_False if_True check_fails.simps(2) simp_thms)
  next
    case 5
    then have "risk_check kill now ord g =
        (if cycles_per_token g \<noteq> 0 then
           (kAccept, g\<lparr>tat := (if tat g < now then now else tat g) + cycles_per_token g,
                       accepted := accepted g + 1\<rparr>)
         else (kAccept, g\<lparr>accepted := accepted g + 1\<rparr>))"
      using size rate
      by (cases "cycles_per_token g = 0") (auto simp only: risk_check_def Let_def if_False if_True simp_thms)
    then show ?thesis
      using 5 pos by (intro Accept) (auto simp del: check_fails.simps(3-))
  qed
qed

lemma risk_check_accepted:
  assumes "risk_check kill now ord g = (kAccept, g')"
  shows "\<not> kill" "\<not> check_fails kOrderSizeLimit kill now ord g"
    "position_fits ord g \<Longrightarrow> \<not> check_fails kPositionLimit kill now ord g"
    "\<not> check_fails kRateLimit kill now ord g"
    "g' = g\<lparr>tat := (if cycles_per_token g = 0 then tat g
                    else (if tat g < now then now else tat g) + cycles_per_token g),
            accepted := accepted g + 1\<rparr>"
  using assms
  by (cases rule: risk_check_cases [of kill now ord g]; simp del: check_fails.simps(3-5))+

lemma risk_check_frame [frame]:
  "risk_check kill now ord g = (r, g') \<Longrightarrow>
   position g' = position g \<and> max_position g' = max_position g \<and> max_order_size g' = max_order_size g
   \<and> cycles_per_token g' = cycles_per_token g \<and> tau g' = tau g \<and> (r \<noteq> kAccept \<longrightarrow> tat g' = tat g)"
  by (cases rule: risk_check_cases [of kill now ord g]) auto


subsection \<open>The token bucket\<close>

text \<open>The clock readings of the accepted orders of a run.\<close>

definition accepted_times :: "(bool \<times> u64 \<times> order_request) list \<Rightarrow> risk_gate \<Rightarrow> nat list" where
  "accepted_times cs g =
     map (\<lambda>((kill, now, ord), r). unat now) (filter (\<lambda>(c, r). r = kAccept) (zip cs (fst (risk_run cs g))))"

lemma accepted_times_Nil [simp]: "accepted_times [] g = []"
  by (simp add: accepted_times_def)

lemma accepted_times_Cons:
  "accepted_times ((kill, now, ord) # cs) g =
    (case risk_check kill now ord g of (r, g') \<Rightarrow>
       (if r = kAccept then [unat now] else []) @ accepted_times cs g')"
  by (simp add: accepted_times_def risk_run_Cons split: prod.split)

text \<open>
  A bucket that holds \<open>b\<close> emission intervals \<open>T\<close> of credit, with clock readings below \<open>M\<close> small enough
  for its 64-bit time stamps.
\<close>

definition bucket :: "nat \<Rightarrow> nat \<Rightarrow> nat \<Rightarrow> risk_gate \<Rightarrow> bool" where
  "bucket T b M g \<longleftrightarrow>
     0 < T \<and> unat (cycles_per_token g) = T \<and> unat (tau g) = T * b \<and> M + T * (b + 1) < 2 ^ 64"

lemma accept_moves_tat:
  assumes "bucket T b M g" "unat now \<le> M" "risk_check kill now ord g = (kAccept, g')"
  shows "unat (tat g) \<le> unat now + T * b" "unat (tat g') = max (unat (tat g)) (unat now) + T"
    "bucket T b M g'"
proof -
  have T: "0 < T" "unat (cycles_per_token g) = T" "unat (tau g) = T * b" "M + T * (b + 1) < 2 ^ 64"
    using assms(1) by (simp_all add: bucket_def)
  have *: "\<not> check_fails kRateLimit kill now ord g"
    "tat g' = (if cycles_per_token g = 0 then tat g
               else (if tat g < now then now else tat g) + cycles_per_token g)"
    using risk_check_accepted(4,5) [OF assms(3)] by simp_all
  then show le: "unat (tat g) \<le> unat now + T * b"
    using T by simp
  let ?m = "if tat g < now then now else tat g"
  have m: "unat ?m = max (unat (tat g)) (unat now)"
    by (simp add: word_less_nat_alt)
  have "unat ?m + unat (cycles_per_token g) < 2 ^ 64"
    using le assms(2) T m by (simp add: algebra_simps)
  then have "unat (?m + cycles_per_token g) = unat ?m + unat (cycles_per_token g)"
    using unat_add_lem [of ?m "cycles_per_token g"] by simp
  moreover have "cycles_per_token g \<noteq> 0"
    using T by auto
  ultimately show "unat (tat g') = max (unat (tat g)) (unat now) + T"
    using *(2) m T by simp
  show "bucket T b M g'"
    using risk_check_frame [OF assms(3)] assms(1) by (simp add: bucket_def)
qed

lemma bucket_frame: "bucket T b M g \<Longrightarrow> risk_check kill now ord g = (r, g') \<Longrightarrow> bucket T b M g'"
  using risk_check_frame [of kill now ord g r g'] by (simp add: bucket_def)

definition readings_below :: "nat \<Rightarrow> (bool \<times> u64 \<times> order_request) list \<Rightarrow> bool" where
  "readings_below M cs \<longleftrightarrow> (\<forall>(kill, now, ord) \<in> set cs. unat now \<le> M)"

lemma tat_lower_bound:
  assumes "bucket T b M g" "readings_below M cs" "x \<le> unat (tat g)" "j < length (accepted_times cs g)"
  shows "x + j * T \<le> accepted_times cs g ! j + T * b"
  using assms
proof (induction cs arbitrary: g x j)
  case (Cons c cs)
  obtain kill now ord where c: "c = (kill, now, ord)"
    by (cases c) auto
  obtain r g' where step: "risk_check kill now ord g = (r, g')"
    by (rule prod.exhaust)
  have below: "unat now \<le> M" "readings_below M cs"
    using Cons.prems(2) by (simp_all add: readings_below_def c)
  have g': "bucket T b M g'"
    using Cons.prems(1) step by (rule bucket_frame)
  show ?case
  proof (cases "r = kAccept")
    case True
    note acc = accept_moves_tat [OF Cons.prems(1) below(1) step [unfolded True]]
    show ?thesis
    proof (cases j)
      case 0
      then show ?thesis
        using acc(1) Cons.prems(3) step True by (simp add: accepted_times_Cons c)
    next
      case (Suc i)
      have "x + T \<le> unat (tat g')"
        using acc(2) Cons.prems(3) by simp
      then show ?thesis
        using Cons.IH [OF g' below(2), of "x + T" i] Cons.prems(4) step True Suc
        by (simp add: accepted_times_Cons c)
    qed
  next
    case False
    then have "tat g' = tat g"
      using risk_check_frame [OF step] by simp
    then show ?thesis
      using Cons.IH [OF g' below(2), of x j] Cons.prems step False
      by (simp add: accepted_times_Cons c)
  qed
qed simp

lemma accepted_spacing:
  assumes "bucket T b M g" "readings_below M cs" "i \<le> j" "j < length (accepted_times cs g)"
  shows "accepted_times cs g ! i + (j - i) * T \<le> accepted_times cs g ! j + T * b"
  using assms
proof (induction cs arbitrary: g i j)
  case (Cons c cs)
  obtain kill now ord where c: "c = (kill, now, ord)"
    by (cases c) auto
  obtain r g' where step: "risk_check kill now ord g = (r, g')"
    by (rule prod.exhaust)
  have below: "unat now \<le> M" "readings_below M cs"
    using Cons.prems(2) by (simp_all add: readings_below_def c)
  have g': "bucket T b M g'"
    using Cons.prems(1) step by (rule bucket_frame)
  show ?case
  proof (cases "r = kAccept")
    case True
    note acc = accept_moves_tat [OF Cons.prems(1) below(1) step [unfolded True]]
    consider "j = 0" | j' where "i = 0" "j = Suc j'" | i' j' where "i = Suc i'" "j = Suc j'" "i' \<le> j'"
      using Cons.prems(3) by (cases i; cases j) auto
    then show ?thesis
    proof cases
      case 1
      then show ?thesis using Cons.prems(3) by simp
    next
      case 2
      have "unat now + T \<le> unat (tat g')"
        using acc(2) by simp
      then show ?thesis
        using tat_lower_bound [OF g' below(2), of "unat now + T" j'] Cons.prems(4) step True 2
        by (simp add: accepted_times_Cons c)
    next
      case 3
      then show ?thesis
        using Cons.IH [OF g' below(2), of i' j'] Cons.prems(4) step True
        by (simp add: accepted_times_Cons c)
    qed
  next
    case False
    then show ?thesis
      using Cons.IH [OF g' below(2), of i j] Cons.prems step by (simp add: accepted_times_Cons c)
  qed
qed simp


text \<open>A burst at one instant: exactly \<open>b + 1\<close> orders pass a fresh bucket.\<close>

definition passes_other_checks :: "order_request \<Rightarrow> risk_gate \<Rightarrow> bool" where
  "passes_other_checks ord g \<longleftrightarrow> position_fits ord g
     \<and> \<not> check_fails kOrderSizeLimit False 0 ord g \<and> \<not> check_fails kPositionLimit False 0 ord g"

definition used :: "nat \<Rightarrow> nat \<Rightarrow> u64 \<Rightarrow> risk_gate \<Rightarrow> bool" where
  "used T k now g \<longleftrightarrow> (if k = 0 then unat (tat g) \<le> unat now else unat (tat g) = unat now + k * T)"

lemma passes_frame:
  "risk_check kill now ord g = (r, g') \<Longrightarrow> passes_other_checks ord' g' = passes_other_checks ord' g"
  using risk_check_frame [of kill now ord g r g'] by (simp add: passes_other_checks_def position_fits_def)

lemma burst_accept:
  assumes "bucket T b (unat now) g" "passes_other_checks ord g" "used T k now g" "k \<le> b"
  obtains g' where "risk_check False now ord g = (kAccept, g')" "used T (k + 1) now g'"
proof -
  have "k * T \<le> T * b"
    using assms(4) by (simp add: mult.commute)
  then have "\<not> check_fails kRateLimit False now ord g"
    using assms(1,3) by (auto simp: used_def bucket_def split: if_splits)
  then have acc: "fst (risk_check False now ord g) = kAccept"
    using assms(2)
    by (cases rule: risk_check_cases [of False now ord g])
      (auto simp: passes_other_checks_def simp del: check_fails.simps(5))
  then obtain g' where g': "risk_check False now ord g = (kAccept, g')"
    by (metis prod.collapse)
  have "used T (k + 1) now g'"
    using accept_moves_tat(2) [OF assms(1) order_refl g'] assms(3)
    by (auto simp: used_def max_def split: if_splits)
  with g' show thesis
    by (rule that)
qed

lemma burst_reject:
  assumes "bucket T b (unat now) g" "passes_other_checks ord g" "used T k now g" "b < k"
  shows "risk_check False now ord g = (kRateLimit, g\<lparr>rej_rate := rej_rate g + 1\<rparr>)"
proof -
  have "T * b < k * T" "0 < T"
    using assms(1,4) by (simp_all add: bucket_def mult.commute)
  then have "check_fails kRateLimit False now ord g"
    using assms(1,3,4) by (auto simp: used_def bucket_def split: if_splits)
  then show ?thesis
    using assms(2)
    by (cases rule: risk_check_cases [of False now ord g])
      (auto simp: passes_other_checks_def simp del: check_fails.simps(5))
qed

lemma burst_run:
  assumes "bucket T b (unat now) g" "passes_other_checks ord g" "used T k now g"
  shows "fst (risk_run (replicate n (False, now, ord)) g)
    = replicate (min n (b + 1 - k)) kAccept @ replicate (n - (b + 1 - k)) kRateLimit"
  using assms
proof (induction n arbitrary: g k)
  case (Suc n)
  show ?case
  proof (cases "k \<le> b")
    case True
    then obtain g' where g': "risk_check False now ord g = (kAccept, g')" "used T (k + 1) now g'"
      using burst_accept [OF Suc.prems] by blast
    then have "fst (risk_run (replicate n (False, now, ord)) g')
        = replicate (min n (b + 1 - (k + 1))) kAccept @ replicate (n - (b + 1 - (k + 1))) kRateLimit"
      using Suc.prems passes_frame [OF g'(1)] by (intro Suc.IH bucket_frame [OF Suc.prems(1) g'(1)]) simp_all
    moreover have "b + 1 - k = Suc (b - k)"
      using True by simp
    ultimately show ?thesis
      using g'(1) by (simp add: risk_run_Cons)
  next
    case False
    then have g': "risk_check False now ord g = (kRateLimit, g\<lparr>rej_rate := rej_rate g + 1\<rparr>)"
      using burst_reject [OF Suc.prems] by simp
    have "fst (risk_run (replicate n (False, now, ord)) (g\<lparr>rej_rate := rej_rate g + 1\<rparr>))
        = replicate (min n (b + 1 - k)) kAccept @ replicate (n - (b + 1 - k)) kRateLimit"
      using Suc.prems passes_frame [OF g'] by (intro Suc.IH bucket_frame [OF Suc.prems(1) g']) (simp_all add: used_def)
    then show ?thesis
      using False g' by (simp add: risk_run_Cons)
  qed
qed simp


subsection \<open>Properties\<close>

text \<open>
  C3. The gate accepts an order exactly when no check fails, and otherwise reports the least
  failing check in the order of the enumeration: kill switch, size, projected position (on unbounded
  numbers, for positions that stay in 64 bits), rate. No check moves the position, and
  a rejected order leaves the token bucket as it was.
\<close>

theorem risk_check_first_failure:
  fixes kill :: bool and now :: u64
  assumes "position_fits ord g"
  defines "F \<equiv> {r. check_fails r kill now ord g}"
  shows "fst (risk_check kill now ord g) = (if F = {} then kAccept else Min F)
    \<and> position (snd (risk_check kill now ord g)) = position g
    \<and> (fst (risk_check kill now ord g) \<noteq> kAccept \<longrightarrow> tat (snd (risk_check kill now ord g)) = tat g)"
proof -
  have "r \<in> {kAccept, kKillSwitch, kOrderSizeLimit, kPositionLimit, kRateLimit}" for r
    by (cases r) simp_all
  then have "F \<subseteq> {kAccept, kKillSwitch, kOrderSizeLimit, kPositionLimit, kRateLimit}"
    by blast
  then have fin: "finite F"
    by (rule finite_subset) simp
  have F: "r \<in> F \<longleftrightarrow> check_fails r kill now ord g" for r
    by (simp add: F_def)
  have "fst (risk_check kill now ord g) = (if F = {} then kAccept else Min F)"
  proof (cases "fst (risk_check kill now ord g) = kAccept")
    case True
    then have "\<not> check_fails r kill now ord g" for r
      using risk_check_accepted [of kill now ord g "snd (risk_check kill now ord g)"] assms(1)
      by (cases r) (simp_all add: prod_eq_iff del: check_fails.simps(3-5))
    then have "F = {}"
      using F by blast
    with True show ?thesis by simp
  next
    case False
    let ?r = "fst (risk_check kill now ord g)"
    have "check_fails ?r kill now ord g \<and> (\<forall>s. check_fails s kill now ord g \<longrightarrow> ?r \<le> s)"
    proof (intro conjI allI impI)
      show "check_fails ?r kill now ord g"
        using False assms(1) by (cases rule: risk_check_cases [of kill now ord g]) (simp_all del: check_fails.simps(3-5))
      show "?r \<le> s" if "check_fails s kill now ord g" for s
        using that False assms(1)
        by (cases rule: risk_check_cases [of kill now ord g]; cases s)
          (simp_all add: less_eq_risk_result_def del: check_fails.simps(3-5))
    qed
    then have "?r \<in> F" "\<And>s. s \<in> F \<Longrightarrow> ?r \<le> s"
      using F by blast+
    then show ?thesis
      using fin by (metis Min_eqI empty_iff)
  qed
  then show ?thesis
    using risk_check_frame [of kill now ord g] by (metis prod.collapse)
qed

definition demo_limits :: risk_limits where
  "demo_limits = \<lparr>lim_max_position = 1000, lim_max_order_size = 600, lim_max_orders_per_sec = 0, lim_burst = 1\<rparr>"

definition demo_order :: "u64 \<Rightarrow> side \<Rightarrow> u32 \<Rightarrow> order_request" where
  "demo_order oid s sz = zero_order\<lparr>o_order_id := oid, o_side := side_code s, o_size := sz\<rparr>"

lemmas risk_eval = demo_limits_def demo_order_def zero_order_def risk_gate_init_def position_fits_def
  signed_qty_def in_i64_def

lemma demo_fits_gate: "position_fits (demo_order 1 kBuy 700) (risk_gate_init 1 demo_limits)"
  by (simp add: risk_eval)

theorem risk_check_first_failure_witness:
  "position (snd (risk_check False 0 (demo_order 1 kBuy 700) (risk_gate_init 1 demo_limits)))
     = position (risk_gate_init 1 demo_limits)"
  using risk_check_first_failure [OF demo_fits_gate] by blast


text \<open>
  C4. The rate limit: in every run, whatever the other checks decide and however the clock readings
  are ordered, the accepted orders from the \<open>i\<close>-th to the \<open>j\<close>-th are spaced so that \<open>j - i\<close> emission
  intervals fit between their times plus the burst tolerance. So a window of length \<open>w\<close> holds at most
  \<open>b + 1 + w / T\<close> accepted orders.
\<close>

theorem risk_rate_bound:
  assumes "bucket T b M g" "readings_below M cs" "i \<le> j" "j < length (accepted_times cs g)"
    and "accepted_times cs g ! i \<le> accepted_times cs g ! j"
  shows "j - i \<le> b + (accepted_times cs g ! j - accepted_times cs g ! i) div T"
proof -
  let ?w = "accepted_times cs g ! j - accepted_times cs g ! i"
  have T: "0 < T"
    using assms(1) by (simp add: bucket_def)
  have "(j - i) * T \<le> ?w + b * T"
    using accepted_spacing [OF assms(1-4)] assms(5) by (simp add: mult.commute)
  then have "j - i \<le> (?w + b * T) div T"
    by (simp only: less_eq_div_iff_mult_less_eq [OF T])
  also have "\<dots> = b + ?w div T"
    using T by simp
  finally show ?thesis .
qed

definition demo_gate :: risk_gate where
  "demo_gate = (risk_gate_init 1 demo_limits)\<lparr>cycles_per_token := 100, tau := 100\<rparr>"

definition demo_checks :: "(bool \<times> u64 \<times> order_request) list" where
  "demo_checks = [(False, 10, demo_order 1 kBuy 5), (False, 20, demo_order 2 kBuy 5), (False, 110, demo_order 3 kBuy 5)]"

lemma demo_bucket: "bucket 100 1 1000 demo_gate" "readings_below 1000 demo_checks"
  by (simp_all add: bucket_def demo_gate_def readings_below_def demo_checks_def)

lemma demo_accepted: "accepted_times demo_checks demo_gate = [10, 20, 110]"
  by (simp add: demo_checks_def accepted_times_Cons risk_check_def demo_gate_def risk_eval signed_size_def Let_def)

theorem risk_rate_bound_witness: "(2::nat) - 0 \<le> 1 + (110 - 10) div 100"
  using risk_rate_bound [OF demo_bucket, of 0 2] unfolding demo_accepted by simp

text \<open>
  C9. Back to back, at one instant, an idle bucket lets through exactly \<open>b + 1\<close> orders and rejects the
  rest, where \<open>b\<close> is the configured burst (or 1 when that is 0): one more than the documented
  depth of the bucket.
\<close>

theorem risk_burst_exact:
  assumes "bucket T b (unat now) g" "passes_other_checks ord g" "tat g \<le> now"
  shows "fst (risk_run (replicate n (False, now, ord)) g)
    = replicate (min n (b + 1)) kAccept @ replicate (n - (b + 1)) kRateLimit"
  using burst_run [OF assms(1,2), of 0 n] assms(3) by (simp add: used_def word_le_nat_alt)

lemma demo_passes: "passes_other_checks (demo_order 1 kBuy 5) demo_gate"
  by (simp add: passes_other_checks_def demo_gate_def risk_eval)

theorem risk_burst_exact_witness:
  "fst (risk_run (replicate 3 (False, 7, demo_order 1 kBuy 5)) demo_gate) = [kAccept, kAccept, kRateLimit]"
proof -
  have "bucket 100 1 (unat (7 :: u64)) demo_gate" "tat demo_gate \<le> 7"
    by (simp_all add: bucket_def demo_gate_def risk_gate_init_def Let_def)
  from risk_burst_exact [OF this(1) demo_passes this(2), of 3] show ?thesis
    by (simp add: numeral_2_eq_2)
qed

lemma accept_within_limits:
  assumes "position g = 0" "cycles_per_token g = 0" "o_side ord = side_code kBuy" "o_size ord \<noteq> 0"
    and "o_size ord \<le> max_order_size g" "max_position g = ucast (M :: u32)" "o_size ord \<le> M"
  shows "risk_check False now ord g = (kAccept, g\<lparr>accepted := accepted g + 1\<rparr>)"
proof -
  have "uint (o_size ord) \<le> uint M"
    using assms(7) by (simp add: word_le_def)
  moreover have "0 \<le> uint (o_size ord)" "0 \<le> uint M"
    by simp_all
  ultimately have "uint (o_size ord) \<le> uint M" "- uint M \<le> uint (o_size ord)"
    by linarith+
  then show ?thesis
    using assms by (simp add: risk_check_def signed_size_def Let_def not_less leD)
qed

text \<open>
  C13. The position limit does not count orders that are accepted but not yet filled: two buys, each
  within the limit on its own, are both accepted although together they exceed it, and when both
  fill the position is beyond the limit.
\<close>

theorem risk_position_ignores_open_orders:
  fixes t t' :: u64 and M :: u32
  assumes "position g = 0" "cycles_per_token g = 0" "o_side ord = side_code kBuy" "o_size ord \<noteq> 0"
    and "o_size ord \<le> max_order_size g" "max_position g = ucast M" "o_size ord \<le> M"
    and "unat M < 2 * unat (o_size ord)"
    and "r_side r = side_code kBuy" "r_fill_size r = o_size ord"
  defines "g2 \<equiv> snd (risk_run [(False, t, ord), (False, t', ord)] g)"
  shows "fst (risk_run [(False, t, ord), (False, t', ord)] g) = [kAccept, kAccept]
    \<and> sint (max_position g2) < sint (position (risk_on_fill r (risk_on_fill r g2)))"
proof -
  note acc = accept_within_limits [OF assms(1-7)]
  have run: "risk_run [(False, t, ord), (False, t', ord)] g
      = ([kAccept, kAccept], g\<lparr>accepted := accepted g + 1 + 1\<rparr>)"
    using accept_within_limits [of "g\<lparr>accepted := accepted g + 1\<rparr>" ord M t'] assms(1-7)
    by (simp add: acc risk_run_Cons prod_eq_iff)
  have "position (risk_on_fill r (risk_on_fill r g2)) = ucast (o_size ord) + ucast (o_size ord)"
    using assms by (simp add: g2_def run risk_on_fill_def)
  moreover have "sint (ucast (o_size ord) + ucast (o_size ord) :: i64) = uint (o_size ord) + uint (o_size ord)"
  proof (subst sint_add_i64)
    have "in_i64 (uint (o_size ord) + uint (o_size ord))"
      using uint_u32_bounds [of "o_size ord"] by (intro in_i64I) linarith+
    then show "in_i64 (sint (ucast (o_size ord) :: i64) + sint (ucast (o_size ord) :: i64))"
      by simp
  qed simp
  moreover have "uint M < uint (o_size ord) + uint (o_size ord)"
  proof -
    have "int (unat M) < int (2 * unat (o_size ord))"
      using assms(8) by (simp only: of_nat_less_iff)
    then show ?thesis by simp
  qed
  ultimately show ?thesis
    using assms(6) by (simp add: run g2_def)
qed

theorem risk_position_ignores_open_orders_witness:
  "fst (risk_run [(False, 0, demo_order 1 kBuy 600), (False, 0, demo_order 1 kBuy 600)]
        (risk_gate_init 1 demo_limits)) = [kAccept, kAccept]"
  using risk_position_ignores_open_orders
    [of "risk_gate_init 1 demo_limits" "demo_order 1 kBuy 600" 1000
      "zero_exec\<lparr>r_side := 66, r_fill_size := 600\<rparr>" 0 0]
  by (simp add: risk_eval word_le_nat_alt)

definition all_checks :: "risk_gate \<Rightarrow> u64" where
  "all_checks g = accepted g + rej_kill g + rej_size g + rej_pos g + rej_rate g"

lemma risk_check_counts:
  "accepted (snd (risk_check kill now ord g)) = accepted g + of_bool (fst (risk_check kill now ord g) = kAccept)"
  "all_checks (snd (risk_check kill now ord g)) = all_checks g + 1"
  by (cases rule: risk_check_cases [of kill now ord g]; simp add: all_checks_def)+

text \<open>
  The counters account for every check: over any run their sum grows by the number of checks,
  modulo \<open>2 ^ 64\<close>, and the accepted counter grows by the number of accepted orders.
\<close>

theorem risk_counters_complete:
  "all_checks (snd (risk_run cs g)) = all_checks g + of_nat (length cs)
  \<and> accepted (snd (risk_run cs g))
      = accepted g + of_nat (length (filter (\<lambda>r. r = kAccept) (fst (risk_run cs g))))"
proof (induction cs arbitrary: g)
  case (Cons c cs)
  obtain kill now ord where c: "c = (kill, now, ord)"
    by (cases c) auto
  show ?case
    using Cons.IH [of "snd (risk_check kill now ord g)"]
    by (simp add: c risk_run_Cons risk_check_counts)
qed simp

end
