(* ===== verification/OrderGateway.thy ===== *)
theory OrderGateway
  imports Strategy RiskGate
begin

text \<open>
  \<open>include/hft/order_gateway.hpp\<close>: the stage between the order queue and the wire. It checks every
  order against the risk gate, enters the accepted ones in the direct-mapped in-flight table
  (index \<open>order_id & kMask\<close>; \<open>InFlightCapacity\<close> is the length of \<open>gw_inflight\<close>), sends them, and
  matches the reports that come back.

  The sockets are outside: \<open>inbox\<close> lists the datagrams waiting on the fill socket and the last component
  of a poll's result is the datagram handed to \<open>send_to\<close>, if any. A receive stores at most the
  buffer's 40 bytes and returns their number. Clock readings and the kill flag are arguments.
  \<^const>\<open>None\<close> as the result of a poll is the unbounded wait for room in the fill queue.
\<close>

record in_flight =
  if_order_id :: u64
  if_send_tsc :: u64
  if_md_tsc :: u64
  if_active :: bool

record gateway =
  gw_risk :: risk_gate
  gw_inflight :: "in_flight list"
  gw_latency :: hist
  gw_e2e :: hist
  gw_round_trip :: hist
  gw_sent :: u64
  gw_risk_rejected :: u64
  gw_fills_matched :: u64
  gw_fills_unmatched :: u64

definition kInFlightCapacity :: nat where
  "kInFlightCapacity = 4096"

definition gateway_init :: "nat \<Rightarrow> rat \<Rightarrow> risk_limits \<Rightarrow> gateway" where
  "gateway_init capacity cpn lm =
     \<lparr>gw_risk = risk_gate_init cpn lm,
      gw_inflight = replicate capacity \<lparr>if_order_id = 0, if_send_tsc = 0, if_md_tsc = 0, if_active = False\<rparr>,
      gw_latency = default_hist, gw_e2e = default_hist, gw_round_trip = default_hist,
      gw_sent = 0, gw_risk_rejected = 0, gw_fills_matched = 0, gw_fills_unmatched = 0\<rparr>"

definition in_flight_idx :: "gateway \<Rightarrow> u64 \<Rightarrow> nat" where
  "in_flight_idx gw order_id = unat (order_id AND (of_nat (length (gw_inflight gw)) - 1))"

definition handle_fill ::
    "tsc_calibration \<Rightarrow> u64 \<Rightarrow> exec_report \<Rightarrow> gateway \<times> exec_report spsc \<Rightarrow> (gateway \<times> exec_report spsc) option" where
  "handle_fill cal now rep st =
     (let (gw, fills_out) = st;
          idx = in_flight_idx gw (r_order_id rep);
          slot = gw_inflight gw ! idx
      in if if_active slot \<and> if_order_id slot = r_order_id rep
         then
           let gw = gw\<lparr>gw_inflight := (gw_inflight gw)[idx := slot\<lparr>if_active := False\<rparr>],
                       gw_fills_matched := gw_fills_matched gw + 1,
                       gw_risk := risk_on_fill rep (gw_risk gw),
                       gw_round_trip :=
                         (if r_md_timestamp rep \<noteq> 0
                          then record_latency cal (now - r_md_timestamp rep) (gw_round_trip gw)
                          else gw_round_trip gw)\<rparr>
           in map_option (\<lambda>fills_out. (gw, fills_out)) (push_wait spsc_push fills_out rep)
         else Some (gw\<lparr>gw_fills_unmatched := gw_fills_unmatched gw + 1\<rparr>, fills_out))"

text \<open>The loop over at most \<open>d\<close> receives; a short datagram ends it and is gone.\<close>

fun drain_fills ::
    "tsc_calibration \<Rightarrow> (nat \<Rightarrow> u64) \<Rightarrow> nat \<Rightarrow> u8 list list \<Rightarrow> gateway \<times> exec_report spsc
     \<Rightarrow> (u8 list list \<times> gateway \<times> exec_report spsc) option" where
  "drain_fills cal clock 0 inbox st = Some (inbox, st)"
| "drain_fills cal clock (Suc d) [] st = Some ([], st)"
| "drain_fills cal clock (Suc d) (bs # inbox) st =
     (if length (take kExecSize bs) \<noteq> kExecSize then Some (inbox, st)
      else (case handle_fill cal (clock d) (parse_exec (take kExecSize bs)) st of
              None \<Rightarrow> None
            | Some st' \<Rightarrow> drain_fills cal clock d inbox st'))"

lemma drain_fills_no_input [simp]: "drain_fills cal clock d [] st = Some ([], st)"
  by (cases d) simp_all

definition register_order :: "order_request \<Rightarrow> u64 \<Rightarrow> gateway \<Rightarrow> gateway" where
  "register_order ord send_t gw =
     gw\<lparr>gw_inflight := (gw_inflight gw)[in_flight_idx gw (o_order_id ord) :=
          \<lparr>if_order_id = o_order_id ord, if_send_tsc = send_t, if_md_tsc = o_md_timestamp ord,
           if_active = True\<rparr>]\<rparr>"

text \<open>
  What a poll reads from outside: the kill flag, the clock at the dequeue, in the rate check and at the
  send, and the clock at each matched report.
\<close>

record poll_env =
  pe_kill :: bool
  pe_t0 :: u64
  pe_check_now :: u64
  pe_send_t :: u64
  pe_fill_clock :: "nat \<Rightarrow> u64"

text \<open>The second half of a poll: at most one order is taken, checked and sent.\<close>

definition gateway_send ::
    "tsc_calibration \<Rightarrow> poll_env \<Rightarrow> gateway \<times> order_request spsc
     \<Rightarrow> bool \<times> (gateway \<times> order_request spsc) \<times> u8 list option" where
  "gateway_send cal env st =
     (let (gw, orders) = st in
      case spsc_pop orders of
        (None, orders) \<Rightarrow> (False, (gw, orders), None)
      | (Some ord, orders) \<Rightarrow>
          (let (rr, risk) = risk_check (pe_kill env) (pe_check_now env) ord (gw_risk gw);
               gw = gw\<lparr>gw_risk := risk\<rparr>
           in if rr \<noteq> kAccept
              then (True, (gw\<lparr>gw_risk_rejected := gw_risk_rejected gw + 1\<rparr>, orders), None)
              else
                let gw = register_order ord (pe_send_t env) gw;
                    gw = gw\<lparr>gw_latency := record_latency cal (pe_send_t env - pe_t0 env) (gw_latency gw),
                            gw_e2e := (if o_md_timestamp ord \<noteq> 0
                                       then record_latency cal (pe_send_t env - o_md_timestamp ord) (gw_e2e gw)
                                       else gw_e2e gw),
                            gw_sent := gw_sent gw + 1\<rparr>
                in (True, (gw, orders), Some (encode_order ord))))"

definition gateway_poll ::
    "tsc_calibration \<Rightarrow> poll_env \<Rightarrow> u8 list list
     \<Rightarrow> gateway \<times> order_request spsc \<times> exec_report spsc
     \<Rightarrow> (bool \<times> u8 list list \<times> (gateway \<times> order_request spsc \<times> exec_report spsc) \<times> u8 list option) option" where
  "gateway_poll cal env inbox st =
     (let (gw, orders, fills_out) = st in
      case drain_fills cal (pe_fill_clock env) 32 inbox (gw, fills_out) of
        None \<Rightarrow> None
      | Some (inbox, gw, fills_out) \<Rightarrow>
          (case gateway_send cal env (gw, orders) of
             (worked, (gw, orders), out) \<Rightarrow> Some (worked, inbox, (gw, orders, fills_out), out)))"


subsection \<open>Keeping a position\<close>

text \<open>
  The strategy and the risk gate each keep a position and update it by the same rule. The contract:
  a fill moves the position by the report's signed quantity. Two keepers that have seen the same
  fills then differ by a constant.
\<close>

definition fill_delta :: "exec_report \<Rightarrow> i64" where
  "fill_delta r = (if r_side r = side_code kBuy then ucast (r_fill_size r) else - ucast (r_fill_size r))"

definition net_fill :: "exec_report list \<Rightarrow> i64" where
  "net_fill rs = sum_list (map fill_delta rs)"

lemma net_fill_simps [simp]:
  "net_fill [] = 0" "net_fill (r # rs) = fill_delta r + net_fill rs" "net_fill (rs @ rs') = net_fill rs + net_fill rs'"
  by (simp_all add: net_fill_def)

locale position_keeper =
  fixes take_fill :: "exec_report \<Rightarrow> 's \<Rightarrow> 's"
    and pos :: "'s \<Rightarrow> i64"
  assumes take_fill_pos: "pos (take_fill r s) = pos s + fill_delta r"
begin

lemma fold_pos: "pos (fold take_fill rs s) = pos s + net_fill rs"
  by (induction rs arbitrary: s) (simp_all add: take_fill_pos)

end

interpretation strategy_position: position_keeper on_fill st_position
  by unfold_locales (simp add: on_fill_def fill_delta_def)

interpretation risk_position: position_keeper risk_on_fill position
  by unfold_locales (simp add: risk_on_fill_def fill_delta_def)


subsection \<open>The in-flight table\<close>

definition outstanding :: "gateway \<Rightarrow> u64 \<Rightarrow> bool" where
  "outstanding gw x \<longleftrightarrow> if_active (gw_inflight gw ! in_flight_idx gw x)
     \<and> if_order_id (gw_inflight gw ! in_flight_idx gw x) = x"

definition table_ok :: "gateway \<Rightarrow> bool" where
  "table_ok gw \<longleftrightarrow> capacity_ok (length (gw_inflight gw))"

lemma in_flight_idx_mod: "table_ok gw \<Longrightarrow> in_flight_idx gw x = unat x mod length (gw_inflight gw)"
proof -
  assume "table_ok gw"
  then obtain k where "k < 64" "length (gw_inflight gw) = 2 ^ k"
    unfolding table_ok_def by (rule capacity_ok_power)
  then show ?thesis
    using unat_and_mask [of k "unat x"] by (simp add: in_flight_idx_def)
qed

lemma in_flight_idx_less: "table_ok gw \<Longrightarrow> in_flight_idx gw x < length (gw_inflight gw)"
  using capacity_lt [of "length (gw_inflight gw)"] by (simp add: in_flight_idx_mod) (simp add: table_ok_def)

lemma table_ok_init [simp]: "capacity_ok n \<Longrightarrow> table_ok (gateway_init n cpn lm)"
  by (simp add: table_ok_def gateway_init_def)

lemma not_outstanding_init: "capacity_ok n \<Longrightarrow> \<not> outstanding (gateway_init n cpn lm) x"
  using in_flight_idx_less [OF table_ok_init, of n cpn lm x]
  by (simp add: outstanding_def) (simp add: gateway_init_def)

lemma register_order_outstanding:
  assumes "table_ok gw"
  shows "table_ok (register_order ord t gw)"
    and "outstanding (register_order ord t gw) x \<longleftrightarrow>
      x = o_order_id ord \<or> outstanding gw x \<and> in_flight_idx gw x \<noteq> in_flight_idx gw (o_order_id ord)"
  using assms in_flight_idx_less [OF assms, of "o_order_id ord"]
  by (auto simp: register_order_def table_ok_def outstanding_def in_flight_idx_def nth_list_update)

text \<open>A matched report clears its own slot and no other.\<close>

definition match_fill :: "tsc_calibration \<Rightarrow> u64 \<Rightarrow> exec_report \<Rightarrow> gateway \<Rightarrow> gateway" where
  "match_fill cal now rep gw =
     gw\<lparr>gw_inflight := (gw_inflight gw)[in_flight_idx gw (r_order_id rep) :=
            (gw_inflight gw ! in_flight_idx gw (r_order_id rep))\<lparr>if_active := False\<rparr>],
        gw_fills_matched := gw_fills_matched gw + 1, gw_risk := risk_on_fill rep (gw_risk gw),
        gw_round_trip := (if r_md_timestamp rep \<noteq> 0
           then record_latency cal (now - r_md_timestamp rep) (gw_round_trip gw) else gw_round_trip gw)\<rparr>"

lemma match_fill_outstanding:
  assumes "table_ok gw"
  shows "table_ok (match_fill cal now rep gw)"
    and "outstanding (match_fill cal now rep gw) x \<longleftrightarrow>
      outstanding gw x \<and> in_flight_idx gw x \<noteq> in_flight_idx gw (r_order_id rep)"
  using assms in_flight_idx_less [OF assms, of "r_order_id rep"]
  by (auto simp: match_fill_def table_ok_def outstanding_def in_flight_idx_def nth_list_update)

lemma handle_fill_cases:
  assumes "spsc_inv fq"
  obtains (matched) fq' where "outstanding gw (r_order_id rep)"
      "handle_fill cal now rep (gw, fq) = Some (match_fill cal now rep gw, fq')"
      "spsc_inv fq'" "spsc_cap fq' = spsc_cap fq" "spsc_contents fq' = spsc_contents fq @ [rep]"
  | (unmatched) "\<not> outstanding gw (r_order_id rep)"
      "handle_fill cal now rep (gw, fq) = Some (gw\<lparr>gw_fills_unmatched := gw_fills_unmatched gw + 1\<rparr>, fq)"
  | (blocked) "outstanding gw (r_order_id rep)" "handle_fill cal now rep (gw, fq) = None"
      "length (spsc_contents fq) = spsc_cap fq"
proof (cases "outstanding gw (r_order_id rep)")
  case True
  then have eq: "handle_fill cal now rep (gw, fq)
      = map_option (\<lambda>fq. (match_fill cal now rep gw, fq)) (push_wait spsc_push fq rep)"
    by (simp add: handle_fill_def match_fill_def outstanding_def Let_def)
  show thesis
  proof (cases "push_wait spsc_push fq rep")
    case None
    then show ?thesis
      using True eq push_wait_spsc(1) [OF assms] by (intro blocked) simp_all
  next
    case (Some fq')
    then show ?thesis
      using True eq push_wait_spsc(2) [OF assms Some] by (intro matched [of fq']) simp_all
  qed
next
  case False
  then show thesis
    by (intro unmatched) (auto simp: handle_fill_def outstanding_def Let_def)
qed

lemma outstanding_inj:
  "outstanding gw x \<Longrightarrow> outstanding gw y \<Longrightarrow> in_flight_idx gw x = in_flight_idx gw y \<Longrightarrow> x = y"
  by (simp add: outstanding_def)

lemma outstanding_counter [simp]:
  "outstanding (gw\<lparr>gw_fills_unmatched := n\<rparr>) x = outstanding gw x"
  "outstanding (gw\<lparr>gw_risk := g\<rparr>) x = outstanding gw x"
  "outstanding (gw\<lparr>gw_sent := n\<rparr>) x = outstanding gw x"
  "outstanding (gw\<lparr>gw_risk_rejected := n\<rparr>) x = outstanding gw x"
  "outstanding (gw\<lparr>gw_latency := h\<rparr>) x = outstanding gw x"
  "outstanding (gw\<lparr>gw_e2e := h\<rparr>) x = outstanding gw x"
  by (simp_all add: outstanding_def in_flight_idx_def)

lemma table_ok_counter [simp]:
  "table_ok (gw\<lparr>gw_fills_unmatched := n\<rparr>) = table_ok gw" "table_ok (gw\<lparr>gw_risk := g\<rparr>) = table_ok gw"
  "table_ok (gw\<lparr>gw_sent := n\<rparr>) = table_ok gw" "table_ok (gw\<lparr>gw_risk_rejected := n\<rparr>) = table_ok gw"
  "table_ok (gw\<lparr>gw_latency := h\<rparr>) = table_ok gw" "table_ok (gw\<lparr>gw_e2e := h\<rparr>) = table_ok gw"
  by (simp_all add: table_ok_def)

text \<open>
  What happened between two states of the gateway: the orders \<open>ords\<close> were sent and the reports \<open>fwd\<close>
  forwarded. Sends and matches account for every slot of the table.
\<close>

definition gw_progress :: "gateway \<Rightarrow> order_request list \<Rightarrow> exec_report list \<Rightarrow> gateway \<Rightarrow> bool" where
  "gw_progress gw ords fwd gw' \<longleftrightarrow> table_ok gw' \<and>
     (\<forall>x. of_bool (outstanding gw' x) + count_list (map r_order_id fwd) x
          \<le> (of_bool (outstanding gw x) :: nat) + count_list (map o_order_id ords) x) \<and>
     position (gw_risk gw') = position (gw_risk gw) + net_fill fwd \<and>
     gw_fills_matched gw' = gw_fills_matched gw + of_nat (length fwd) \<and>
     gw_sent gw' = gw_sent gw + of_nat (length ords)"

lemma gw_progress_refl: "table_ok gw \<Longrightarrow> gw_progress gw [] [] gw"
  by (simp add: gw_progress_def)

lemma gw_progress_trans:
  assumes "gw_progress gw ords fwd gw1" "gw_progress gw1 ords' fwd' gw2"
  shows "gw_progress gw (ords @ ords') (fwd @ fwd') gw2"
proof -
  have "of_bool (outstanding gw2 x) + count_list (map r_order_id (fwd @ fwd')) x
      \<le> (of_bool (outstanding gw x) :: nat) + count_list (map o_order_id (ords @ ords')) x" for x
    using assms unfolding gw_progress_def by (auto dest!: spec [of _ x])
  with assms show ?thesis
    by (simp add: gw_progress_def)
qed

lemma match_fill_progress:
  assumes "table_ok gw" "outstanding gw (r_order_id rep)"
  shows "gw_progress gw [] [rep] (match_fill cal now rep gw)"
  using assms match_fill_outstanding [OF assms(1)] outstanding_inj [OF _ assms(2)]
  by (auto simp: gw_progress_def risk_position.take_fill_pos) (auto simp: match_fill_def risk_position.take_fill_pos)

text \<open>Draining the socket: the forwarded reports come from it and account exactly for the slots cleared.\<close>

definition took_from :: "u8 list list \<Rightarrow> gateway \<Rightarrow> exec_report list \<Rightarrow> gateway \<Rightarrow> bool" where
  "took_from inbox gw fwd gw' \<longleftrightarrow>
     set fwd \<subseteq> (\<lambda>bs. parse_exec (take kExecSize bs)) ` set inbox \<and>
     (\<forall>x. of_bool (outstanding gw' x) + count_list (map r_order_id fwd) x = (of_bool (outstanding gw x) :: nat))"

lemma took_from_refl: "took_from inbox gw [] gw"
  by (simp add: took_from_def)

lemma took_from_match:
  assumes "table_ok gw" "outstanding gw (r_order_id rep)"
    and "took_from inbox (match_fill cal now rep gw) fwd gw'" "rep = parse_exec (take kExecSize bs)"
  shows "took_from (bs # inbox) gw (rep # fwd) gw'"
  unfolding took_from_def
proof (intro conjI allI)
  show "set (rep # fwd) \<subseteq> (\<lambda>bs. parse_exec (take kExecSize bs)) ` set (bs # inbox)"
    using assms(3,4) by (auto simp: took_from_def)
  fix x
  have "of_bool (outstanding gw' x) + count_list (map r_order_id fwd) x
      = (of_bool (outstanding (match_fill cal now rep gw) x) :: nat)"
    using assms(3) unfolding took_from_def by blast
  then show "of_bool (outstanding gw' x) + count_list (map r_order_id (rep # fwd)) x = (of_bool (outstanding gw x) :: nat)"
    using match_fill_outstanding(2) [OF assms(1), of cal now rep x] outstanding_inj [OF _ assms(2), of x] assms(2)
    by auto
qed

lemma drain_fills_spec:
  assumes "drain_fills cal clock d inbox (gw, fq) = Some (inbox', gw', fq')" "spsc_inv fq" "table_ok gw"
  shows "\<exists>fwd. gw_progress gw [] fwd gw' \<and> spsc_contents fq' = spsc_contents fq @ fwd
    \<and> spsc_inv fq' \<and> spsc_cap fq' = spsc_cap fq \<and> gw_risk_rejected gw' = gw_risk_rejected gw
    \<and> gw_risk gw' = fold risk_on_fill fwd (gw_risk gw) \<and> took_from inbox gw fwd gw'"
  using assms
proof (induction d arbitrary: inbox gw fq)
  case 0
  then show ?case
    by (auto intro: gw_progress_refl took_from_refl)
next
  case (Suc d)
  show ?case
  proof (cases inbox)
    case Nil
    with Suc.prems show ?thesis
      by (auto intro: gw_progress_refl took_from_refl)
  next
    case (Cons bs rest)
    let ?rep = "parse_exec (take kExecSize bs)"
    show ?thesis
    proof (cases "length (take kExecSize bs) = kExecSize")
      case False
      then have "inbox' = rest \<and> gw' = gw \<and> fq' = fq"
        using Cons Suc.prems(1) by (simp only: drain_fills.simps if_True option.inject prod.inject simp_thms)
      with Suc.prems(2,3) show ?thesis
        by (auto intro: gw_progress_refl took_from_refl)
    next
      case True
      from Suc.prems(2) show ?thesis
      proof (cases rule: handle_fill_cases [of fq gw ?rep cal "clock d"])
        case (matched fq1)
        let ?gw1 = "match_fill cal (clock d) ?rep gw"
        have "drain_fills cal clock d rest (?gw1, fq1) = Some (inbox', gw', fq')"
          using Suc.prems(1) Cons True matched(2) by simp
        from Suc.IH [OF this matched(3) match_fill_outstanding(1) [OF Suc.prems(3)]]
        obtain fwd where fwd: "gw_progress ?gw1 [] fwd gw'" "spsc_contents fq' = spsc_contents fq1 @ fwd"
          "spsc_inv fq'" "spsc_cap fq' = spsc_cap fq1" "gw_risk_rejected gw' = gw_risk_rejected ?gw1"
          "gw_risk gw' = fold risk_on_fill fwd (gw_risk ?gw1)" "took_from rest ?gw1 fwd gw'"
          by blast
        show ?thesis
          using gw_progress_trans [OF match_fill_progress [OF Suc.prems(3) matched(1)] fwd(1)] fwd matched
            took_from_match [OF Suc.prems(3) matched(1) fwd(7)] Cons
          by (intro exI [of _ "?rep # fwd"]) (simp add: match_fill_def)
      next
        case unmatched
        have "drain_fills cal clock d rest (gw\<lparr>gw_fills_unmatched := gw_fills_unmatched gw + 1\<rparr>, fq)
            = Some (inbox', gw', fq')"
          using Suc.prems(1) Cons True unmatched(2) by simp
        from Suc.IH [OF this Suc.prems(2)] Suc.prems(3)
        obtain fwd where fwd: "gw_progress (gw\<lparr>gw_fills_unmatched := gw_fills_unmatched gw + 1\<rparr>) [] fwd gw'"
          "spsc_contents fq' = spsc_contents fq @ fwd" "spsc_inv fq'" "spsc_cap fq' = spsc_cap fq"
          "gw_risk_rejected gw' = gw_risk_rejected gw" "gw_risk gw' = fold risk_on_fill fwd (gw_risk gw)"
          "took_from rest (gw\<lparr>gw_fills_unmatched := gw_fills_unmatched gw + 1\<rparr>) fwd gw'"
          by auto
        have "gw_progress gw [] fwd gw'" "took_from inbox gw fwd gw'"
          using fwd(1,7) unfolding gw_progress_def took_from_def Cons by auto
        with fwd show ?thesis
          by blast
      next
        case blocked
        then show ?thesis
          using Suc.prems(1) Cons True by simp
      qed
    qed
  qed
qed

lemma register_order_frame [simp]:
  "gw_risk (register_order ord t gw) = gw_risk gw" "gw_latency (register_order ord t gw) = gw_latency gw"
  "gw_e2e (register_order ord t gw) = gw_e2e gw" "gw_sent (register_order ord t gw) = gw_sent gw"
  "gw_risk_rejected (register_order ord t gw) = gw_risk_rejected gw"
  "gw_fills_matched (register_order ord t gw) = gw_fills_matched gw"
  by (simp_all add: register_order_def)

lemma register_progress:
  assumes "table_ok gw"
  shows "gw_progress gw [ord] []
    ((register_order ord t gw)\<lparr>gw_latency := h, gw_e2e := h', gw_sent := gw_sent gw + 1\<rparr>)"
  using register_order_outstanding [OF assms] by (auto simp: gw_progress_def)

subsection \<open>A poll\<close>

definition checked :: "poll_env \<Rightarrow> order_request \<Rightarrow> gateway \<Rightarrow> risk_result \<times> risk_gate" where
  "checked env ord gw = risk_check (pe_kill env) (pe_check_now env) ord (gw_risk gw)"

definition send_outcome ::
    "poll_env \<Rightarrow> order_request list \<Rightarrow> gateway \<Rightarrow> bool \<Rightarrow> u8 list option \<Rightarrow> gateway \<Rightarrow> bool" where
  "send_outcome env waiting gw1 worked out gw' \<longleftrightarrow>
     (case waiting of
        [] \<Rightarrow> \<not> worked \<and> out = None \<and> gw' = gw1
      | ord # _ \<Rightarrow> worked \<and> gw_risk gw' = snd (checked env ord gw1) \<and>
          (if fst (checked env ord gw1) = kAccept
           then out = Some (encode_order ord) \<and> gw_progress gw1 [ord] [] gw' \<and> outstanding gw' (o_order_id ord)
             \<and> gw_risk_rejected gw' = gw_risk_rejected gw1
           else out = None \<and> gw_progress gw1 [] [] gw'
             \<and> gw_risk_rejected gw' = gw_risk_rejected gw1 + 1))"

lemma gw_progress_set_risk:
  "gw_progress gw1 ords fwd gw \<Longrightarrow> position g = position (gw_risk gw) \<Longrightarrow> gw_progress gw1 ords fwd (gw\<lparr>gw_risk := g\<rparr>)"
  by (simp add: gw_progress_def)

lemma gw_progress_frame [simp]:
  "gw_progress gw1 ords fwd (gw\<lparr>gw_risk_rejected := n\<rparr>) = gw_progress gw1 ords fwd gw"
  "gw_progress gw1 ords fwd (gw\<lparr>gw_latency := h\<rparr>) = gw_progress gw1 ords fwd gw"
  "gw_progress gw1 ords fwd (gw\<lparr>gw_e2e := h\<rparr>) = gw_progress gw1 ords fwd gw"
  by (simp_all add: gw_progress_def)

lemma risk_check_position: "position (snd (risk_check kill now ord g)) = position g"
  using risk_check_frame [OF prod.collapse [symmetric]] by blast

lemma gateway_send_spec:
  assumes "gateway_send cal env (gw, orders) = (worked, (gw', orders'), out)" "spsc_inv orders" "table_ok gw"
  shows "spsc_contents orders' = tl (spsc_contents orders)" "spsc_inv orders'" "spsc_cap orders' = spsc_cap orders"
    and "send_outcome env (spsc_contents orders) gw worked out gw'"
proof -
  have "spsc_contents orders' = tl (spsc_contents orders) \<and> spsc_inv orders' \<and> spsc_cap orders' = spsc_cap orders
    \<and> send_outcome env (spsc_contents orders) gw worked out gw'"
    using assms(2)
  proof (cases rule: spsc_fifo.pop_cases [of orders])
    case (empty orders1)
    then show ?thesis
      using assms(1) by (auto simp: gateway_send_def send_outcome_def)
  next
    case (item ord orders1)
    obtain rr g where chk: "risk_check (pe_kill env) (pe_check_now env) ord (gw_risk gw) = (rr, g)"
      by (rule prod.exhaust)
    then have pos: "position g = position (gw_risk gw)"
      using risk_check_frame by blast
    have chk': "checked env ord gw = (rr, g)"
      by (simp add: checked_def chk)
    show ?thesis
    proof (cases "rr = kAccept")
      case False
      then show ?thesis
        using assms(1) item chk chk' gw_progress_set_risk [OF gw_progress_refl [OF assms(3)] pos]
        by (auto simp: gateway_send_def send_outcome_def)
    next
      case True
      let ?gw2 = "gw\<lparr>gw_risk := g\<rparr>"
      have "gw_progress ?gw2 [ord] [] ((register_order ord (pe_send_t env) ?gw2)
          \<lparr>gw_latency := h, gw_e2e := h', gw_sent := gw_sent ?gw2 + 1\<rparr>)" for h h'
        using assms(3) by (intro register_progress) simp
      note sent = gw_progress_trans [OF gw_progress_set_risk [OF gw_progress_refl [OF assms(3)] pos] this, simplified]
      from True show ?thesis
        using assms(1,3) item chk chk' sent
          register_order_outstanding(2) [of ?gw2 ord "pe_send_t env" "o_order_id ord"]
        by (auto simp: gateway_send_def send_outcome_def Let_def)
    qed
  qed
  then show "spsc_contents orders' = tl (spsc_contents orders)" "spsc_inv orders'" "spsc_cap orders' = spsc_cap orders"
    "send_outcome env (spsc_contents orders) gw worked out gw'"
    by blast+
qed

lemma gateway_poll_spec:
  assumes "gateway_poll cal env inbox (gw, orders, fq) = Some (worked, inbox', (gw', orders', fq'), out)"
    and "spsc_inv orders" "spsc_inv fq" "table_ok gw"
  shows "\<exists>fwd gw1. gw_progress gw [] fwd gw1 \<and> gw_risk gw1 = fold risk_on_fill fwd (gw_risk gw)
    \<and> gw_risk_rejected gw1 = gw_risk_rejected gw
    \<and> spsc_contents fq' = spsc_contents fq @ fwd \<and> spsc_inv fq' \<and> spsc_cap fq' = spsc_cap fq
    \<and> spsc_contents orders' = tl (spsc_contents orders) \<and> spsc_inv orders' \<and> spsc_cap orders' = spsc_cap orders
    \<and> send_outcome env (spsc_contents orders) gw1 worked out gw' \<and> took_from inbox gw fwd gw1"
proof -
  obtain inbox1 gw1 fq1 where drain: "drain_fills cal (pe_fill_clock env) 32 inbox (gw, fq) = Some (inbox1, gw1, fq1)"
    using assms(1) by (auto simp: gateway_poll_def gateway_send_def split: option.splits)
  from drain_fills_spec [OF this assms(3,4)] obtain fwd where
    fwd: "gw_progress gw [] fwd gw1" "spsc_contents fq1 = spsc_contents fq @ fwd" "spsc_inv fq1"
      "spsc_cap fq1 = spsc_cap fq" "gw_risk_rejected gw1 = gw_risk_rejected gw"
      "gw_risk gw1 = fold risk_on_fill fwd (gw_risk gw)" "took_from inbox gw fwd gw1"
    by blast
  then have tab: "table_ok gw1"
    by (simp add: gw_progress_def)
  obtain orders2 gw2 out2 worked2 where send: "gateway_send cal env (gw1, orders) = (worked2, (gw2, orders2), out2)"
    by (metis prod.exhaust)
  have "worked2 = worked" "gw2 = gw'" "orders2 = orders'" "out2 = out" "fq1 = fq'"
    using assms(1) drain send by (simp_all add: gateway_poll_def)
  with gateway_send_spec [OF send assms(2) tab] fwd show ?thesis
    by blast
qed


text \<open>A poll returns when the one report it could match has room in the fill queue.\<close>

lemma drain_fills_returns:
  assumes "spsc_inv fq" "table_ok gw" "\<And>x. outstanding gw x \<Longrightarrow> length (spsc_contents fq) < spsc_cap fq"
    and "\<And>x y. outstanding gw x \<Longrightarrow> outstanding gw y \<Longrightarrow> x = y"
  shows "drain_fills cal clock d inbox (gw, fq) \<noteq> None"
  using assms
proof (induction d arbitrary: inbox gw fq)
  case (Suc d)
  show ?case
  proof (cases inbox)
    case (Cons bs rest)
    let ?rep = "parse_exec (take kExecSize bs)"
    from Suc.prems(1) show ?thesis
    proof (cases rule: handle_fill_cases [of fq gw ?rep cal "clock d"])
      case (matched fq1)
      have "\<not> outstanding (match_fill cal (clock d) ?rep gw) x" for x
        using match_fill_outstanding(2) [OF Suc.prems(2), of cal "clock d" ?rep x] matched(1) Suc.prems(4) by blast
      then have "drain_fills cal clock d rest (match_fill cal (clock d) ?rep gw, fq1) \<noteq> None"
        using matched match_fill_outstanding(1) [OF Suc.prems(2)] by (intro Suc.IH) auto
      then show ?thesis
        using matched(2) Cons by simp
    next
      case unmatched
      have "drain_fills cal clock d rest (gw\<lparr>gw_fills_unmatched := gw_fills_unmatched gw + 1\<rparr>, fq) \<noteq> None"
        using Suc.prems by (intro Suc.IH) auto
      then show ?thesis
        using unmatched(2) Cons by simp
    next
      case blocked
      then show ?thesis
        using Suc.prems(3) [OF blocked(1)] by simp
    qed
  qed simp
qed simp

lemma gateway_poll_returns:
  assumes "spsc_inv fq" "table_ok gw" "\<And>x. outstanding gw x \<Longrightarrow> length (spsc_contents fq) < spsc_cap fq"
    and "\<And>x y. outstanding gw x \<Longrightarrow> outstanding gw y \<Longrightarrow> x = y"
  shows "gateway_poll cal env inbox (gw, orders, fq) \<noteq> None"
  using drain_fills_returns [OF assms(1,2), of cal "pe_fill_clock env" 32 inbox] assms(3,4)
  by (auto simp: gateway_poll_def gateway_send_def Let_def split: option.splits prod.splits)


subsection \<open>Runs\<close>

text \<open>
  A run of polls. The strategy pushes orders and pops fills between polls, so each step brings the
  queues as it finds them; the run returns the datagrams sent and the reports forwarded.
\<close>

type_synonym gw_step = "poll_env \<times> u8 list list \<times> order_request spsc \<times> exec_report spsc"

fun gateway_run ::
    "tsc_calibration \<Rightarrow> gw_step list \<Rightarrow> gateway \<Rightarrow> (u8 list list \<times> exec_report list \<times> gateway) option" where
  "gateway_run cal [] gw = Some ([], [], gw)"
| "gateway_run cal ((env, inbox, orders, fq) # steps) gw =
     (case gateway_poll cal env inbox (gw, orders, fq) of
        None \<Rightarrow> None
      | Some (worked, inbox', (gw', orders', fq'), out) \<Rightarrow>
          map_option (\<lambda>(sent, fwd, gw'').
              ((case out of None \<Rightarrow> [] | Some bs \<Rightarrow> [bs]) @ sent,
               drop (length (spsc_contents fq)) (spsc_contents fq') @ fwd, gw''))
            (gateway_run cal steps gw'))"

definition steps_ok :: "gw_step list \<Rightarrow> bool" where
  "steps_ok steps \<longleftrightarrow> (\<forall>(env, inbox, orders, fq) \<in> set steps. spsc_inv orders \<and> spsc_inv fq)"

lemma gateway_run_progress:
  assumes "gateway_run cal steps gw = Some (sent, fwd, gw')" "steps_ok steps" "table_ok gw"
  shows "gw_progress gw (map parse_order sent) fwd gw'"
  using assms
proof (induction steps arbitrary: gw sent fwd)
  case Nil
  then show ?case by (simp add: gw_progress_refl)
next
  case (Cons st steps)
  obtain env inbox orders fq where st: "st = (env, inbox, orders, fq)"
    by (cases st)
  from Cons.prems(1) obtain worked inbox' gw1 orders' fq' out sent1 fwd1 where
    poll: "gateway_poll cal env inbox (gw, orders, fq) = Some (worked, inbox', (gw1, orders', fq'), out)"
    and run: "gateway_run cal steps gw1 = Some (sent1, fwd1, gw')"
    and sent: "sent = (case out of None \<Rightarrow> [] | Some bs \<Rightarrow> [bs]) @ sent1"
    and fwd: "fwd = drop (length (spsc_contents fq)) (spsc_contents fq') @ fwd1"
    by (auto simp: st split: option.splits prod.splits)
  have inv: "spsc_inv orders" "spsc_inv fq" and ok: "steps_ok steps"
    using Cons.prems(2) by (auto simp: steps_ok_def st)
  from gateway_poll_spec [OF poll inv Cons.prems(3)] obtain new gwm where
    m: "gw_progress gw [] new gwm" "spsc_contents fq' = spsc_contents fq @ new"
      "send_outcome env (spsc_contents orders) gwm worked out gw1"
    by blast
  have "gw_progress gwm (map parse_order (case out of None \<Rightarrow> [] | Some bs \<Rightarrow> [bs])) [] gw1"
    using m(1,3) by (auto simp: send_outcome_def gw_progress_refl order_codec.dec_enc_exact gw_progress_def
        split: list.splits if_splits)
  from gw_progress_trans [OF m(1) this]
  have "gw_progress gw (map parse_order (case out of None \<Rightarrow> [] | Some bs \<Rightarrow> [bs])) new gw1"
    by simp
  moreover from this have "table_ok gw1"
    by (simp add: gw_progress_def)
  ultimately show ?case
    using gw_progress_trans Cons.IH [OF run ok] m(2) by (fastforce simp: sent fwd)
qed

lemma register_consecutive:
  assumes "table_ok gw" "length ords \<le> length (gw_inflight gw)"
    and "map o_order_id ords = map (\<lambda>i. a + of_nat i) [0..<length ords]"
    and "i < length ords"
  shows "outstanding (fold (\<lambda>ord. register_order ord t) ords gw) (o_order_id (ords ! i))
    \<and> table_ok (fold (\<lambda>ord. register_order ord t) ords gw)
    \<and> length (gw_inflight (fold (\<lambda>ord. register_order ord t) ords gw)) = length (gw_inflight gw)"
  using assms(2-)
proof (induction ords arbitrary: i rule: rev_induct)
  case Nil
  then show ?case by simp
next
  case (snoc ord ords)
  let ?gw = "fold (\<lambda>ord. register_order ord t) ords gw"
  let ?N = "length (gw_inflight gw)"
  have ids: "map o_order_id ords = map (\<lambda>i. a + of_nat i) [0..<length ords]"
    "o_order_id ord = a + of_nat (length ords)"
    using snoc.prems(2) by (simp_all add: )
  have gw: "table_ok ?gw \<and> length (gw_inflight ?gw) = ?N"
  proof (cases "ords = []")
    case True
    then show ?thesis using assms(1) by simp
  next
    case False
    then show ?thesis using snoc.IH [OF _ ids(1), of 0] snoc.prems(1) by simp
  qed
  obtain k where k: "k < 64" "?N = 2 ^ k"
    using assms(1) unfolding table_ok_def by (rule capacity_ok_power)
  have idx: "in_flight_idx ?gw (a + of_nat j) = (unat a + j) mod ?N" for j
  proof -
    have dvd: "?N dvd 2 ^ 64"
      unfolding k(2) using k(1) by (intro le_imp_power_dvd) simp
    have "unat (a + of_nat j) = (unat a + j) mod 2 ^ 64"
      by (simp add: unat_word_ariths unat_of_nat mod_add_right_eq)
    then have "in_flight_idx ?gw (a + of_nat j) = ((unat a + j) mod 2 ^ 64) mod ?N"
      using in_flight_idx_mod [of ?gw] gw by simp
    then show ?thesis
      unfolding mod_mod_cancel [OF dvd] .
  qed
  show ?case
  proof (cases "i < length ords")
    case False
    then have "i = length ords"
      using snoc.prems(3) by simp
    then show ?thesis
      using register_order_outstanding(1) [of ?gw ord t] register_order_outstanding(2) [of ?gw ord t "o_order_id ord"] gw
      by (simp add: nth_append) (simp add: register_order_def)
  next
    case True
    have id: "o_order_id (ords ! i) = a + of_nat i"
      using arg_cong [OF ids(1), of "\<lambda>xs. xs ! i"] True by simp
    have "(unat a + i) mod ?N \<noteq> (unat a + length ords) mod ?N"
      using True snoc.prems(1) by (intro mod_window_inj) simp_all
    then have "in_flight_idx ?gw (o_order_id (ords ! i)) \<noteq> in_flight_idx ?gw (o_order_id ord)"
      by (simp only: id ids(2) idx not_False_eq_True)
    then show ?thesis
      using register_order_outstanding(1) [of ?gw ord t] register_order_outstanding(2) [of ?gw ord t "o_order_id (ords ! i)"] gw
        snoc.IH [OF _ ids(1) True] snoc.prems(1) True
      by (simp add: nth_append) (simp add: register_order_def)
  qed
qed


subsection \<open>Properties\<close>

text \<open>
  C19. Nothing reaches the wire unchecked: one poll forwards the reports it matches, moves the risk position
  by exactly those, and then sends the oldest queued order if and only if the gate accepts it in the
  resulting state. What is sent is that order byte for byte, and for positions within 64 bits it
  passes every check: no kill switch, size, projected position, rate.
\<close>

theorem gateway_sends_only_checked:
  assumes "gateway_poll cal env inbox (gw, orders, fq) = Some (worked, inbox', (gw', orders', fq'), out)"
    and "spsc_inv orders" "spsc_inv fq" "table_ok gw"
  shows "\<exists>fwd. spsc_contents fq' = spsc_contents fq @ fwd
    \<and> position (gw_risk gw') = position (gw_risk gw) + net_fill fwd
    \<and> (let g = fold risk_on_fill fwd (gw_risk gw) in
        case spsc_contents orders of
          [] \<Rightarrow> out = None
        | ord # rest \<Rightarrow> spsc_contents orders' = rest
            \<and> out = (if fst (risk_check (pe_kill env) (pe_check_now env) ord g) = kAccept
                      then Some (encode_order ord) else None)
            \<and> (out \<noteq> None \<and> position_fits ord g \<longrightarrow>
                (\<forall>r. \<not> check_fails r (pe_kill env) (pe_check_now env) ord g)))"
proof -
  from gateway_poll_spec [OF assms] obtain fwd gw1 where
    fwd: "gw_progress gw [] fwd gw1" "gw_risk gw1 = fold risk_on_fill fwd (gw_risk gw)"
      "spsc_contents fq' = spsc_contents fq @ fwd" "spsc_contents orders' = tl (spsc_contents orders)"
      "send_outcome env (spsc_contents orders) gw1 worked out gw'"
    by blast
  have pos: "position (gw_risk gw1) = position (gw_risk gw) + net_fill fwd"
    using fwd(1) by (simp add: gw_progress_def)
  have "\<not> check_fails r kill now ord g"
    if "fst (risk_check kill now ord g) = kAccept" "position_fits ord g" for r kill now ord g
    using that by (cases rule: risk_check_cases [of kill now ord g]; cases r) simp_all
  with fwd pos show ?thesis
    by (auto simp: send_outcome_def checked_def risk_check_position split: list.splits if_splits)
qed

definition demo_env :: poll_env where
  "demo_env = \<lparr>pe_kill = False, pe_t0 = 10, pe_check_now = 11, pe_send_t = 12, pe_fill_clock = (\<lambda>_. 9)\<rparr>"

definition demo_gateway :: gateway where
  "demo_gateway = gateway_init 2 1 demo_limits"

lemma demo_gateway_ok: "table_ok demo_gateway"
  by (simp add: demo_gateway_def capacity_ok_2)

definition demo_orders :: "order_request spsc" where
  "demo_orders = snd (spsc_push (spsc_init 2 zero_order) (demo_order 1 kBuy 5))"

lemma demo_orders_ok: "spsc_inv demo_orders" "spsc_contents demo_orders = [demo_order 1 kBuy 5]"
  by (simp_all add: demo_orders_def spsc_fifo.push_contents spsc_fifo.push_accepts spsc_fifo.push_invar
      capacity_ok_2)

lemma demo_accept:
  "fst (risk_check False now (demo_order 1 kBuy 5) (gw_risk demo_gateway)) = kAccept"
  by (subst accept_within_limits [where M = 1000])
    (simp_all add: demo_gateway_def gateway_init_def risk_eval word_le_nat_alt)

lemma demo_poll_returns:
  "\<exists>gw' orders'. gateway_poll demo_calibration demo_env [] (demo_gateway, demo_orders, spsc_init 2 zero_exec)
     = Some (True, [], (gw', orders', spsc_init 2 zero_exec), Some (encode_order (demo_order 1 kBuy 5)))"
proof -
  have "fst (spsc_pop demo_orders) = Some (demo_order 1 kBuy 5)"
    by (simp add: spsc_fifo.pop_result demo_orders_ok)
  then show ?thesis
    using demo_accept [of "pe_check_now demo_env"]
    by (cases "spsc_pop demo_orders")
      (auto simp: gateway_poll_def gateway_send_def demo_env_def Let_def split: prod.splits)
qed

theorem gateway_sends_only_checked_witness:
  "\<exists>gw' orders' out. gateway_poll demo_calibration demo_env [] (demo_gateway, demo_orders, spsc_init 2 zero_exec)
      = Some (True, [], (gw', orders', spsc_init 2 zero_exec), out)
    \<and> out \<noteq> None \<and> position (gw_risk gw') = position (gw_risk demo_gateway)"
proof -
  obtain gw' orders' where poll: "gateway_poll demo_calibration demo_env [] (demo_gateway, demo_orders, spsc_init 2 zero_exec)
     = Some (True, [], (gw', orders', spsc_init 2 zero_exec), Some (encode_order (demo_order 1 kBuy 5)))"
    using demo_poll_returns by blast
  from gateway_sends_only_checked [OF this demo_orders_ok(1) spsc_inv_init [OF capacity_ok_2] demo_gateway_ok]
  have "position (gw_risk gw') = position (gw_risk demo_gateway)"
    by auto
  with poll show ?thesis
    by blast
qed

text \<open>
  C20. Every order is filled at most once: in any run, whatever datagrams arrive on the fill socket (lost,
  duplicated, reordered, forged), a report is forwarded for an order id at most as often as an order with
  that id was sent, the risk position is exactly the signed sum of the forwarded reports, and the
  counters agree with what happened.
\<close>

theorem gateway_fills_at_most_once:
  assumes "gateway_run cal steps (gateway_init n cpn lm) = Some (sent, fwd, gw)"
    and "steps_ok steps" "capacity_ok n"
  shows "count_list (map r_order_id fwd) x \<le> count_list (map o_order_id (map parse_order sent)) x
    \<and> position (gw_risk gw) = net_fill fwd
    \<and> gw_fills_matched gw = of_nat (length fwd) \<and> gw_sent gw = of_nat (length sent)"
proof -
  have "gw_progress (gateway_init n cpn lm) (map parse_order sent) fwd gw"
    using assms by (intro gateway_run_progress [OF assms(1,2)]) simp
  then have *: "of_bool (outstanding gw x) + count_list (map r_order_id fwd) x
      \<le> (of_bool (outstanding (gateway_init n cpn lm) x) :: nat) + count_list (map o_order_id (map parse_order sent)) x"
    and "position (gw_risk gw) = position (gw_risk (gateway_init n cpn lm)) + net_fill fwd"
      "gw_fills_matched gw = gw_fills_matched (gateway_init n cpn lm) + of_nat (length fwd)"
      "gw_sent gw = gw_sent (gateway_init n cpn lm) + of_nat (length (map parse_order sent))"
    unfolding gw_progress_def by blast+
  then show ?thesis
    using not_outstanding_init [OF assms(3), of cpn lm x] by (simp add: gateway_init_def risk_gate_init_def Let_def)
qed

text \<open>The order of the demonstration is sent, filled, and its fill arrives a second time.\<close>

definition demo_report :: exec_report where
  "demo_report = zero_exec\<lparr>r_order_id := 1, r_side := side_code kBuy, r_fill_size := 5\<rparr>"

definition demo_steps :: "gw_step list" where
  "demo_steps = [(demo_env, [], demo_orders, spsc_init 2 zero_exec),
     (demo_env, [encode_exec demo_report, encode_exec demo_report], spsc_init 2 zero_order, spsc_init 2 zero_exec)]"

lemma demo_steps_ok: "steps_ok demo_steps"
  by (simp add: steps_ok_def demo_steps_def demo_orders_ok capacity_ok_2)

lemma drain_step:
  "length bs = kExecSize \<Longrightarrow> drain_fills cal clock (numeral d) (bs # inbox) st =
     (case handle_fill cal (clock (pred_numeral d)) (parse_exec bs) st of
        None \<Rightarrow> None
      | Some st' \<Rightarrow> drain_fills cal clock (pred_numeral d) inbox st')"
  by (simp add: numeral_eq_Suc)

lemma demo_run_returns: "gateway_run demo_calibration demo_steps demo_gateway \<noteq> None"
proof -
  obtain gw1 orders' where poll: "gateway_poll demo_calibration demo_env [] (demo_gateway, demo_orders, spsc_init 2 zero_exec)
     = Some (True, [], (gw1, orders', spsc_init 2 zero_exec), Some (encode_order (demo_order 1 kBuy 5)))"
    using demo_poll_returns by blast
  let ?drain = "drain_fills demo_calibration (\<lambda>_. 9) 32 [encode_exec demo_report, encode_exec demo_report]
    (gw1, spsc_init 2 zero_exec)"
  have fill: "\<exists>gw' fq'. handle_fill demo_calibration 9 demo_report (gw, fq) = Some (gw', fq') \<and> spsc_inv fq'
      \<and> spsc_cap fq' = 2 \<and> length (spsc_contents fq') \<le> Suc (length (spsc_contents fq))"
    if "spsc_inv fq" "spsc_cap fq = 2" "length (spsc_contents fq) < 2" for gw fq
    using that(1) by (cases rule: handle_fill_cases [of fq gw demo_report demo_calibration 9]) (use that in auto)
  obtain gw2 fq2 where one: "handle_fill demo_calibration 9 demo_report (gw1, spsc_init 2 zero_exec) = Some (gw2, fq2)"
    "spsc_inv fq2" "spsc_cap fq2 = 2" "length (spsc_contents fq2) < 2"
    using fill [of "spsc_init 2 zero_exec" gw1] by (auto simp: capacity_ok_2)
  obtain gw3 fq3 where two: "handle_fill demo_calibration 9 demo_report (gw2, fq2) = Some (gw3, fq3)"
    using fill [OF one(2-4), of gw2] by blast
  have "?drain = Some ([], gw3, fq3)"
    using one two by (simp add: drain_step kExecSize_def exec_codec.dec_enc_exact)
  moreover obtain orders1 where "spsc_pop (spsc_init 2 zero_order) = (None, orders1)"
    using spsc_inv_init [OF capacity_ok_2] by (cases rule: spsc_fifo.pop_cases [of "spsc_init 2 zero_order"]) auto
  ultimately have "gateway_poll demo_calibration demo_env [encode_exec demo_report, encode_exec demo_report]
      (gw1, spsc_init 2 zero_order, spsc_init 2 zero_exec) = Some (False, [], (gw3, orders1, fq3), None)"
    by (simp add: gateway_poll_def gateway_send_def demo_env_def)
  with poll show ?thesis
    by (simp add: demo_steps_def)
qed

theorem gateway_fills_at_most_once_witness:
  "\<exists>sent fwd gw. gateway_run demo_calibration demo_steps demo_gateway = Some (sent, fwd, gw)
     \<and> count_list (map r_order_id fwd) 1 \<le> count_list (map o_order_id (map parse_order sent)) 1
     \<and> position (gw_risk gw) = net_fill fwd"
proof -
  obtain sent fwd gw where run: "gateway_run demo_calibration demo_steps demo_gateway = Some (sent, fwd, gw)"
    using demo_run_returns by auto
  from gateway_fills_at_most_once [OF this [unfolded demo_gateway_def] demo_steps_ok capacity_ok_2, of 1] run
  show ?thesis
    by blast
qed

text \<open>
  The table holds any run of consecutive order ids as long as itself: after orders with the ids
  \<open>a, a + 1, ...\<close>, at most as many as the table has slots, were entered, every one of them is still
  outstanding, and a report for it is matched and, with room in the queue, forwarded to the strategy.
\<close>

theorem in_flight_table_keeps_consecutive_orders:
  fixes t :: u64
  assumes "table_ok gw" "length ords \<le> length (gw_inflight gw)"
    and "map o_order_id ords = map (\<lambda>i. a + of_nat i) [0..<length ords]"
    and "ord \<in> set ords" "r_order_id rep = o_order_id ord"
    and "spsc_inv fq" "length (spsc_contents fq) < spsc_cap fq"
  defines "gw1 \<equiv> fold (\<lambda>ord. register_order ord t) ords gw"
  shows "\<exists>gw2 fq'. handle_fill cal now rep (gw1, fq) = Some (gw2, fq')
    \<and> spsc_contents fq' = spsc_contents fq @ [rep]
    \<and> gw_fills_matched gw2 = gw_fills_matched gw1 + 1
    \<and> position (gw_risk gw2) = position (gw_risk gw1) + fill_delta rep
    \<and> \<not> outstanding gw2 (r_order_id rep)"
proof -
  from assms(4) obtain i where i: "i < length ords" "ord = ords ! i"
    by (auto simp: in_set_conv_nth)
  have out: "outstanding gw1 (r_order_id rep)" and tab: "table_ok gw1"
    using register_consecutive [OF assms(1-3) i(1), of t] assms(5) i(2) by (simp_all add: gw1_def)
  from assms(6) show ?thesis
  proof (cases rule: handle_fill_cases [of fq gw1 rep cal now])
    case (matched fq')
    then show ?thesis
      using match_fill_outstanding(2) [OF tab, of cal now rep "r_order_id rep"]
      by (simp add: match_fill_def risk_position.take_fill_pos)
  qed (use out assms(7) in simp_all)
qed

theorem in_flight_table_keeps_consecutive_orders_witness:
  "\<exists>gw2 fq'. handle_fill demo_calibration 9 demo_report
      (fold (\<lambda>ord. register_order ord 7) [demo_order 0 kBuy 5, demo_order 1 kBuy 5] demo_gateway, spsc_init 2 zero_exec)
      = Some (gw2, fq') \<and> spsc_contents fq' = [demo_report]"
  using in_flight_table_keeps_consecutive_orders [OF demo_gateway_ok,
      where ords = "[demo_order 0 kBuy 5, demo_order 1 kBuy 5]" and ord = "demo_order 1 kBuy 5" and a = 0
        and rep = demo_report and fq = "spsc_init 2 zero_exec" and cal = demo_calibration and now = 9 and t = 7]
  by (auto simp: demo_gateway_def gateway_init_def demo_report_def demo_order_def capacity_ok_2)

end
