(* ===== verification/SimExchange.thy ===== *)
theory SimExchange
  imports OrderGateway
begin

text \<open>
  \<open>include/hft/sim_exchange.hpp\<close>: the simulated exchange that publishes the feed and answers the orders.
  \<open>sx_step\<close> is one random-walk refresh, a delete of the old level and an add of the new one; \<open>sx_emit\<close>
  encodes one message into the outgoing datagram and flushes it when the batch is full;
  \<open>service_orders\<close> answers the datagrams waiting on the order socket.

  Operations that send return the list of datagrams handed to \<open>send_to\<close>. The cycle counter is the
  sequence of its readings, \<open>clock k\<close> the \<open>k\<close>-th; the pacing loop reads it until the next send time
  has come, so it is a partial function: \<^const>\<open>None\<close> means that it spins forever.

  The lemmas say that the datagrams decode to the emitted messages in order, that the walk stays
  in its band, and that a book fed with the messages shows exactly the exchange's own quotes.
\<close>

subsection \<open>Random numbers\<close>

record rng =
  rng_s0 :: u64
  rng_s1 :: u64

definition rng_init :: "u64 \<Rightarrow> rng" where
  "rng_init seed = \<lparr>rng_s0 = seed XOR 0x9E3779B97F4A7C15, rng_s1 = seed * 0xD1B54A32D192ED03 + 1\<rparr>"

definition rng_next :: "rng \<Rightarrow> u64 \<times> rng" where
  "rng_next g =
     (let x = rng_s0 g; y = rng_s1 g;
          x = x XOR push_bit 23 x;
          s1 = x XOR y XOR drop_bit 17 x XOR drop_bit 26 y
      in (s1 + y, \<lparr>rng_s0 = y, rng_s1 = s1\<rparr>))"

definition rng_range :: "u32 \<Rightarrow> u32 \<Rightarrow> rng \<Rightarrow> u32 \<times> rng" where
  "rng_range lo hi g = (case rng_next g of (w, g') \<Rightarrow> (lo + ucast (w mod ucast (hi - lo + 1)), g'))"


subsection \<open>The exchange\<close>

record sx_config =
  cf_symbol :: u32
  cf_rate :: i64
  cf_batch :: i64
  cf_seed :: u64
  cf_base_price :: i64
  cf_tick :: i64

record exchange =
  sx_sym :: u32
  sx_batch :: int
  sx_tick :: i64
  sx_rng :: rng
  sx_mid :: i64
  sx_best_bid :: i64
  sx_best_ask :: i64
  sx_mid_lo :: i64
  sx_mid_hi :: i64
  sx_bid_sz :: u32
  sx_ask_sz :: u32
  sx_seq :: u32
  sx_cycles_per_msg :: u64
  sx_next_send :: u64
  sx_dgram :: "u8 list"
  sx_dgram_msgs :: nat
  sx_feed_count :: u64
  sx_order_count :: u64
  sx_fill_count :: u64

definition exchange_init :: "rat \<Rightarrow> sx_config \<Rightarrow> exchange" where
  "exchange_init cyc_per_ns c =
     \<lparr>sx_sym = cf_symbol c,
      sx_batch = (if sint (cf_batch c) < 1 then 1 else if 40 < sint (cf_batch c) then 40 else sint (cf_batch c)),
      sx_tick = cf_tick c, sx_rng = rng_init (cf_seed c), sx_mid = cf_base_price c,
      sx_best_bid = cf_base_price c - cf_tick c, sx_best_ask = cf_base_price c + cf_tick c,
      sx_mid_lo = cf_base_price c - 1500 * cf_tick c, sx_mid_hi = cf_base_price c + 1500 * cf_tick c,
      sx_bid_sz = 500, sx_ask_sz = 500, sx_seq = 0,
      sx_cycles_per_msg =
        (if 0 < sint (cf_rate c)
         then word_of_int (trunc_rat (dmul (ddiv 1000000000 (b64_round (of_int (sint (cf_rate c))))) cyc_per_ns))
         else 0),
      sx_next_send = 0, sx_dgram = replicate (40 * kMsgSize) 0, sx_dgram_msgs = 0,
      sx_feed_count = 0, sx_order_count = 0, sx_fill_count = 0\<rparr>"

definition sx_flush :: "exchange \<Rightarrow> u8 list list \<times> exchange" where
  "sx_flush sx =
     (if 0 < sx_dgram_msgs sx
      then ([take (sx_dgram_msgs sx * kMsgSize) (sx_dgram sx)], sx\<lparr>sx_dgram_msgs := 0\<rparr>)
      else ([], sx))"

text \<open>\<open>while (tsc_now() < next_send_)\<close>, from the \<open>k\<close>-th reading on; the result is the next reading's number.\<close>

definition pace :: "(nat \<Rightarrow> u64) \<Rightarrow> u64 \<Rightarrow> nat \<Rightarrow> nat option" where
  "pace clock next_send k = map_option Suc (spin_while (\<lambda>k. clock k < next_send) k)"

definition store_bytes :: "nat \<Rightarrow> u8 list \<Rightarrow> u8 list \<Rightarrow> u8 list" where
  "store_bytes off bs xs = take off xs @ bs @ drop (off + length bs) xs"

definition feed_msg :: "exchange \<Rightarrow> u64 \<Rightarrow> msg_type \<Rightarrow> side \<Rightarrow> i64 \<Rightarrow> u32 \<Rightarrow> itch_message" where
  "feed_msg sx now t s px sz =
     zero_itch_message\<lparr>m_timestamp := now, m_price := px, m_symbol := sx_sym sx, m_size := sz,
       m_seq := sx_seq sx, m_type := msg_type_code t, m_side := side_code s\<rparr>"

definition sx_emit ::
    "(nat \<Rightarrow> u64) \<Rightarrow> msg_type \<Rightarrow> side \<Rightarrow> i64 \<Rightarrow> u32 \<Rightarrow> nat \<times> exchange
     \<Rightarrow> (u8 list list \<times> nat \<times> exchange) option" where
  "sx_emit clock t s px sz st =
     (let (k, sx) = st in
      case (if sx_cycles_per_msg sx \<noteq> 0
            then map_option (\<lambda>k. (k, sx\<lparr>sx_next_send := sx_next_send sx + sx_cycles_per_msg sx\<rparr>))
                   (pace clock (sx_next_send sx) k)
            else Some (k, sx)) of
        None \<Rightarrow> None
      | Some (k, sx) \<Rightarrow>
          let m = feed_msg sx (clock k) t s px sz;
              sx = sx\<lparr>sx_seq := sx_seq sx + 1,
                      sx_dgram := store_bytes (sx_dgram_msgs sx * kMsgSize) (encode_message m) (sx_dgram sx),
                      sx_dgram_msgs := sx_dgram_msgs sx + 1, sx_feed_count := sx_feed_count sx + 1\<rparr>;
              (out, sx) = (if sx_batch sx \<le> int (sx_dgram_msgs sx) then sx_flush sx else ([], sx))
          in Some (out, k + 1, sx))"

definition level_size :: "rng \<Rightarrow> u32 \<times> rng" where
  "level_size g = (case rng_range 0 15 g of (r, g') \<Rightarrow> if r = 0 then rng_range 2000 5000 g' else rng_range 100 800 g')"

text \<open>The quote half of a step: delete the old level of the side, draw its new size, add it at \<open>px\<close>.\<close>

definition sx_requote ::
    "(nat \<Rightarrow> u64) \<Rightarrow> bool \<Rightarrow> i64 \<Rightarrow> nat \<times> exchange \<Rightarrow> (u8 list list \<times> nat \<times> exchange) option" where
  "sx_requote clock do_bid px st =
     (if do_bid then
        (case sx_emit clock kDelete kBuy (sx_best_bid (snd st)) (sx_bid_sz (snd st)) st of
           None \<Rightarrow> None
         | Some (out1, k, sx) \<Rightarrow>
             (let (z, g) = level_size (sx_rng sx);
                  sx = sx\<lparr>sx_best_bid := px, sx_bid_sz := z, sx_rng := g\<rparr>
              in map_option (\<lambda>(out2, st). (out1 @ out2, st))
                   (sx_emit clock kAdd kBuy (sx_best_bid sx) (sx_bid_sz sx) (k, sx))))
      else
        (case sx_emit clock kDelete kSell (sx_best_ask (snd st)) (sx_ask_sz (snd st)) st of
           None \<Rightarrow> None
         | Some (out1, k, sx) \<Rightarrow>
             (let (z, g) = level_size (sx_rng sx);
                  sx = sx\<lparr>sx_best_ask := px, sx_ask_sz := z, sx_rng := g\<rparr>
              in map_option (\<lambda>(out2, st). (out1 @ out2, st))
                   (sx_emit clock kAdd kSell (sx_best_ask sx) (sx_ask_sz sx) (k, sx)))))"

definition sx_step :: "(nat \<Rightarrow> u64) \<Rightarrow> nat \<times> exchange \<Rightarrow> (u8 list list \<times> nat \<times> exchange) option" where
  "sx_step clock st =
     (let (k, sx) = st;
          (w, g) = rng_next (sx_rng sx);
          do_bid = (w AND 1 \<noteq> 0);
          (r, g) = rng_range 0 2 g;
          mid = sx_mid sx + (ucast r - 1) * sx_tick sx;
          mid = (if sint mid < sint (sx_mid_lo sx) then sx_mid_lo sx else mid);
          mid = (if sint (sx_mid_hi sx) < sint mid then sx_mid_hi sx else mid);
          (c, g) = rng_range 0 255 g;
          spread = (if c = 0 then - sx_tick sx else sx_tick sx);
          sx = sx\<lparr>sx_rng := g, sx_mid := mid\<rparr>
      in sx_requote clock do_bid (if do_bid then mid - spread else mid + spread) (k, sx))"

definition fill_of :: "order_request \<Rightarrow> exec_report" where
  "fill_of ord =
     zero_exec\<lparr>r_order_id := o_order_id ord, r_md_timestamp := o_md_timestamp ord, r_fill_price := o_price ord,
       r_symbol := o_symbol ord, r_fill_size := o_size ord, r_side := o_side ord,
       r_status := exec_status_code kFilled\<rparr>"

text \<open>At most \<open>d\<close> receives; the results are the datagrams left waiting, the fills sent and the exchange.\<close>

fun service_orders :: "nat \<Rightarrow> u8 list list \<Rightarrow> exchange \<Rightarrow> u8 list list \<times> u8 list list \<times> exchange" where
  "service_orders 0 inbox sx = (inbox, [], sx)"
| "service_orders (Suc d) [] sx = ([], [], sx)"
| "service_orders (Suc d) (bs # inbox) sx =
     (if length (take kOrderSize bs) \<noteq> kOrderSize then (inbox, [], sx)
      else
        let ord = parse_order (take kOrderSize bs);
            sx = sx\<lparr>sx_order_count := sx_order_count sx + 1, sx_fill_count := sx_fill_count sx + 1\<rparr>
        in case service_orders d inbox sx of (left, fills, sx) \<Rightarrow> (left, encode_exec (fill_of ord) # fills, sx))"

text \<open>
  \<open>run\<close>: the opening quotes, one refresh and one round of order service per iteration of the loop
  (\<open>inboxes\<close> gives the datagrams waiting at each), and the last flush.
\<close>

definition sx_open :: "(nat \<Rightarrow> u64) \<Rightarrow> nat \<times> exchange \<Rightarrow> (u8 list list \<times> nat \<times> exchange) option" where
  "sx_open clock st =
     (let (k, sx) = st; sx = sx\<lparr>sx_next_send := clock k\<rparr> in
      case sx_emit clock kAdd kBuy (sx_best_bid sx) (sx_bid_sz sx) (k + 1, sx) of
        None \<Rightarrow> None
      | Some (out1, k, sx) \<Rightarrow>
          (case sx_emit clock kAdd kSell (sx_best_ask sx) (sx_ask_sz sx) (k, sx) of
             None \<Rightarrow> None
           | Some (out2, k, sx) \<Rightarrow> (let (out3, sx) = sx_flush sx in Some (out1 @ out2 @ out3, k, sx))))"

fun sx_loop ::
    "(nat \<Rightarrow> u64) \<Rightarrow> u8 list list list \<Rightarrow> nat \<times> exchange
     \<Rightarrow> (u8 list list \<times> u8 list list \<times> nat \<times> exchange) option" where
  "sx_loop clock [] st = Some ([], [], st)"
| "sx_loop clock (inbox # inboxes) st =
     (case sx_step clock st of
        None \<Rightarrow> None
      | Some (out, k, sx) \<Rightarrow>
          (case service_orders 32 inbox sx of (left, fills, sx) \<Rightarrow>
             map_option (\<lambda>(out', fills', st). (out @ out', fills @ fills', st)) (sx_loop clock inboxes (k, sx))))"

definition sx_run ::
    "(nat \<Rightarrow> u64) \<Rightarrow> u8 list list list \<Rightarrow> exchange
     \<Rightarrow> (u8 list list \<times> u8 list list \<times> exchange) option" where
  "sx_run clock inboxes sx =
     (case sx_open clock (0, sx) of
        None \<Rightarrow> None
      | Some (out1, st) \<Rightarrow>
          (case sx_loop clock inboxes st of
             None \<Rightarrow> None
           | Some (out2, fills, k, sx) \<Rightarrow> (let (out3, sx) = sx_flush sx in Some (out1 @ out2 @ out3, fills, sx))))"


subsection \<open>What the draws are\<close>

lemma unat_ucast_u64_u32: "unat (ucast (w :: u32) :: u64) = unat w"
  using unat_lt_u32 [of w] by (simp add: unsigned_ucast_eq take_bit_nat_eq_self)

lemma rng_range_bounds:
  assumes "rng_range lo hi g = (r, g')" "lo \<le> hi" "hi - lo \<noteq> - 1"
  shows "lo \<le> r \<and> r \<le> hi"
proof -
  obtain w where w: "rng_next g = (w, g')" "r = lo + ucast (w mod ucast (hi - lo + 1))"
    using assms(1) by (auto simp: rng_range_def split: prod.splits)
  let ?d = "hi - lo + 1"
  have diff: "unat (hi - lo) = unat hi - unat lo"
    using assms(2) by (simp add: unat_sub word_le_nat_alt)
  have "unat (hi - lo) \<noteq> unat (- 1 :: u32)"
    using assms(3) unsigned_word_eqI [of "hi - lo" "- 1", where 'a = nat] by blast
  then have "unat (hi - lo) + 1 < 2 ^ 32"
    using unat_lt_u32 [of "hi - lo"] by (simp add: unsigned_minus_1_eq_mask mask_eq_exp_minus_1)
  then have d: "unat ?d = unat hi - unat lo + 1"
    using diff by (simp add: unat_word_ariths)
  let ?x = "w mod ucast ?d"
  have x: "unat ?x < unat ?d"
    using d by (simp add: unat_mod_distrib unat_ucast_u64_u32)
  then have "unat (ucast ?x :: u32) = unat ?x"
    using unat_lt_u32 [of ?d] by (simp add: unsigned_ucast_eq unsigned_take_bit_eq take_bit_nat_eq_self)
  moreover from this have "unat (lo + ucast ?x) = unat lo + unat ?x"
    using x d assms(2) unat_lt_u32 [of hi] by (subst unat_add_lem [THEN iffD1]) (simp_all add: word_le_nat_alt)
  ultimately show ?thesis
    using x d assms(2) w(2) by (simp add: word_le_nat_alt)
qed

lemma level_size_bounds:
  assumes "level_size g = (z, g')"
  shows "100 \<le> z" "z \<le> 5000" "0 < unat z" "unat z < 2 ^ 32 - 1"
proof -
  obtain r g1 where r: "rng_range 0 15 g = (r, g1)"
    by (rule prod.exhaust)
  have "100 \<le> z \<and> z \<le> 5000"
  proof (cases "r = 0")
    case True
    then have "2000 \<le> z \<and> z \<le> 5000"
      using assms r by (intro rng_range_bounds [of 2000 5000 g1 z g']) (simp_all add: level_size_def word_le_nat_alt)
    then show ?thesis
      by (auto simp: word_le_nat_alt)
  next
    case False
    then have "100 \<le> z \<and> z \<le> 800"
      using assms r by (intro rng_range_bounds [of 100 800 g1 z g']) (simp_all add: level_size_def word_le_nat_alt)
    then show ?thesis
      by (auto simp: word_le_nat_alt)
  qed
  then show "100 \<le> z" "z \<le> 5000" "0 < unat z" "unat z < 2 ^ 32 - 1"
    by (simp_all add: word_le_nat_alt)
qed

subsection \<open>The datagrams carry the messages\<close>

definition sx_ok :: "exchange \<Rightarrow> bool" where
  "sx_ok sx \<longleftrightarrow> 1 \<le> sx_batch sx \<and> sx_batch sx \<le> 40 \<and> int (sx_dgram_msgs sx) < sx_batch sx
     \<and> length (sx_dgram sx) = 40 * kMsgSize"

text \<open>The messages encoded but not yet sent, and the messages a receiver reads from datagrams.\<close>

definition pending :: "exchange \<Rightarrow> itch_message list" where
  "pending sx = map parse_message (frames kMsgSize (take (sx_dgram_msgs sx * kMsgSize) (sx_dgram sx)))"

definition received :: "u8 list list \<Rightarrow> itch_message list" where
  "received ds = concat (map (\<lambda>d. map parse_message (frames kMsgSize d)) ds)"

lemma received_simps [simp]:
  "received [] = []" "received (ds @ ds') = received ds @ received ds'"
  "received [d] = map parse_message (frames kMsgSize d)"
  by (simp_all add: received_def)

lemma sx_ok_init: "sx_ok (exchange_init cpn c)" "pending (exchange_init cpn c) = []"
  by (simp_all add: sx_ok_def pending_def exchange_init_def frames_short kMsgSize_def)

lemma sx_flush_spec:
  assumes "sx_flush sx = (out, sx')"
  shows "received out @ pending sx' = pending sx" "pending sx' = []" "sx' = sx\<lparr>sx_dgram_msgs := 0\<rparr>"
    "sx_ok sx \<Longrightarrow> sx_ok sx'"
  using assms by (auto simp: sx_flush_def pending_def frames_short kMsgSize_def sx_ok_def split: if_splits)

text \<open>A datagram is never empty, and never longer than forty messages.\<close>

definition datagram_ok :: "u8 list \<Rightarrow> bool" where
  "datagram_ok d \<longleftrightarrow> d \<noteq> [] \<and> length d \<le> 40 * kMsgSize"

lemma sx_flush_datagrams:
  assumes "sx_flush sx = (out, sx')" "length (sx_dgram sx) = 40 * kMsgSize"
  shows "\<forall>d \<in> set out. datagram_ok d"
  using assms by (auto simp: sx_flush_def datagram_ok_def kMsgSize_def split: if_splits)

lemma store_next_message:
  assumes "length xs = 40 * kMsgSize" "n < 40"
  shows "map parse_message (frames kMsgSize
      (take (Suc n * kMsgSize) (store_bytes (n * kMsgSize) (encode_message m) xs)))
    = map parse_message (frames kMsgSize (take (n * kMsgSize) xs)) @ [m]"
    and "length (store_bytes (n * kMsgSize) (encode_message m) xs) = 40 * kMsgSize"
proof -
  have "take (Suc n * kMsgSize) (store_bytes (n * kMsgSize) (encode_message m) xs)
      = take (n * kMsgSize) xs @ encode_message m"
    using assms by (simp add: store_bytes_def kMsgSize_def)
  moreover have "kMsgSize dvd length (take (n * kMsgSize) xs)"
    using assms by (simp add: kMsgSize_def)
  moreover have "map parse_message (frames kMsgSize (encode_message m)) = [m]"
    using itch_codec.decode_batch [of "[]" "[m]"] by (simp add: kMsgSize_def)
  ultimately show "map parse_message (frames kMsgSize
      (take (Suc n * kMsgSize) (store_bytes (n * kMsgSize) (encode_message m) xs)))
    = map parse_message (frames kMsgSize (take (n * kMsgSize) xs)) @ [m]"
    by (simp add: frames_append kMsgSize_def)
  show "length (store_bytes (n * kMsgSize) (encode_message m) xs) = 40 * kMsgSize"
    using assms by (simp add: store_bytes_def kMsgSize_def)
qed

text \<open>The part of the state the feed is about; an emission leaves it alone.\<close>

definition quotes :: "exchange \<Rightarrow> i64 \<times> i64 \<times> i64 \<times> u32 \<times> u32 \<times> i64 \<times> i64 \<times> i64 \<times> rng" where
  "quotes sx = (sx_mid sx, sx_best_bid sx, sx_best_ask sx, sx_bid_sz sx, sx_ask_sz sx, sx_tick sx,
     sx_mid_lo sx, sx_mid_hi sx, sx_rng sx)"

lemma quotes_eq:
  "quotes sx' = quotes sx \<longleftrightarrow> sx_mid sx' = sx_mid sx \<and> sx_best_bid sx' = sx_best_bid sx
     \<and> sx_best_ask sx' = sx_best_ask sx \<and> sx_bid_sz sx' = sx_bid_sz sx \<and> sx_ask_sz sx' = sx_ask_sz sx
     \<and> sx_tick sx' = sx_tick sx \<and> sx_mid_lo sx' = sx_mid_lo sx \<and> sx_mid_hi sx' = sx_mid_hi sx
     \<and> sx_rng sx' = sx_rng sx"
  by (simp add: quotes_def)

definition is_quote :: "msg_type \<Rightarrow> side \<Rightarrow> i64 \<Rightarrow> u32 \<Rightarrow> itch_message \<Rightarrow> bool" where
  "is_quote t s px sz m \<longleftrightarrow> m_type m = msg_type_code t \<and> m_side m = side_code s \<and> m_price m = px \<and> m_size m = sz"

lemma is_quote_feed_msg: "is_quote t s px sz (feed_msg sx now t s px sz)"
  by (simp add: is_quote_def feed_msg_def)

lemma sx_emit_spec:
  assumes "sx_emit clock t s px sz (k, sx) = Some (out, k', sx')" "sx_ok sx"
  shows "\<exists>m. is_quote t s px sz m \<and> received out @ pending sx' = pending sx @ [m] \<and> sx_ok sx'
    \<and> quotes sx' = quotes sx \<and> (\<forall>d \<in> set out. datagram_ok d) \<and> sx_feed_count sx' = sx_feed_count sx + 1"
proof -
  from assms(1) obtain k1 sx1 where
    sx1: "sx1 = sx \<or> sx1 = sx\<lparr>sx_next_send := sx_next_send sx + sx_cycles_per_msg sx\<rparr>"
    and rest: "(let m = feed_msg sx1 (clock k1) t s px sz;
              sx = sx1\<lparr>sx_seq := sx_seq sx1 + 1,
                      sx_dgram := store_bytes (sx_dgram_msgs sx1 * kMsgSize) (encode_message m) (sx_dgram sx1),
                      sx_dgram_msgs := sx_dgram_msgs sx1 + 1, sx_feed_count := sx_feed_count sx1 + 1\<rparr>;
              (out, sx) = (if sx_batch sx \<le> int (sx_dgram_msgs sx) then sx_flush sx else ([], sx))
          in Some (out, k1 + 1, sx)) = Some (out, k', sx')"
    by (auto simp: sx_emit_def split: option.splits if_splits)
  define m where "m = feed_msg sx1 (clock k1) t s px sz"
  define sx2 where "sx2 = sx1\<lparr>sx_seq := sx_seq sx1 + 1,
      sx_dgram := store_bytes (sx_dgram_msgs sx1 * kMsgSize) (encode_message m) (sx_dgram sx1),
      sx_dgram_msgs := sx_dgram_msgs sx1 + 1, sx_feed_count := sx_feed_count sx1 + 1\<rparr>"
  have same: "sx_dgram sx1 = sx_dgram sx" "sx_dgram_msgs sx1 = sx_dgram_msgs sx" "sx_batch sx1 = sx_batch sx"
    "quotes sx1 = quotes sx"
    "sx_feed_count sx1 = sx_feed_count sx"
    using sx1 by (auto simp: quotes_eq)
  have room: "length (sx_dgram sx) = 40 * kMsgSize" "sx_dgram_msgs sx < 40"
    using assms(2) by (auto simp: sx_ok_def)
  have pend: "pending sx2 = pending sx @ [m]"
    using store_next_message(1) [OF room, of m] by (simp add: pending_def sx2_def same)
  have len: "length (sx_dgram sx2) = 40 * kMsgSize"
    using store_next_message(2) [OF room, of m] by (simp add: sx2_def same)
  have q: "quotes sx2 = quotes sx"
    using same(4) by (simp add: sx2_def quotes_eq)
  have fin: "(if sx_batch sx2 \<le> int (sx_dgram_msgs sx2) then sx_flush sx2 else ([], sx2)) = (out, sx')"
    using rest unfolding Let_def m_def [symmetric] sx2_def [symmetric] by (auto split: prod.splits)
  have batch: "sx_batch sx2 = sx_batch sx"
    by (simp add: sx2_def same)
  show ?thesis
  proof (cases "sx_batch sx2 \<le> int (sx_dgram_msgs sx2)")
    case True
    with fin have "sx_flush sx2 = (out, sx')"
      by simp
    note fl = sx_flush_spec(1-3) [OF this] sx_flush_datagrams [OF this len]
    have "sx_feed_count sx2 = sx_feed_count sx + 1"
      by (simp add: sx2_def same)
    then show ?thesis
      using fl pend len assms(2) q batch is_quote_feed_msg [of t s px sz sx1 "clock k1"]
      by (intro exI [of _ m]) (auto simp: m_def sx_ok_def quotes_eq)
  next
    case False
    have "sx_feed_count sx2 = sx_feed_count sx + 1"
      by (simp add: sx2_def same)
    with False fin pend len assms(2) q batch is_quote_feed_msg [of t s px sz sx1 "clock k1"] show ?thesis
      by (intro exI [of _ m]) (auto simp: m_def sx_ok_def)
  qed
qed


subsection \<open>The walk stays in its band\<close>

text \<open>Every price of the exchange is a whole number of ticks away from the starting mid.\<close>

definition grid :: "sx_config \<Rightarrow> int \<Rightarrow> i64" where
  "grid cf c = cf_base_price cf + word_of_int c * cf_tick cf"

definition cfg_fits :: "sx_config \<Rightarrow> bool" where
  "cfg_fits cf \<longleftrightarrow> 0 < sint (cf_tick cf)
     \<and> in_i64 (sint (cf_base_price cf) - 1502 * sint (cf_tick cf))
     \<and> in_i64 (sint (cf_base_price cf) + 1502 * sint (cf_tick cf))"

lemma sint_base_plus:
  assumes "in_i64 (sint b + c * sint t)"
  shows "sint (b + word_of_int c * t :: i64) = sint b + c * sint t"
proof -
  have "b + word_of_int c * t = word_of_int (sint b + c * sint t)"
    by simp
  then show ?thesis
    by (simp only: sint_of_int_i64 [OF assms])
qed

lemma in_i64_between: "in_i64 a \<Longrightarrow> in_i64 b \<Longrightarrow> a \<le> x \<Longrightarrow> x \<le> b \<Longrightarrow> in_i64 x"
  by (simp add: in_i64_def)

lemma sint_grid:
  assumes "cfg_fits cf" "\<bar>c\<bar> \<le> 1502"
  shows "sint (grid cf c) = sint (cf_base_price cf) + c * sint (cf_tick cf)"
proof -
  have t: "0 < sint (cf_tick cf)"
    using assms(1) by (simp add: cfg_fits_def)
  then have "- 1502 * sint (cf_tick cf) \<le> c * sint (cf_tick cf)" "c * sint (cf_tick cf) \<le> 1502 * sint (cf_tick cf)"
    using assms(2) by (intro mult_right_mono; simp)+
  then have "in_i64 (sint (cf_base_price cf) + c * sint (cf_tick cf))"
    using assms(1) unfolding cfg_fits_def
    by (elim conjE) (rule in_i64_between, assumption+, simp_all)
  then show ?thesis
    unfolding grid_def by (rule sint_base_plus)
qed

lemma grid_less:
  "cfg_fits cf \<Longrightarrow> \<bar>c\<bar> \<le> 1502 \<Longrightarrow> \<bar>d\<bar> \<le> 1502 \<Longrightarrow> sint (grid cf c) < sint (grid cf d) \<longleftrightarrow> c < d"
  by (simp add: sint_grid) (simp add: cfg_fits_def)

lemma grid_move: "grid cf c + word_of_int d * cf_tick cf = grid cf (c + d)"
  "grid cf c + cf_tick cf = grid cf (c + 1)" "grid cf c - cf_tick cf = grid cf (c - 1)"
  by (simp_all add: grid_def algebra_simps)

definition on_grid :: "sx_config \<Rightarrow> int \<Rightarrow> i64 \<Rightarrow> bool" where
  "on_grid cf n px \<longleftrightarrow> (\<exists>c. \<bar>c\<bar> \<le> n \<and> px = grid cf c)"

definition walk_ok :: "sx_config \<Rightarrow> exchange \<Rightarrow> bool" where
  "walk_ok cf sx \<longleftrightarrow> sx_tick sx = cf_tick cf \<and> sx_mid_lo sx = grid cf (- 1500) \<and> sx_mid_hi sx = grid cf 1500
     \<and> on_grid cf 1500 (sx_mid sx) \<and> on_grid cf 1501 (sx_best_bid sx) \<and> on_grid cf 1501 (sx_best_ask sx)
     \<and> 0 < unat (sx_bid_sz sx) \<and> 0 < unat (sx_ask_sz sx)"

lemma walk_ok_init: "walk_ok cf (exchange_init cpn cf)"
  by (auto simp: walk_ok_def exchange_init_def on_grid_def grid_def
      intro: exI [of _ "0::int"] exI [of _ "- 1::int"] exI [of _ "1::int"])

lemma walk_ok_quotes: "quotes sx' = quotes sx \<Longrightarrow> walk_ok cf sx' = walk_ok cf sx"
  by (simp add: walk_ok_def quotes_eq)

text \<open>One move of the mid: a tick down, none or up, clamped to the band.\<close>

lemma clamped_move:
  assumes "cfg_fits cf" "\<bar>c\<bar> \<le> 1500" "\<bar>d\<bar> \<le> 1"
  defines "mid \<equiv> grid cf (c + d)"
  defines "mid1 \<equiv> (if sint mid < sint (grid cf (- 1500)) then grid cf (- 1500) else mid)"
  shows "on_grid cf 1500 (if sint (grid cf 1500) < sint mid1 then grid cf 1500 else mid1)"
proof -
  have "\<bar>c + d\<bar> \<le> 1501"
    using assms(2,3) by simp
  then show ?thesis
    using grid_less [OF assms(1), of "c + d" "- 1500"] grid_less [OF assms(1), of 1500 "c + d"]
      grid_less [OF assms(1), of 1500 "- 1500"]
    by (auto simp: mid_def mid1_def on_grid_def not_less
        intro: exI [of _ "- 1500::int"] exI [of _ "1500::int"] exI [of _ "c + d"])
qed

lemma draw_move:
  assumes "rng_range 0 2 g = (r, g')"
  shows "\<exists>d. \<bar>d\<bar> \<le> 1 \<and> (ucast r - 1 :: i64) = word_of_int d"
proof -
  have "r \<le> 2"
    using rng_range_bounds [OF assms] by simp
  then have "uint r \<le> 2"
    by (simp add: word_le_def)
  moreover have "(ucast r - 1 :: i64) = word_of_int (uint r - 1)"
    by simp
  ultimately show ?thesis
    by (intro exI [of _ "uint r - 1"]) (simp add: uint_u32_bounds abs_le_iff del: of_int_diff)
qed


subsection \<open>A book fed with the messages\<close>

text \<open>
  A reference book shows the exchange when each side holds one level, the exchange's quote: the best
  price's level with the quoted size, every other level empty.
\<close>

definition shows_quotes :: "(i64 \<Rightarrow> nat option) \<Rightarrow> exchange \<Rightarrow> ref_book \<Rightarrow> bool" where
  "shows_quotes index sx lv \<longleftrightarrow>
     (\<forall>i. lv True i = (if index (sx_best_bid sx) = Some i then unat (sx_bid_sz sx) else 0)) \<and>
     (\<forall>i. lv False i = (if index (sx_best_ask sx) = Some i then unat (sx_ask_sz sx) else 0))"

lemma shows_quotes_frame: "quotes sx' = quotes sx \<Longrightarrow> shows_quotes index sx' lv = shows_quotes index sx lv"
  by (simp add: shows_quotes_def quotes_eq)

definition tracks :: "(i64 \<Rightarrow> nat option) \<Rightarrow> sx_config \<Rightarrow> exchange \<Rightarrow> ref_book \<Rightarrow> bool" where
  "tracks index cf sx lv \<longleftrightarrow> sx_ok sx \<and> walk_ok cf sx \<and> shows_quotes index sx lv"

text \<open>
  The window sees the exchange: it shares the tick, its bottom lies \<open>j\<close> ticks below the starting mid, far
  enough for the band and one tick of spread, and its top far enough above.
\<close>

definition sees_band :: "(i64 \<Rightarrow> nat option) \<Rightarrow> sx_config \<Rightarrow> nat \<Rightarrow> bool" where
  "sees_band index cf j \<longleftrightarrow> (\<forall>c. \<bar>c\<bar> \<le> 1501 \<longrightarrow> index (grid cf c) = Some (nat (c + int j)))"

lemma on_grid_seen: "sees_band index cf j \<Longrightarrow> on_grid cf 1501 px \<Longrightarrow> \<exists>i. index px = Some i"
  by (auto simp: sees_band_def on_grid_def)

lemma ref_apply_quote:
  assumes "is_quote t s px sz m" "index px = Some i" "s = kBuy \<or> s = kSell"
  shows "ref_apply index m lv =
    lv(s = kBuy := (lv (s = kBuy))(i := ref_size (Some t) (unat sz) (lv (s = kBuy) i)))"
  using assms by (auto simp: ref_apply_def is_quote_def Let_def)

lemma requote_eq:
  "sx_requote clock do_bid px (k, sx) =
     (case sx_emit clock kDelete (if do_bid then kBuy else kSell) (if do_bid then sx_best_bid sx else sx_best_ask sx)
             (if do_bid then sx_bid_sz sx else sx_ask_sz sx) (k, sx) of
        None \<Rightarrow> None
      | Some (out1, k1, sx1) \<Rightarrow>
          (case level_size (sx_rng sx1) of (z, g) \<Rightarrow>
             map_option (\<lambda>(out2, st). (out1 @ out2, st))
               (sx_emit clock kAdd (if do_bid then kBuy else kSell) px z
                  (k1, if do_bid then sx1\<lparr>sx_best_bid := px, sx_bid_sz := z, sx_rng := g\<rparr>
                       else sx1\<lparr>sx_best_ask := px, sx_ask_sz := z, sx_rng := g\<rparr>))))"
  by (cases do_bid) (simp_all add: sx_requote_def Let_def split: option.split prod.split)

lemma requote_tracks:
  assumes "sx_requote clock do_bid px (k, sx) = Some (out, k', sx')"
    and "tracks index cf sx lv" "on_grid cf 1501 px" "sees_band index cf j"
  shows "\<exists>ms. received out @ pending sx' = pending sx @ ms
    \<and> tracks index cf sx' (fold (ref_apply index) ms lv)"
proof -
  have ok: "sx_ok sx" and walk: "walk_ok cf sx" and sq: "shows_quotes index sx lv"
    using assms(2) by (simp_all add: tracks_def)
  define t where "t = (if do_bid then kBuy else kSell)"
  define old where "old = (if do_bid then sx_best_bid sx else sx_best_ask sx)"
  define osz where "osz = (if do_bid then sx_bid_sz sx else sx_ask_sz sx)"
  obtain i where i: "index old = Some i"
    using walk on_grid_seen [OF assms(4), of old] by (cases do_bid) (auto simp: old_def walk_ok_def)
  obtain n where n: "index px = Some n"
    using on_grid_seen [OF assms(4,3)] by blast
  obtain out1 k1 sx1 where del: "sx_emit clock kDelete t old osz (k, sx) = Some (out1, k1, sx1)"
    using assms(1) unfolding requote_eq t_def old_def osz_def by (auto split: option.splits)
  obtain z g where lvl: "level_size (sx_rng sx1) = (z, g)"
    by (rule prod.exhaust)
  define sx2 where "sx2 = (if do_bid then sx1\<lparr>sx_best_bid := px, sx_bid_sz := z, sx_rng := g\<rparr>
    else sx1\<lparr>sx_best_ask := px, sx_ask_sz := z, sx_rng := g\<rparr>)"
  from assms(1) del lvl obtain out2 where
    add: "sx_emit clock kAdd t px z (k1, sx2) = Some (out2, k', sx')" and out: "out = out1 @ out2"
    unfolding requote_eq t_def [symmetric] old_def [symmetric] osz_def [symmetric]
    by (auto simp: lvl sx2_def [symmetric])
  obtain m1 where m1: "is_quote kDelete t old osz m1" "received out1 @ pending sx1 = pending sx @ [m1]"
    "sx_ok sx1" "quotes sx1 = quotes sx"
    using sx_emit_spec [OF del ok] by blast
  have ok2: "sx_ok sx2" and pend: "pending sx2 = pending sx1"
    using m1(3) by (auto simp: sx2_def sx_ok_def pending_def)
  obtain m2 where m2: "is_quote kAdd t px z m2" "received out2 @ pending sx' = pending sx2 @ [m2]"
    "sx_ok sx'" "quotes sx' = quotes sx2"
    using sx_emit_spec [OF add ok2] by blast
  have walk2: "walk_ok cf sx2"
    using walk m1(4) assms(3) level_size_bounds(3) [OF lvl] by (auto simp: walk_ok_def sx2_def quotes_eq)
  have t: "t = kBuy \<or> t = kSell" "(t = kBuy) = do_bid"
    by (simp_all add: t_def)
  have "shows_quotes index sx2 (fold (ref_apply index) [m1, m2] lv)"
    using sq m1(4) i n level_size_bounds(4) [OF lvl]
    by (auto simp: ref_apply_quote [where index = index, OF m1(1) i t(1)]
        ref_apply_quote [where index = index, OF m2(1) n t(1)] t(2) shows_quotes_def
        sx2_def quotes_eq old_def osz_def ref_size_def split: if_splits)
  then have "tracks index cf sx' (fold (ref_apply index) [m1, m2] lv)"
    using m2(3) walk2 by (simp add: tracks_def walk_ok_quotes [OF m2(4)] shows_quotes_frame [OF m2(4)])
  moreover have "received out @ pending sx' = pending sx @ [m1, m2]"
    using m1(2) m2(2) by (simp add: out pend)
  ultimately show ?thesis
    by blast
qed

lemma step_tracks:
  assumes "sx_step clock (k, sx) = Some (out, k', sx')" "tracks index cf sx lv"
    and "sees_band index cf j" "cfg_fits cf"
  shows "\<exists>ms. received out @ pending sx' = pending sx @ ms
    \<and> tracks index cf sx' (fold (ref_apply index) ms lv)"
proof -
  obtain w g1 where g1: "rng_next (sx_rng sx) = (w, g1)" by (rule prod.exhaust)
  obtain r g2 where g2: "rng_range 0 2 g1 = (r, g2)" by (rule prod.exhaust)
  obtain c g3 where g3: "rng_range 0 255 g2 = (c, g3)" by (rule prod.exhaust)
  define mid0 where "mid0 = sx_mid sx + (ucast r - 1) * sx_tick sx"
  define mid1 where "mid1 = (if sint mid0 < sint (sx_mid_lo sx) then sx_mid_lo sx else mid0)"
  define mid2 where "mid2 = (if sint (sx_mid_hi sx) < sint mid1 then sx_mid_hi sx else mid1)"
  define spread where "spread = (if c = 0 then - sx_tick sx else sx_tick sx)"
  define px where "px = (if w AND 1 \<noteq> 0 then mid2 - spread else mid2 + spread)"
  let ?sx1 = "sx\<lparr>sx_rng := g3, sx_mid := mid2\<rparr>"
  have step: "sx_requote clock (w AND 1 \<noteq> 0) px (k, ?sx1) = Some (out, k', sx')"
    using assms(1) unfolding sx_step_def Let_def
    by (simp only: split g1 g2 g3 px_def mid2_def mid1_def mid0_def spread_def)
  have walk: "walk_ok cf sx"
    using assms(2) by (simp add: tracks_def)
  then obtain cm where cm: "\<bar>cm\<bar> \<le> 1500" "sx_mid sx = grid cf cm"
    by (auto simp: walk_ok_def on_grid_def)
  obtain d where d: "\<bar>d\<bar> \<le> 1" "(ucast r - 1 :: i64) = word_of_int d"
    using draw_move [OF g2] by blast
  have mid0: "mid0 = grid cf (cm + d)"
    using walk by (simp only: mid0_def cm(2) d(2) walk_ok_def grid_move(1))
  have band: "sx_mid_lo sx = grid cf (- 1500)" "sx_mid_hi sx = grid cf 1500"
    using walk by (simp_all add: walk_ok_def)
  have mid2: "on_grid cf 1500 mid2"
    unfolding mid2_def mid1_def mid0 band by (rule clamped_move [OF assms(4) cm(1) d(1)])
  then obtain c2 where c2: "\<bar>c2\<bar> \<le> 1500" "mid2 = grid cf c2"
    by (auto simp: on_grid_def)
  have "px = grid cf (c2 + 1) \<or> px = grid cf (c2 - 1)"
    using walk by (auto simp: px_def spread_def c2(2) walk_ok_def grid_move)
  then have px: "on_grid cf 1501 px"
    using c2(1) by (auto simp: on_grid_def intro: exI [of _ "c2 + 1"] exI [of _ "c2 - 1"])
  have "tracks index cf ?sx1 lv"
    using assms(2) mid2 by (auto simp: tracks_def walk_ok_def sx_ok_def shows_quotes_def)
  from requote_tracks [OF step this px assms(3)] show ?thesis
    by (simp add: pending_def)
qed

text \<open>Serving orders touches nothing but the two counters of orders and fills.\<close>

lemma service_orders_only_counts:
  "service_orders d inbox sx = (left, fills, sx') \<Longrightarrow>
   sx' = sx\<lparr>sx_order_count := sx_order_count sx', sx_fill_count := sx_fill_count sx'\<rparr>"
proof (induction d inbox sx arbitrary: left fills rule: service_orders.induct)
  case (3 d bs inbox sx)
  show ?case
  proof (cases "length (take kOrderSize bs) \<noteq> kOrderSize")
    case True
    then show ?thesis
      using "3.prems" by (simp only: service_orders.simps if_True prod.inject simp_thms) simp
  next
    case False
    let ?sx1 = "sx\<lparr>sx_order_count := sx_order_count sx + 1, sx_fill_count := sx_fill_count sx + 1\<rparr>"
    obtain left1 fills1 where "service_orders d inbox ?sx1 = (left1, fills1, sx')"
      using "3.prems" False by (simp only: service_orders.simps if_False Let_def split: prod.splits) auto
    from "3.IH" [OF False refl refl this] show ?thesis
      by (cases sx; cases sx') simp
  qed
qed auto

lemma service_orders_frame:
  assumes "service_orders d inbox sx = (left, fills, sx')"
  shows "quotes sx' = quotes sx" "pending sx' = pending sx" "sx_ok sx' = sx_ok sx"
    "sx_feed_count sx' = sx_feed_count sx" "sx_cycles_per_msg sx' = sx_cycles_per_msg sx"
  by (subst service_orders_only_counts [OF assms], simp add: quotes_eq pending_def sx_ok_def)+

lemma loop_tracks:
  assumes "sx_loop clock inboxes (k, sx) = Some (out, fills, k', sx')" "tracks index cf sx lv"
    and "sees_band index cf j" "cfg_fits cf"
  shows "\<exists>ms. received out @ pending sx' = pending sx @ ms
    \<and> tracks index cf sx' (fold (ref_apply index) ms lv)"
  using assms(1,2)
proof (induction inboxes arbitrary: k sx lv out fills)
  case Nil
  then show ?case
    by (intro exI [of _ "[]"]) simp
next
  case (Cons inbox inboxes)
  from Cons.prems(1) obtain out1 k1 sx1 left1 fills1 sx2 out2 fills2 where
    step: "sx_step clock (k, sx) = Some (out1, k1, sx1)"
    and serve: "service_orders 32 inbox sx1 = (left1, fills1, sx2)"
    and rest: "sx_loop clock inboxes (k1, sx2) = Some (out2, fills2, k', sx')" and out: "out = out1 @ out2"
    by (auto split: option.splits prod.splits)
  from step_tracks [OF step Cons.prems(2) assms(3,4)] obtain ms1 where
    ms1: "received out1 @ pending sx1 = pending sx @ ms1" "tracks index cf sx1 (fold (ref_apply index) ms1 lv)"
    by blast
  have same: "quotes sx2 = quotes sx1" and pend: "pending sx2 = pending sx1" and "sx_ok sx2 = sx_ok sx1"
    using service_orders_frame [OF serve] by simp_all
  then have "tracks index cf sx2 (fold (ref_apply index) ms1 lv)"
    using ms1(2) by (simp add: tracks_def walk_ok_quotes [OF same] shows_quotes_frame [OF same])
  from Cons.IH [OF rest this(1)] obtain ms2 where
    "received out2 @ pending sx' = pending sx2 @ ms2"
    "tracks index cf sx' (fold (ref_apply index) ms2 (fold (ref_apply index) ms1 lv))"
    by blast
  then show ?case
    using ms1(1) pend by (intro exI [of _ "ms1 @ ms2"]) (simp add: out)
qed

lemma emit_add_tracks_levels:
  assumes "is_quote kAdd t px sz m" "index px = Some i" "t = kBuy \<or> t = kSell" "lv (t = kBuy) i = 0"
    "unat sz < 2 ^ 32 - 1"
  shows "ref_apply index m lv = lv(t = kBuy := (lv (t = kBuy))(i := unat sz))"
  using assms by (simp add: ref_apply_quote [where index = index, OF assms(1-3)] ref_size_def)

lemma open_tracks:
  assumes "sx_open clock (k, exchange_init cpn cf) = Some (out, k', sx)" "sees_band index cf j"
  shows "\<exists>ms. received out @ pending sx = ms \<and> tracks index cf sx (fold (ref_apply index) ms (\<lambda>_ _. 0))"
proof -
  let ?sx0 = "(exchange_init cpn cf)\<lparr>sx_next_send := clock k\<rparr>"
  have ok0: "sx_ok ?sx0" and pend0: "pending ?sx0 = []" and walk0: "walk_ok cf ?sx0"
    using sx_ok_init [of cpn cf] walk_ok_init [of cf cpn] by (auto simp: sx_ok_def pending_def walk_ok_def)
  from assms(1) obtain out1 k1 sx1 out2 k2 sx2 out3 where
    e1: "sx_emit clock kAdd kBuy (sx_best_bid ?sx0) (sx_bid_sz ?sx0) (k + 1, ?sx0) = Some (out1, k1, sx1)"
    and e2: "sx_emit clock kAdd kSell (sx_best_ask sx1) (sx_ask_sz sx1) (k1, sx1) = Some (out2, k2, sx2)"
    and fl: "sx_flush sx2 = (out3, sx)" and out: "out = out1 @ out2 @ out3"
    by (auto simp: sx_open_def Let_def split: option.splits prod.splits)
  obtain m1 where m1: "is_quote kAdd kBuy (sx_best_bid ?sx0) (sx_bid_sz ?sx0) m1"
    "received out1 @ pending sx1 = [m1]" "sx_ok sx1" "quotes sx1 = quotes ?sx0"
    using sx_emit_spec [OF e1 ok0] pend0 by auto
  obtain m2 where m2: "is_quote kAdd kSell (sx_best_ask sx1) (sx_ask_sz sx1) m2"
    "received out2 @ pending sx2 = pending sx1 @ [m2]" "sx_ok sx2" "quotes sx2 = quotes sx1"
    using sx_emit_spec [OF e2 m1(3)] by blast
  note fl_spec = sx_flush_spec [OF fl]
  have same: "quotes sx = quotes ?sx0"
    using m1(4) m2(4) fl_spec(3) by (simp add: quotes_eq)
  have ask: "sx_best_ask sx1 = sx_best_ask ?sx0" "sx_ask_sz sx1 = sx_ask_sz ?sx0"
    using m1(4) by (simp_all add: quotes_eq)
  obtain i n where i: "index (sx_best_bid ?sx0) = Some i" and n: "index (sx_best_ask ?sx0) = Some n"
    using walk0 on_grid_seen [OF assms(2)] by (metis walk_ok_def)
  have sz: "unat (sx_bid_sz ?sx0) = 500" "unat (sx_ask_sz ?sx0) = 500"
    by (simp_all add: exchange_init_def)
  have "shows_quotes index ?sx0 (fold (ref_apply index) [m1, m2] (\<lambda>_ _. 0))"
    using i n sz
    by (auto simp: emit_add_tracks_levels [where index = index, OF m1(1) i]
        emit_add_tracks_levels [where index = index, OF m2(1) n [folded ask]] ask shows_quotes_def)
  then have "tracks index cf sx (fold (ref_apply index) [m1, m2] (\<lambda>_ _. 0))"
    using walk0 fl_spec(4) [OF m2(3)] by (simp add: tracks_def walk_ok_quotes [OF same] shows_quotes_frame [OF same])
  moreover have "received out @ pending sx = [m1, m2]"
    using m1(2) m2(2) fl_spec(1) by (simp add: out)
  ultimately show ?thesis
    by blast
qed

lemma run_tracks:
  assumes "sx_run clock inboxes (exchange_init cpn cf) = Some (out, fills, sx)"
    and "sees_band index cf j" "cfg_fits cf"
  shows "pending sx = [] \<and> tracks index cf sx (fold (ref_apply index) (received out) (\<lambda>_ _. 0))"
proof -
  from assms(1) obtain out1 k1 sx1 out2 k2 sx2 out3 where
    op: "sx_open clock (0, exchange_init cpn cf) = Some (out1, k1, sx1)"
    and loop: "sx_loop clock inboxes (k1, sx1) = Some (out2, fills, k2, sx2)"
    and fl: "sx_flush sx2 = (out3, sx)" and out: "out = out1 @ out2 @ out3"
    by (auto simp: sx_run_def Let_def split: option.splits prod.splits)
  obtain ms1 where ms1: "received out1 @ pending sx1 = ms1" "tracks index cf sx1 (fold (ref_apply index) ms1 (\<lambda>_ _. 0))"
    using open_tracks [OF op assms(2)] by blast
  obtain ms2 where ms2: "received out2 @ pending sx2 = pending sx1 @ ms2"
    "tracks index cf sx2 (fold (ref_apply index) ms2 (fold (ref_apply index) ms1 (\<lambda>_ _. 0)))"
    using loop_tracks [OF loop ms1(2) assms(2,3)] by blast
  note fl_spec = sx_flush_spec [OF fl]
  have "received out = ms1 @ ms2"
    using ms1(1) ms2(1) fl_spec(1,2) by (simp add: out)
  moreover have same: "quotes sx = quotes sx2"
    by (simp add: fl_spec(3) quotes_eq)
  ultimately show ?thesis
    using ms2(2) fl_spec(2,4)
    by (simp add: tracks_def walk_ok_quotes [OF same] shows_quotes_frame [OF same])
qed


subsection \<open>The engine's window\<close>

definition window_ok :: "sx_config \<Rightarrow> nat \<Rightarrow> nat \<Rightarrow> bool" where
  "window_ok cf N j \<longleftrightarrow> 1501 \<le> j \<and> j + 1501 < N \<and> N \<le> 2 ^ 31
     \<and> in_i64 (sint (cf_base_price cf) - int j * sint (cf_tick cf)) \<and> in_i64 (int N * sint (cf_tick cf))"

definition window_book :: "sx_config \<Rightarrow> nat \<Rightarrow> nat \<Rightarrow> book" where
  "window_book cf N j = book_init N (grid cf (- int j)) (cf_tick cf)"

lemma scaled_fits:
  fixes t :: int
  assumes "n < N" "0 < t" "in_i64 (int N * t)" "N \<le> 2 ^ 31"
  shows "in_i64 (int n * t)" "int n * t < 2 ^ 31 * t"
proof -
  have "int n * t \<le> int N * t" "0 \<le> int n * t"
    using assms(1,2) by (simp_all add: mult_right_mono)
  then show "in_i64 (int n * t)"
    using assms(3) by (simp add: in_i64_def)
  show "int n * t < 2 ^ 31 * t"
    using assms(1,2,4) by (intro mult_strict_right_mono) auto
qed

lemma window_sees_band:
  assumes "cfg_fits cf" "window_ok cf N j"
  shows "sees_band (window_index (window_book cf N j)) cf j"
  unfolding sees_band_def
proof (intro allI impI)
  fix c :: int
  assume c: "\<bar>c\<bar> \<le> 1501"
  let ?b = "window_book cf N j" and ?t = "sint (cf_tick cf)"
  have t: "0 < ?t"
    using assms(1) by (simp add: cfg_fits_def)
  have base: "sint (base ?b) = sint (cf_base_price cf) - int j * ?t"
    using sint_base_plus [of "cf_base_price cf" "- int j" "cf_tick cf"] assms(2)
    by (simp add: window_book_def book_init_def grid_def window_ok_def)
  have "0 \<le> c + int j"
    using c assms(2) by (auto simp: window_ok_def abs_le_iff)
  then obtain n where n: "c + int j = int n"
    by (rule nonneg_int_cases)
  have px: "sint (grid cf c) = sint (base ?b) + int n * ?t"
    using sint_grid [OF assms(1), of c] c by (simp add: base algebra_simps flip: n)
  have lt: "n < N"
    using c n assms(2) by (auto simp: window_ok_def)
  have fit: "in_i64 (int n * ?t)" "int n * ?t < 2 ^ 31 * ?t"
    using scaled_fits [OF lt t] assms(2) by (simp_all add: window_ok_def)
  have tick: "tick ?b = cf_tick cf" "num_ticks ?b = N"
    by (simp_all add: window_book_def book_init_def num_ticks_def)
  have "0 \<le> int n * ?t"
    using t by simp
  with fit have "price_fits ?b (grid cf c)"
    using t by (simp add: price_fits_def px tick)
  from to_index_on_tick [OF this, of n] have "to_index ?b (grid cf c) = int n"
    by (simp add: px tick)
  then show "window_index ?b (grid cf c) = Some (nat (c + int j))"
    using lt by (simp add: window_index_def tick n)
qed

lemma single_level:
  assumes "0 < v" "\<forall>i. lv i = (if n = i then v else 0)" "lv m = w" "0 < w"
  shows "m = n \<and> w = (v :: nat)"
  using assms by (auto split: if_splits)

lemma book_shows_exchange:
  assumes "cfg_fits cf" "window_ok cf N j"
    and "tracks (window_index (window_book cf N j)) cf sx (fold (ref_apply (window_index (window_book cf N j))) ms (\<lambda>_ _. 0))"
  defines "b \<equiv> fold apply_msg ms (window_book cf N j)"
  shows "two_sided b \<and> best_bid_price b = sx_best_bid sx \<and> best_bid_size b = sx_bid_sz sx
    \<and> best_ask_price b = sx_best_ask sx \<and> best_ask_size b = sx_ask_sz sx"
proof -
  let ?ix = "window_index (window_book cf N j)"
  have ok: "book_ok b" and win: "base b = grid cf (- int j)" "tick b = cf_tick cf"
    unfolding b_def window_book_def using fold_apply_msg [OF book_ok_init, of ms N "grid cf (- int j)" "cf_tick cf"]
    by (simp_all add: book_init_def)
  have "book_levels (window_book cf N j) = (\<lambda>_ _. 0)"
    by (simp add: window_book_def book_levels_def level_def book_init_def num_ticks_def fun_eq_iff)
  then have lv: "book_levels b = fold (ref_apply ?ix) ms (\<lambda>_ _. 0)"
    unfolding b_def by (simp add: book_levels_fold window_book_def)
  have walk: "walk_ok cf sx" and sq: "shows_quotes ?ix sx (book_levels b)"
    using assms(3) by (simp_all add: tracks_def lv)
  obtain cb ca where cb: "\<bar>cb\<bar> \<le> 1501" "sx_best_bid sx = grid cf cb"
    and ca: "\<bar>ca\<bar> \<le> 1501" "sx_best_ask sx = grid cf ca"
    using walk by (auto simp: walk_ok_def on_grid_def)
  have ixb: "?ix (sx_best_bid sx) = Some (nat (cb + int j))" and ixa: "?ix (sx_best_ask sx) = Some (nat (ca + int j))"
    using window_sees_band [OF assms(1,2)] cb ca by (simp_all add: sees_band_def)
  have bids: "\<forall>i. book_levels b True i = (if nat (cb + int j) = i then unat (sx_bid_sz sx) else 0)"
    and asks: "\<forall>i. book_levels b False i = (if nat (ca + int j) = i then unat (sx_ask_sz sx) else 0)"
    using sq by (simp_all add: shows_quotes_def ixb ixa)
  have pos: "0 < unat (sx_bid_sz sx)" "0 < unat (sx_ask_sz sx)"
    using walk by (simp_all add: walk_ok_def)
  have hb: "has_bid b" and ha: "has_ask b"
    using bids asks pos by (auto simp: has_bid_levels [OF ok] has_ask_levels [OF ok])
  have B: "nat (best_bid_idx b) = nat (cb + int j) \<and> unat (best_bid_size b) = unat (sx_bid_sz sx)"
    by (rule single_level [OF pos(1) bids best_bid_levels(1,2) [OF ok hb]])
  have A: "nat (best_ask_idx b) = nat (ca + int j) \<and> unat (best_ask_size b) = unat (sx_ask_sz sx)"
    by (rule single_level [OF pos(2) asks best_ask_levels(1,2) [OF ok ha]])
  have j: "1501 \<le> int j"
    using assms(2) by (simp add: window_ok_def)
  have "0 \<le> best_bid_idx b" "0 \<le> best_ask_idx b"
    using hb ok by (auto simp: has_bid_def book_ok_def ask_best_def)
  then have "best_bid_idx b = cb + int j" "best_ask_idx b = ca + int j"
    using A B j cb(1) ca(1) by auto
  then show ?thesis
    using A B hb ha cb ca
    by (auto simp: two_sided_def best_bid_price_def best_ask_price_def price_at_def win grid_def algebra_simps
        intro: unsigned_word_eqI)
qed


subsection \<open>The run returns\<close>

text \<open>The paced run returns when the clock keeps passing every send time; an unpaced one always does.\<close>

definition clock_passes :: "(nat \<Rightarrow> u64) \<Rightarrow> bool" where
  "clock_passes clock \<longleftrightarrow> (\<forall>v k. \<exists>j \<ge> k. v \<le> clock j)"

definition sends_on :: "(nat \<Rightarrow> u64) \<Rightarrow> exchange \<Rightarrow> bool" where
  "sends_on clock sx \<longleftrightarrow> sx_cycles_per_msg sx = 0 \<or> clock_passes clock"

lemma pace_passes:
  assumes "clock_passes clock"
  shows "\<exists>k'. pace clock next_send k = Some k'"
proof -
  obtain j where "k \<le> j" "\<not> clock j < next_send"
    using assms unfolding clock_passes_def by (metis not_less)
  then show ?thesis
    using spin_while_returns [of "\<lambda>k. clock k < next_send" j k] by (auto simp: pace_def)
qed

lemma sx_flush_pacing: "sx_flush sx = (out, sx') \<Longrightarrow> sx_cycles_per_msg sx' = sx_cycles_per_msg sx"
  by (auto simp: sx_flush_def split: if_splits)

lemma sx_emit_returns:
  assumes "sends_on clock sx"
  shows "\<exists>out k' sx'. sx_emit clock t s px sz (k, sx) = Some (out, k', sx') \<and> sends_on clock sx'"
proof -
  obtain k1 sx1 where "(if sx_cycles_per_msg sx \<noteq> 0
            then map_option (\<lambda>k. (k, sx\<lparr>sx_next_send := sx_next_send sx + sx_cycles_per_msg sx\<rparr>))
                   (pace clock (sx_next_send sx) k)
            else Some (k, sx)) = Some (k1, sx1)" "sx_cycles_per_msg sx1 = sx_cycles_per_msg sx"
    using assms pace_passes [of clock "sx_next_send sx" k]
    by (cases "sx_cycles_per_msg sx = 0") (auto simp: sends_on_def)
  then show ?thesis
    using assms by (auto simp: sx_emit_def Let_def sends_on_def dest!: sx_flush_pacing split: prod.split)
qed

lemma sx_requote_returns:
  assumes "sends_on clock sx"
  shows "\<exists>out k' sx'. sx_requote clock do_bid px (k, sx) = Some (out, k', sx') \<and> sends_on clock sx'"
proof -
  let ?t = "if do_bid then kBuy else kSell"
  obtain out1 k1 sx1 where one: "sx_emit clock kDelete ?t (if do_bid then sx_best_bid sx else sx_best_ask sx)
      (if do_bid then sx_bid_sz sx else sx_ask_sz sx) (k, sx) = Some (out1, k1, sx1)" "sends_on clock sx1"
    using sx_emit_returns [OF assms] by blast
  obtain z g where lvl: "level_size (sx_rng sx1) = (z, g)"
    by (rule prod.exhaust)
  let ?sx2 = "if do_bid then sx1\<lparr>sx_best_bid := px, sx_bid_sz := z, sx_rng := g\<rparr>
                       else sx1\<lparr>sx_best_ask := px, sx_ask_sz := z, sx_rng := g\<rparr>"
  have "sends_on clock ?sx2"
    using one(2) by (simp add: sends_on_def)
  from sx_emit_returns [OF this, of kAdd ?t px z k1] obtain out2 k2 sx3 where
    "sx_emit clock kAdd ?t px z (k1, ?sx2) = Some (out2, k2, sx3)" "sends_on clock sx3"
    by blast
  then show ?thesis
    unfolding requote_eq one(1) by (simp add: lvl)
qed

lemma sx_step_requote:
  "\<exists>do_bid px g mid. sx_step clock (k, sx) = sx_requote clock do_bid px (k, sx\<lparr>sx_rng := g, sx_mid := mid\<rparr>)"
proof -
  obtain w g1 where g1: "rng_next (sx_rng sx) = (w, g1)" by (rule prod.exhaust)
  obtain r g2 where g2: "rng_range 0 2 g1 = (r, g2)" by (rule prod.exhaust)
  obtain c g3 where g3: "rng_range 0 255 g2 = (c, g3)" by (rule prod.exhaust)
  show ?thesis
    unfolding sx_step_def Let_def by (simp only: split g1 g2 g3) blast
qed

lemma sx_step_returns:
  assumes "sends_on clock sx"
  shows "\<exists>out k' sx'. sx_step clock (k, sx) = Some (out, k', sx') \<and> sends_on clock sx'"
proof -
  obtain do_bid px g mid where
    "sx_step clock (k, sx) = sx_requote clock do_bid px (k, sx\<lparr>sx_rng := g, sx_mid := mid\<rparr>)"
    using sx_step_requote by blast
  moreover have "sends_on clock (sx\<lparr>sx_rng := g, sx_mid := mid\<rparr>)"
    using assms by (simp add: sends_on_def)
  ultimately show ?thesis
    using sx_requote_returns by metis
qed

lemma sx_loop_returns:
  "sends_on clock sx \<Longrightarrow> \<exists>out fills k' sx'. sx_loop clock inboxes (k, sx) = Some (out, fills, k', sx')"
proof (induction inboxes arbitrary: k sx)
  case (Cons inbox inboxes)
  obtain out1 k1 sx1 where step: "sx_step clock (k, sx) = Some (out1, k1, sx1)" "sends_on clock sx1"
    using sx_step_returns [OF Cons.prems] by blast
  obtain left fills sx2 where serve: "service_orders 32 inbox sx1 = (left, fills, sx2)"
    by (rule prod_cases3)
  then have "sends_on clock sx2"
    using step(2) service_orders_frame(5) [OF serve] by (simp add: sends_on_def)
  then show ?case
    using Cons.IH [of sx2 k1] step(1) serve by auto
qed simp

lemma sx_open_returns:
  assumes "sends_on clock sx"
  shows "\<exists>out k' sx'. sx_open clock (k, sx) = Some (out, k', sx') \<and> sends_on clock sx'"
proof -
  let ?sx0 = "sx\<lparr>sx_next_send := clock k\<rparr>"
  have "sends_on clock ?sx0"
    using assms by (simp add: sends_on_def)
  from sx_emit_returns [OF this] obtain out1 k1 sx1 where
    e1: "sx_emit clock kAdd kBuy (sx_best_bid ?sx0) (sx_bid_sz ?sx0) (k + 1, ?sx0) = Some (out1, k1, sx1)"
      "sends_on clock sx1"
    by blast
  from sx_emit_returns [OF e1(2)] obtain out2 k2 sx2 where
    e2: "sx_emit clock kAdd kSell (sx_best_ask sx1) (sx_ask_sz sx1) (k1, sx1) = Some (out2, k2, sx2)"
      "sends_on clock sx2"
    by blast
  obtain out3 sx3 where fl: "sx_flush sx2 = (out3, sx3)"
    by (rule prod.exhaust)
  have "sends_on clock sx3"
    using e2(2) sx_flush_pacing [OF fl] by (simp add: sends_on_def)
  then show ?thesis
    using e1(1) e2(1) fl by (simp add: sx_open_def Let_def)
qed

lemma sx_run_returns:
  assumes "sends_on clock sx"
  shows "\<exists>out fills sx'. sx_run clock inboxes sx = Some (out, fills, sx')"
proof -
  obtain out k sx1 where "sx_open clock (0, sx) = Some (out, k, sx1)" "sends_on clock sx1"
    using sx_open_returns [OF assms] by blast
  with sx_loop_returns [of clock sx1 inboxes k] show ?thesis
    by (auto simp: sx_run_def Let_def split: prod.split)
qed


subsection \<open>How much is sent\<close>

text \<open>
  \<open>n\<close> more messages are encoded; those of the datagrams \<open>out\<close> and those still waiting are all there are, and
  the counter has counted them.
\<close>

definition emits :: "nat \<Rightarrow> exchange \<Rightarrow> u8 list list \<Rightarrow> exchange \<Rightarrow> bool" where
  "emits n sx out sx' \<longleftrightarrow> sx_ok sx' \<and> (\<forall>d \<in> set out. datagram_ok d)
     \<and> length (received out @ pending sx') = length (pending sx) + n
     \<and> sx_feed_count sx' = sx_feed_count sx + of_nat n"

lemma emits_trans: "emits n sx out sx1 \<Longrightarrow> emits m sx1 out' sx' \<Longrightarrow> emits (n + m) sx (out @ out') sx'"
  by (auto simp: emits_def)

lemma emits_from:
  "emits n sx1 out sx' \<Longrightarrow> pending sx1 = pending sx \<Longrightarrow> sx_feed_count sx1 = sx_feed_count sx \<Longrightarrow> emits n sx out sx'"
  by (simp add: emits_def)

lemma emits_emit: "sx_emit clock t s px sz (k, sx) = Some (out, k', sx') \<Longrightarrow> sx_ok sx \<Longrightarrow> emits 1 sx out sx'"
  using sx_emit_spec [of clock t s px sz k sx out k' sx'] by (auto simp: emits_def dest: arg_cong [where f = length])

lemma emits_flush: "sx_flush sx = (out, sx') \<Longrightarrow> sx_ok sx \<Longrightarrow> emits 0 sx out sx'"
  using sx_flush_spec [of sx out sx'] sx_flush_datagrams [of sx out sx']
  by (auto simp: emits_def sx_ok_def dest: arg_cong [where f = length])

lemma emits_requote:
  assumes "sx_requote clock do_bid px (k, sx) = Some (out, k', sx')" "sx_ok sx"
  shows "emits 2 sx out sx'"
proof -
  obtain out1 k1 sx1 where del: "sx_emit clock kDelete (if do_bid then kBuy else kSell)
      (if do_bid then sx_best_bid sx else sx_best_ask sx) (if do_bid then sx_bid_sz sx else sx_ask_sz sx) (k, sx)
      = Some (out1, k1, sx1)"
    using assms(1) unfolding requote_eq by (auto split: option.splits)
  obtain z g where lvl: "level_size (sx_rng sx1) = (z, g)"
    by (rule prod.exhaust)
  let ?sx2 = "if do_bid then sx1\<lparr>sx_best_bid := px, sx_bid_sz := z, sx_rng := g\<rparr>
    else sx1\<lparr>sx_best_ask := px, sx_ask_sz := z, sx_rng := g\<rparr>"
  from assms(1) lvl obtain out2 where
    add: "sx_emit clock kAdd (if do_bid then kBuy else kSell) px z (k1, ?sx2) = Some (out2, k', sx')"
    and out: "out = out1 @ out2"
    unfolding requote_eq del by auto
  note one = emits_emit [OF del assms(2)]
  then have "sx_ok sx1"
    by (simp add: emits_def)
  then have "sx_ok ?sx2" "pending ?sx2 = pending sx1" "sx_feed_count ?sx2 = sx_feed_count sx1"
    by (cases do_bid; simp add: sx_ok_def pending_def)+
  then have "emits 1 sx1 out2 sx'"
    by (intro emits_from [OF emits_emit [OF add]])
  from emits_trans [OF one this] show ?thesis
    by (simp add: out numeral_2_eq_2)
qed

lemma emits_step:
  assumes "sx_step clock (k, sx) = Some (out, k', sx')" "sx_ok sx"
  shows "emits 2 sx out sx'"
proof -
  obtain do_bid px g mid where
    "sx_step clock (k, sx) = sx_requote clock do_bid px (k, sx\<lparr>sx_rng := g, sx_mid := mid\<rparr>)"
    using sx_step_requote by blast
  moreover have "sx_ok (sx\<lparr>sx_rng := g, sx_mid := mid\<rparr>)" "pending (sx\<lparr>sx_rng := g, sx_mid := mid\<rparr>) = pending sx"
    using assms(2) by (simp_all add: sx_ok_def pending_def)
  ultimately show ?thesis
    using assms(1)
    by (intro emits_from [OF emits_requote [of clock do_bid px k "sx\<lparr>sx_rng := g, sx_mid := mid\<rparr>" out k']]) simp_all
qed

lemma emits_open:
  assumes "sx_open clock (k, sx) = Some (out, k', sx')" "sx_ok sx"
  shows "emits 2 sx out sx'"
proof -
  let ?sx0 = "sx\<lparr>sx_next_send := clock k\<rparr>"
  from assms(1) obtain out1 k1 sx1 out2 k2 sx2 out3 where
    e1: "sx_emit clock kAdd kBuy (sx_best_bid ?sx0) (sx_bid_sz ?sx0) (k + 1, ?sx0) = Some (out1, k1, sx1)"
    and e2: "sx_emit clock kAdd kSell (sx_best_ask sx1) (sx_ask_sz sx1) (k1, sx1) = Some (out2, k2, sx2)"
    and fl: "sx_flush sx2 = (out3, sx')" and out: "out = out1 @ out2 @ out3"
    by (auto simp: sx_open_def Let_def split: option.splits prod.splits)
  have "sx_ok ?sx0" "pending ?sx0 = pending sx" "sx_feed_count ?sx0 = sx_feed_count sx"
    using assms(2) by (simp_all add: sx_ok_def pending_def)
  then have one: "emits 1 sx out1 sx1"
    by (intro emits_from [OF emits_emit [OF e1]])
  then have two: "emits 1 sx1 out2 sx2"
    using emits_emit [OF e2] by (simp add: emits_def)
  then have "emits 0 sx2 out3 sx'"
    using emits_flush [OF fl] by (simp add: emits_def)
  from emits_trans [OF one emits_trans [OF two this]] show ?thesis
    by (simp add: out numeral_2_eq_2)
qed


subsection \<open>The run and the book\<close>

text \<open>A run returns, and its datagrams make a book show the quotes.\<close>

lemma run_shows_quotes:
  assumes "cfg_fits cf" "window_ok cf N j" "sends_on clock (exchange_init cpn cf)"
  shows "\<exists>out fills sx. sx_run clock inboxes (exchange_init cpn cf) = Some (out, fills, sx)
    \<and> (let b = fold apply_msg (received out) (window_book cf N j) in
        two_sided b \<and> best_bid_price b = sx_best_bid sx \<and> best_bid_size b = sx_bid_sz sx
        \<and> best_ask_price b = sx_best_ask sx \<and> best_ask_size b = sx_ask_sz sx)
    \<and> pending sx = []"
proof -
  obtain out fills sx where run: "sx_run clock inboxes (exchange_init cpn cf) = Some (out, fills, sx)"
    using sx_run_returns [OF assms(3)] by blast
  from run_tracks [OF this window_sees_band [OF assms(1,2)] assms(1)]
  have "pending sx = []"
    and tr: "tracks (window_index (window_book cf N j)) cf sx
      (fold (ref_apply (window_index (window_book cf N j))) (received out) (\<lambda>_ _. 0))"
    by simp_all
  with run book_shows_exchange [OF assms(1,2) tr] show ?thesis
    by (auto simp: Let_def)
qed


subsection \<open>Properties\<close>

text \<open>
  C22. The feed is coherent: every run of the exchange returns (unpaced, or with a clock that keeps
  passing the send times), leaves no message unsent, and an engine that applies the messages of its
  datagrams in order to a window that covers the band ends with exactly the exchange's quotes: the best
  bid and ask with their prices and sizes, crossed markets and clamped walks included.
\<close>

theorem exchange_feed_rebuilds_quotes:
  assumes "cfg_fits cf" "window_ok cf N j" "sends_on clock (exchange_init cpn cf)"
  shows "\<exists>out fills sx. sx_run clock inboxes (exchange_init cpn cf) = Some (out, fills, sx)
    \<and> (let b = fold apply_msg (received out) (window_book cf N j) in
        two_sided b \<and> best_bid_price b = sx_best_bid sx \<and> best_bid_size b = sx_bid_sz sx
        \<and> best_ask_price b = sx_best_ask sx \<and> best_ask_size b = sx_ask_sz sx)
    \<and> pending sx = []"
  using assms by (rule run_shows_quotes)

text \<open>The engine's defaults: mid 100.00, one-cent ticks, a window of 4096 ticks from 80.00.\<close>

definition demo_exchange :: sx_config where
  "demo_exchange = \<lparr>cf_symbol = 0, cf_rate = 0, cf_batch = 8, cf_seed = 42, cf_base_price = 1000000, cf_tick = 100\<rparr>"

lemma demo_exchange_ok:
  "cfg_fits demo_exchange" "window_ok demo_exchange 4096 2000" "sends_on clock (exchange_init cpn demo_exchange)"
  by (simp_all add: cfg_fits_def window_ok_def demo_exchange_def in_i64_def sends_on_def exchange_init_def)

theorem exchange_feed_rebuilds_quotes_witness:
  "\<exists>out fills sx. sx_run (\<lambda>k. of_nat k) (replicate 1000 []) (exchange_init 1 demo_exchange) = Some (out, fills, sx)
     \<and> two_sided (fold apply_msg (received out) (window_book demo_exchange 4096 2000))"
  using exchange_feed_rebuilds_quotes [OF demo_exchange_ok, where clock = "\<lambda>k. of_nat k" and cpn = 1
      and inboxes = "replicate 1000 []"]
  by (auto simp: Let_def)

text \<open>The orders a receive loop of at most \<open>d\<close> receives takes from the socket.\<close>

fun orders_taken :: "nat \<Rightarrow> u8 list list \<Rightarrow> order_request list" where
  "orders_taken 0 inbox = []"
| "orders_taken (Suc d) [] = []"
| "orders_taken (Suc d) (bs # inbox) =
     (if length bs < kOrderSize then [] else parse_order (take kOrderSize bs) # orders_taken d inbox)"

lemma fill_of_simps [simp]:
  "r_order_id (fill_of ord) = o_order_id ord" "r_side (fill_of ord) = o_side ord"
  "r_fill_size (fill_of ord) = o_size ord" "exec_status (fill_of ord) = Some kFilled"
  by (simp_all add: fill_of_def exec_status_def del: exec_status_code.simps)

lemma service_orders_fills:
  "service_orders d inbox sx = (left, fills, sx') \<Longrightarrow>
   fills = map (\<lambda>ord. encode_exec (fill_of ord)) (orders_taken d inbox)
   \<and> sx_order_count sx' = sx_order_count sx + of_nat (length fills)
   \<and> sx_fill_count sx' = sx_fill_count sx + of_nat (length fills)"
proof (induction d inbox sx arbitrary: left fills rule: service_orders.induct)
  case (3 d bs inbox sx)
  show ?case
  proof (cases "length bs < kOrderSize")
    case True
    then have "length (take kOrderSize bs) \<noteq> kOrderSize"
      by simp
    then show ?thesis
      using "3.prems" True by (simp only: service_orders.simps if_True prod.inject) auto
  next
    case False
    then have len: "\<not> length (take kOrderSize bs) \<noteq> kOrderSize"
      by simp
    let ?sx1 = "sx\<lparr>sx_order_count := sx_order_count sx + 1, sx_fill_count := sx_fill_count sx + 1\<rparr>"
    obtain fills1 where "service_orders d inbox ?sx1 = (left, fills1, sx')"
      and "fills = encode_exec (fill_of (parse_order (take kOrderSize bs))) # fills1"
      using "3.prems" len by (simp only: service_orders.simps if_False Let_def split: prod.splits) auto
    with "3.IH" [OF len refl refl this(1)] False show ?thesis
      by simp
  qed
qed auto

text \<open>
  The exchange answers every order once and in full: for the orders of the whole datagrams waiting, at
  most 32 of them and up to the first short one, it sends one report each, in order, that reads back as
  a fill of that order: its id, tag, price, symbol, side and whole size. Its counters grow by their number.
\<close>

theorem exchange_fills_in_full:
  assumes "service_orders 32 inbox sx = (left, fills, sx')"
  shows "map parse_exec fills = map fill_of (orders_taken 32 inbox)
    \<and> (\<forall>ord. r_order_id (fill_of ord) = o_order_id ord \<and> r_side (fill_of ord) = o_side ord
        \<and> r_fill_size (fill_of ord) = o_size ord \<and> exec_status (fill_of ord) = Some kFilled)
    \<and> sx_order_count sx' = sx_order_count sx + of_nat (length fills)
    \<and> sx_fill_count sx' = sx_fill_count sx + of_nat (length fills)"
  using service_orders_fills [OF assms]
  by (auto simp: exec_codec.dec_enc_exact)

theorem exchange_fills_in_full_witness:
  "\<exists>left fills sx'. service_orders 32 [encode_order (demo_order 1 kBuy 5), [1, 2, 3], encode_order (demo_order 2 kBuy 5)]
      (exchange_init 1 demo_exchange) = (left, fills, sx')
    \<and> map r_order_id (map parse_exec fills) = [1] \<and> sx_fill_count sx' = 1"
proof -
  let ?in = "[encode_order (demo_order 1 kBuy 5), [1, 2, 3], encode_order (demo_order 2 kBuy 5)]"
  obtain left fills sx' where run: "service_orders 32 ?in (exchange_init 1 demo_exchange) = (left, fills, sx')"
    by (rule prod_cases3)
  have taken: "orders_taken 32 ?in = [demo_order 1 kBuy 5]"
    by (simp add: numeral_eq_Suc kOrderSize_def order_codec.dec_enc_exact)
  have "map parse_exec fills = map fill_of (orders_taken 32 ?in)"
    "sx_fill_count sx' = sx_fill_count (exchange_init 1 demo_exchange) + of_nat (length fills)"
    "r_order_id (fill_of (demo_order 1 kBuy 5)) = o_order_id (demo_order 1 kBuy 5)"
    using exchange_fills_in_full [OF run] by blast+
  then have "map parse_exec fills = [fill_of (demo_order 1 kBuy 5)]" "length fills = 1"
    unfolding taken by (auto dest: arg_cong [of _ _ length])
  with run show ?thesis
    using \<open>sx_fill_count sx' = _\<close> \<open>r_order_id _ = _\<close>
    by (auto simp: exchange_init_def demo_order_def)
qed

end
