(* ===== verification/WaitPolicy.thy ===== *)
theory WaitPolicy
  imports HftPrelude
begin

text \<open>
  \<open>include/hft/wait_policy.hpp\<close> and \<open>include/hft/affinity.hpp\<close>: what a stage does when a poll finds no work,
  and whether its thread got the core it asked for.

  An \<open>idle\<close> call either relaxes the core or gives it back to the scheduler; which of the two it does is
  its result. The two platform calls of the pinning code are arguments: whether the build has a hard
  affinity interface (with the size of its core set), and the error number the call returns. Thread names
  are byte strings of the source's length limit. Of the warning on standard error only the fact that it is printed is kept.
\<close>

datatype wait_policy = kAdaptive | kSpin | kYield

primrec wait_policy_string :: "wait_policy \<Rightarrow> string" where
  "wait_policy_string kAdaptive = ''adaptive''"
| "wait_policy_string kSpin = ''spin''"
| "wait_policy_string kYield = ''yield''"

definition kSpinsBeforeYield :: u32 where
  "kSpinsBeforeYield = 64"

record wait_strategy =
  ws_spin_only :: bool
  ws_spins :: u32

definition wait_strategy_init :: "wait_policy \<Rightarrow> bool \<Rightarrow> wait_strategy" where
  "wait_strategy_init policy pinned =
     \<lparr>ws_spin_only = (policy = kSpin \<or> policy = kAdaptive \<and> pinned), ws_spins = 0\<rparr>"

datatype idle_action = CpuRelax | ThreadYield

definition wait_idle :: "wait_strategy \<Rightarrow> idle_action \<times> wait_strategy" where
  "wait_idle w =
     (if ws_spin_only w then (CpuRelax, w)
      else
        let w = w\<lparr>ws_spins := ws_spins w + 1\<rparr> in
        if ws_spins w < kSpinsBeforeYield then (CpuRelax, w)
        else (ThreadYield, w\<lparr>ws_spins := 0\<rparr>))"

definition wait_reset :: "wait_strategy \<Rightarrow> wait_strategy" where
  "wait_reset w = w\<lparr>ws_spins := 0\<rparr>"


subsection \<open>Pinning\<close>

datatype affinity_status = kPinned | kUnsupportedPlatform | kInvalidCore | kFailed

primrec affinity_status_string :: "affinity_status \<Rightarrow> string" where
  "affinity_status_string kPinned = ''pinned''"
| "affinity_status_string kUnsupportedPlatform = ''unsupported-platform''"
| "affinity_status_string kInvalidCore = ''invalid-core''"
| "affinity_status_string kFailed = ''failed''"

record affinity_result =
  af_status :: affinity_status
  af_error :: int

definition affinity_ok :: "affinity_result \<Rightarrow> bool" where
  "affinity_ok r \<longleftrightarrow> af_status r = kPinned"

text \<open>\<open>cpu_setsize\<close> is \<^const>\<open>None\<close> on a platform without the interface; \<open>set_affinity\<close> is the call itself.\<close>

definition pin_current_thread :: "nat option \<Rightarrow> (nat \<Rightarrow> int) \<Rightarrow> i32 \<Rightarrow> affinity_result" where
  "pin_current_thread cpu_setsize set_affinity core =
     (case cpu_setsize of
        None \<Rightarrow> \<lparr>af_status = kUnsupportedPlatform, af_error = 0\<rparr>
      | Some setsize \<Rightarrow>
          if sint core < 0 \<or> setsize \<le> unat core then \<lparr>af_status = kInvalidCore, af_error = 0\<rparr>
          else
            let rc = set_affinity (unat core) in
            if rc \<noteq> 0 then \<lparr>af_status = kFailed, af_error = rc\<rparr> else \<lparr>af_status = kPinned, af_error = 0\<rparr>)"

definition kMaxThreadNameBytes :: nat where
  "kMaxThreadNameBytes = 16"

text \<open>The buffer handed to \<open>pthread_setname_np\<close>: the name cut to fit, and its terminating NUL.\<close>

definition thread_name_buffer :: "u8 list \<Rightarrow> u8 list" where
  "thread_name_buffer name =
     (let n = (if length name < kMaxThreadNameBytes - 1 then length name else kMaxThreadNameBytes - 1)
      in take n name @ [0])"

text \<open>\<open>pthread_setname_np\<close> is \<open>setname\<close>; only Linux needs the buffer.\<close>

datatype platform = Linux | Darwin | OtherPlatform

definition set_current_thread_name :: "platform \<Rightarrow> (u8 list \<Rightarrow> int) \<Rightarrow> u8 list \<Rightarrow> bool" where
  "set_current_thread_name pl setname name =
     (case pl of
        Linux \<Rightarrow> setname (thread_name_buffer name) = 0
      | Darwin \<Rightarrow> setname (name @ [0]) = 0
      | OtherPlatform \<Rightarrow> False)"

text \<open>The result and whether the warning was printed; what naming the thread returns is ignored.\<close>

definition pin_and_name_thread :: "nat option \<Rightarrow> (nat \<Rightarrow> int) \<Rightarrow> i32 \<Rightarrow> affinity_result \<times> bool" where
  "pin_and_name_thread cpu_setsize set_affinity core =
     (let r = pin_current_thread cpu_setsize set_affinity core
      in (r, af_status r = kFailed \<or> af_status r = kInvalidCore))"

text \<open>The wait strategy of a stage's \<open>run\<close>: \<open>WaitStrategy wait(wait_policy, pin.ok())\<close>.\<close>

definition stage_wait :: "wait_policy \<Rightarrow> affinity_result \<Rightarrow> wait_strategy" where
  "stage_wait policy pin = wait_strategy_init policy (affinity_ok pin)"


text \<open>A failed pin is never silent where pinning exists, and never reported where it does not.\<close>

lemma pin_failure_warns:
  assumes "pin_and_name_thread cpu_setsize set_affinity core = (r, warned)"
  shows "warned \<longleftrightarrow> cpu_setsize \<noteq> None \<and> \<not> affinity_ok r"
  using assms by (auto simp: pin_and_name_thread_def pin_current_thread_def affinity_ok_def Let_def split: option.splits if_splits)


subsection \<open>Idle spells\<close>

text \<open>What happens between two moments of a stage's loop: polls with work and polls without.\<close>

fun wait_run :: "bool list \<Rightarrow> wait_strategy \<Rightarrow> idle_action list \<times> wait_strategy" where
  "wait_run [] w = ([], w)"
| "wait_run (worked # ws) w =
     (if worked then wait_run ws (wait_reset w)
      else (case wait_idle w of (a, w') \<Rightarrow> case wait_run ws w' of (as, w'') \<Rightarrow> (a # as, w'')))"

lemma wait_run_Cons [simp]:
  "fst (wait_run (worked # ws) w) =
     (if worked then fst (wait_run ws (wait_reset w)) else fst (wait_idle w) # fst (wait_run ws (snd (wait_idle w))))"
  "snd (wait_run (worked # ws) w) =
     (if worked then snd (wait_run ws (wait_reset w)) else snd (wait_run ws (snd (wait_idle w))))"
  by (simp_all split: prod.split)

declare wait_run.simps(2) [simp del]

definition wait_ok :: "wait_strategy \<Rightarrow> bool" where
  "wait_ok w \<longleftrightarrow> unat (ws_spins w) < 64"

lemma wait_ok_init [simp]: "wait_ok (wait_strategy_init policy pinned)"
  by (simp add: wait_ok_def wait_strategy_init_def)

lemma wait_reset_simps [simp]:
  "wait_ok (wait_reset w)" "ws_spin_only (wait_reset w) = ws_spin_only w" "ws_spins (wait_reset w) = 0"
  by (simp_all add: wait_ok_def wait_reset_def)

lemma wait_idle_cases:
  assumes "wait_ok w"
  obtains (spin) "ws_spin_only w" "wait_idle w = (CpuRelax, w)"
  | (relax) w' where "\<not> ws_spin_only w" "wait_idle w = (CpuRelax, w')" "unat (ws_spins w') = unat (ws_spins w) + 1"
      "unat (ws_spins w) < 63" "\<not> ws_spin_only w'" "wait_ok w'"
  | (give) w' where "\<not> ws_spin_only w" "wait_idle w = (ThreadYield, w')" "unat (ws_spins w) = 63"
      "ws_spins w' = 0" "\<not> ws_spin_only w'" "wait_ok w'"
proof -
  have add: "unat (ws_spins w + 1) = unat (ws_spins w) + 1"
    using assms by (simp add: wait_ok_def unat_word_ariths)
  show thesis
  proof (cases "ws_spin_only w")
    case True
    then show ?thesis by (intro spin) (simp_all add: wait_idle_def)
  next
    case False
    then show ?thesis
      using add assms relax [of "w\<lparr>ws_spins := ws_spins w + 1\<rparr>"] give [of "w\<lparr>ws_spins := 0\<rparr>"]
      by (cases "unat (ws_spins w) < 63")
        (auto simp: wait_idle_def kSpinsBeforeYield_def word_less_nat_alt wait_ok_def Let_def)
  qed
qed

lemma spinner_never_yields:
  "ws_spin_only w \<Longrightarrow> fst (wait_run ws w) = replicate (length (filter Not ws)) CpuRelax"
  by (induction ws arbitrary: w) (auto simp: wait_idle_def)

text \<open>The yields of an idle spell, counted from the spins already spent.\<close>

lemma idle_spell_yields:
  assumes "\<not> ws_spin_only w" "wait_ok w"
  shows "length (filter (\<lambda>a. a = ThreadYield) (fst (wait_run (replicate n False) w))) = (unat (ws_spins w) + n) div 64"
  using assms
proof (induction n arbitrary: w)
  case 0
  then show ?case by (simp add: wait_ok_def)
next
  case (Suc n)
  from Suc.prems(2) show ?case
  proof (cases rule: wait_idle_cases)
    case spin
    with Suc.prems(1) show ?thesis by simp
  next
    case (relax w')
    then show ?thesis
      using Suc.IH [OF relax(5,6)] by simp
  next
    case (give w')
    then show ?thesis
      using Suc.IH [OF give(5,6)] by simp
  qed
qed

lemma wait_run_append: "snd (wait_run (xs @ ys) w) = snd (wait_run ys (snd (wait_run xs w)))"
  by (induction xs arbitrary: w) auto

lemma wait_run_spin_only: "ws_spin_only (snd (wait_run ws w)) = ws_spin_only w"
proof (induction ws arbitrary: w)
  case (Cons a ws)
  have "ws_spin_only (snd (wait_idle w)) = ws_spin_only w"
    by (simp add: wait_idle_def Let_def)
  with Cons show ?case by simp
qed simp

text \<open>
  C29. The wait policy: a stage spins without ever yielding exactly when its policy is spin, or adaptive
  and its thread is really pinned. Any other stage, in a spell of \<open>n\<close> idle polls after a poll with work,
  gives the core back exactly \<open>n div 64\<close> times: once in every 64 idle polls, and never in the first 63.
\<close>

theorem wait_policy_yields:
  fixes policy :: wait_policy and pin :: affinity_result and worked :: "bool list"
  defines "w \<equiv> snd (wait_run (worked @ [True]) (stage_wait policy pin))"
  shows "length (filter (\<lambda>a. a = ThreadYield) (fst (wait_run (replicate n False) w)))
    = (if policy = kSpin \<or> policy = kAdaptive \<and> af_status pin = kPinned then 0 else n div 64)"
proof -
  let ?spins = "policy = kSpin \<or> policy = kAdaptive \<and> af_status pin = kPinned"
  have spins: "ws_spin_only w \<longleftrightarrow> ?spins"
    by (simp add: w_def wait_run_spin_only stage_wait_def wait_strategy_init_def affinity_ok_def)
  have fresh: "wait_ok w" "unat (ws_spins w) = 0"
    by (simp_all add: w_def wait_run_append)
  show ?thesis
  proof (cases ?spins)
    case True
    then have "fst (wait_run (replicate n False) w) = replicate (length (filter Not (replicate n False))) CpuRelax"
      using spinner_never_yields spins by blast
    with True show ?thesis by simp
  next
    case False
    then show ?thesis
      using idle_spell_yields [of w n] spins fresh by (simp only: if_False add_0 simp_thms)
  qed
qed

text \<open>A thread counts as pinned only when the core is inside the set and the call for it succeeded.\<close>

lemma affinity_ok_pin:
  "affinity_ok (pin_current_thread (Some n) call core) \<longleftrightarrow> 0 \<le> sint core \<and> unat core < n \<and> call (unat core) = 0"
  "\<not> affinity_ok (pin_current_thread None call core)"
  by (auto simp: pin_current_thread_def affinity_ok_def Let_def not_le)

lemma thread_name_fits: "length (thread_name_buffer name) \<le> kMaxThreadNameBytes"
  by (simp add: thread_name_buffer_def kMaxThreadNameBytes_def)

end
