(* ===== verification/EngineModel.thy ===== *)
theory EngineModel
  imports Sockets SimExchange WaitPolicy
begin

text \<open>
  \<open>include/hft/engine.hpp\<close>: the three stages joined by their queues, and the engine together with the
  network and the exchange. \<open>engine\<close> holds the members of the class; the constructor, \<open>start\<close>, \<open>stop\<close>,
  \<open>trip_kill_switch\<close> and \<open>set_order_destination\<close> are functions on it.

  \<open>sys_step\<close> interleaves the three threads, the controlling thread and the exchange. A step contains one
  access to a queue that another thread shares: a message pushed by the feed handler, a fill or an event
  popped by the strategy, an event decided and its order pushed, a report matched and pushed, an order
  popped, checked and sent. The market data is arbitrary. The network may lose, duplicate, delay and
  reorder datagrams: whatever was ever sent may arrive at any time, any number of times.

  The lemmas follow the one order the latch lets into the pipeline (\<open>phase\<close>) and say what that means for
  the whole engine: positions, the unbounded waits, the risk limit and rejected orders.
\<close>

record engine_config =
  ec_wait_policy :: wait_policy
  ec_feed_core :: i32
  ec_strategy_core :: i32
  ec_gateway_core :: i32
  ec_feed_port :: u16
  ec_order_dst :: endpoint
  ec_fill_port :: u16
  ec_feed_bind :: string
  ec_fill_bind :: string
  ec_base_price :: i64
  ec_tick :: i64
  ec_threshold :: rat
  ec_order_size :: u32
  ec_risk :: risk_limits

definition engine_config_default :: "(string \<Rightarrow> u32 option) \<Rightarrow> engine_config option" where
  "engine_config_default pton =
     map_option (\<lambda>dst.
       \<lparr>ec_wait_policy = kAdaptive, ec_feed_core = - 1, ec_strategy_core = - 1, ec_gateway_core = - 1,
        ec_feed_port = 31337, ec_order_dst = dst, ec_fill_port = 31339,
        ec_feed_bind = ''0.0.0.0'', ec_fill_bind = ''0.0.0.0'',
        ec_base_price = price_from_double 80, ec_tick = i64_div kPriceScale 100,
        ec_threshold = b64_round (3 / 10), ec_order_size = 100,
        ec_risk = \<lparr>lim_max_position = 1000, lim_max_order_size = 500,
                   lim_max_orders_per_sec = 0, lim_burst = 0\<rparr>\<rparr>)
       (endpoint_v4 pton ''127.0.0.1'' 31338)"

record engine =
  en_cfg :: engine_config
  en_feed_q :: "md_event spsc"
  en_order_q :: "order_request spsc"
  en_fill_q :: "exec_report spsc"
  en_kill :: bool
  en_running :: bool
  en_feed :: feed_handler
  en_strat :: strategy_runner
  en_gw :: gateway
  en_order_dst :: endpoint

text \<open>The template arguments \<open>NumTicks\<close>, \<open>FeedQCap\<close>, \<open>OrderQCap\<close>, \<open>FillQCap\<close>, and the gateway's table size.\<close>

record engine_sizes =
  es_ticks :: nat
  es_feed_cap :: nat
  es_order_cap :: nat
  es_fill_cap :: nat
  es_in_flight :: nat

definition kEngineSizes :: engine_sizes where
  "kEngineSizes = \<lparr>es_ticks = 4096, es_feed_cap = 2 ^ 16, es_order_cap = 2 ^ 12, es_fill_cap = 2 ^ 12,
     es_in_flight = kInFlightCapacity\<rparr>"

definition engine_strategy_params :: "engine_config \<Rightarrow> strategy_params" where
  "engine_strategy_params cfg = \<lparr>sp_base_price = ec_base_price cfg, sp_tick = ec_tick cfg,
     sp_threshold = ec_threshold cfg, sp_order_size = ec_order_size cfg\<rparr>"

definition engine_init :: "engine_sizes \<Rightarrow> rat \<Rightarrow> engine_config \<Rightarrow> engine" where
  "engine_init sz cpn cfg =
     \<lparr>en_cfg = cfg,
      en_feed_q = spsc_init (es_feed_cap sz) \<lparr>ev_msg = zero_itch_message, ev_arrival_tsc = 0\<rparr>,
      en_order_q = spsc_init (es_order_cap sz) zero_order,
      en_fill_q = spsc_init (es_fill_cap sz) zero_exec,
      en_kill = False, en_running = False,
      en_feed = feed_handler_init,
      en_strat = strategy_runner_init (es_ticks sz) (engine_strategy_params cfg),
      en_gw = gateway_init (es_in_flight sz) cpn (ec_risk cfg),
      en_order_dst = ec_order_dst cfg\<rparr>"

definition engine_start :: "engine \<Rightarrow> engine" where
  "engine_start en = en\<lparr>en_running := True\<rparr>"

definition engine_stop :: "engine \<Rightarrow> engine" where
  "engine_stop en = en\<lparr>en_running := False\<rparr>"

definition trip_kill_switch :: "engine \<Rightarrow> engine" where
  "trip_kill_switch en = en\<lparr>en_kill := True\<rparr>"

definition set_order_destination :: "endpoint \<Rightarrow> engine \<Rightarrow> engine" where
  "set_order_destination dst en = en\<lparr>en_order_dst := dst\<rparr>"


subsection \<open>The engine, the network and the exchange\<close>

text \<open>
  \<open>sy_ev\<close> is the local variable \<open>ev\<close> of the strategy's poll between the pop and the decision; \<open>sy_orders\<close>
  and \<open>sy_fills\<close> are the datagrams sent by the gateway and by the exchange so far.
\<close>

record system =
  sy_en :: engine
  sy_ev :: "md_event option"
  sy_orders :: "u8 list list"
  sy_fills :: "u8 list list"

definition system_init :: "engine_sizes \<Rightarrow> rat \<Rightarrow> engine_config \<Rightarrow> system" where
  "system_init sz cpn cfg =
     \<lparr>sy_en = engine_init sz cpn cfg, sy_ev = None, sy_orders = [], sy_fills = []\<rparr>"

definition take_fill :: "exec_report option \<Rightarrow> strategy_runner \<Rightarrow> strategy_runner" where
  "take_fill r sr = (case r of None \<Rightarrow> sr | Some rep \<Rightarrow> sr\<lparr>sr_strat := on_fill rep (sr_strat sr)\<rparr>)"

inductive sys_step :: "tsc_calibration \<Rightarrow> system \<Rightarrow> system \<Rightarrow> bool" for cal :: tsc_calibration where
  start: "\<not> en_running (sy_en s) \<Longrightarrow> sys_step cal s (s\<lparr>sy_en := engine_start (sy_en s)\<rparr>)"
| stop: "en_running (sy_en s) \<Longrightarrow> sy_ev s = None \<Longrightarrow> sys_step cal s (s\<lparr>sy_en := engine_stop (sy_en s)\<rparr>)"
| kill: "sys_step cal s (s\<lparr>sy_en := trip_kill_switch (sy_en s)\<rparr>)"
| feed: "en_running (sy_en s) \<Longrightarrow>
    feed_message cal arrival now m (en_feed (sy_en s), en_feed_q (sy_en s), n) = (fh, q, n') \<Longrightarrow>
    sys_step cal s (s\<lparr>sy_en := (sy_en s)\<lparr>en_feed := fh, en_feed_q := q\<rparr>\<rparr>)"
| strategy_fill: "en_running (sy_en s) \<Longrightarrow> sy_ev s = None \<Longrightarrow>
    spsc_pop (en_fill_q (sy_en s)) = (r, q) \<Longrightarrow>
    sys_step cal s (s\<lparr>sy_en := (sy_en s)\<lparr>en_strat := take_fill r (en_strat (sy_en s)), en_fill_q := q\<rparr>\<rparr>)"
| strategy_pop: "en_running (sy_en s) \<Longrightarrow> sy_ev s = None \<Longrightarrow>
    spsc_pop (en_feed_q (sy_en s)) = (e, q) \<Longrightarrow>
    sys_step cal s (s\<lparr>sy_en := (sy_en s)\<lparr>en_feed_q := q\<rparr>, sy_ev := e\<rparr>)"
| strategy_decide: "en_running (sy_en s) \<Longrightarrow> sy_ev s = Some ev \<Longrightarrow>
    strategy_event cal t0 t1 ev (en_strat (sy_en s), en_order_q (sy_en s)) = Some (sr, q) \<Longrightarrow>
    sys_step cal s (s\<lparr>sy_en := (sy_en s)\<lparr>en_strat := sr, en_order_q := q\<rparr>, sy_ev := None\<rparr>)"
| gateway_receive: "en_running (sy_en s) \<Longrightarrow> bs \<in> set (sy_fills s) \<Longrightarrow> length (take kExecSize bs) = kExecSize \<Longrightarrow>
    handle_fill cal now (parse_exec (take kExecSize bs)) (en_gw (sy_en s), en_fill_q (sy_en s)) = Some (gw, q) \<Longrightarrow>
    sys_step cal s (s\<lparr>sy_en := (sy_en s)\<lparr>en_gw := gw, en_fill_q := q\<rparr>\<rparr>)"
| gateway_order: "en_running (sy_en s) \<Longrightarrow> pe_kill env = en_kill (sy_en s) \<Longrightarrow>
    gateway_send cal env (en_gw (sy_en s), en_order_q (sy_en s)) = (worked, (gw, q), out) \<Longrightarrow>
    sys_step cal s (s\<lparr>sy_en := (sy_en s)\<lparr>en_gw := gw, en_order_q := q\<rparr>,
                      sy_orders := sy_orders s @ (case out of None \<Rightarrow> [] | Some bs \<Rightarrow> [bs])\<rparr>)"
| exchange: "set inbox \<subseteq> set (sy_orders s) \<Longrightarrow> service_orders 32 inbox sx = (left, fills, sx') \<Longrightarrow>
    sys_step cal s (s\<lparr>sy_fills := sy_fills s @ fills\<rparr>)"

definition sys_runs :: "tsc_calibration \<Rightarrow> system \<Rightarrow> system \<Rightarrow> bool" where
  "sys_runs cal = (sys_step cal)\<^sup>*\<^sup>*"

inductive_cases sys_step_elim: "sys_step cal s s'"


subsection \<open>Where the order is\<close>

text \<open>
  The latch lets one order into the pipeline. It is in the order queue, on the wire, its report is in the
  fill queue, or the gate has rejected it; \<open>Idle\<close> is the pipeline without an order.
\<close>

datatype phase = Idle | Queued order_request | OnWire order_request | Filled order_request | Rejected order_request

primrec phase_order :: "phase \<Rightarrow> order_request option" where
  "phase_order Idle = None"
| "phase_order (Queued ord) = Some ord"
| "phase_order (OnWire ord) = Some ord"
| "phase_order (Filled ord) = Some ord"
| "phase_order (Rejected ord) = Some ord"

primrec queued_orders :: "phase \<Rightarrow> order_request list" where
  "queued_orders Idle = []"
| "queued_orders (Queued ord) = [ord]"
| "queued_orders (OnWire ord) = []"
| "queued_orders (Filled ord) = []"
| "queued_orders (Rejected ord) = []"

primrec queued_fills :: "phase \<Rightarrow> exec_report list" where
  "queued_fills Idle = []"
| "queued_fills (Queued ord) = []"
| "queued_fills (OnWire ord) = []"
| "queued_fills (Filled ord) = [fill_of ord]"
| "queued_fills (Rejected ord) = []"

primrec on_wire :: "phase \<Rightarrow> order_request list" where
  "on_wire Idle = []"
| "on_wire (Queued ord) = []"
| "on_wire (OnWire ord) = [ord]"
| "on_wire (Filled ord) = []"
| "on_wire (Rejected ord) = []"

text \<open>Orders given an id and never sent.\<close>

primrec unsent :: "phase \<Rightarrow> nat" where
  "unsent Idle = 0"
| "unsent (Queued ord) = 1"
| "unsent (OnWire ord) = 0"
| "unsent (Filled ord) = 0"
| "unsent (Rejected ord) = 1"

primrec rejections :: "phase \<Rightarrow> u64" where
  "rejections Idle = 0"
| "rejections (Queued ord) = 0"
| "rejections (OnWire ord) = 0"
| "rejections (Filled ord) = 0"
| "rejections (Rejected ord) = 1"

definition queues_ok :: "engine \<Rightarrow> bool" where
  "queues_ok en \<longleftrightarrow> spsc_inv (en_feed_q en) \<and> spsc_inv (en_order_q en) \<and> spsc_inv (en_fill_q en)
     \<and> 0 < spsc_cap (en_order_q en) \<and> 0 < spsc_cap (en_fill_q en) \<and> table_ok (en_gw en)"

text \<open>What the wire has seen: numbered orders, and only full fills of them.\<close>

definition wire_ok :: "u8 list list \<Rightarrow> u8 list list \<Rightarrow> bool" where
  "wire_ok orders fills \<longleftrightarrow>
     orders = map (encode_order \<circ> parse_order) orders \<and>
     map (o_order_id \<circ> parse_order) orders = map of_nat [1..<Suc (length orders)] \<and>
     set fills \<subseteq> (\<lambda>bs. encode_exec (fill_of (parse_order bs))) ` set orders"

definition in_phase :: "u32 \<Rightarrow> phase \<Rightarrow> system \<Rightarrow> bool" where
  "in_phase z ph s \<longleftrightarrow>
     (let en = sy_en s; st = sr_strat (en_strat en); gw = en_gw en; n = length (sy_orders s) in
      queues_ok en \<and> st_order_size st = z \<and> position_ok (phase_order ph) st \<and>
      spsc_contents (en_order_q en) = queued_orders ph \<and>
      spsc_contents (en_fill_q en) = queued_fills ph \<and>
      {x. outstanding gw x} = o_order_id ` set (on_wire ph) \<and>
      position (gw_risk gw) = st_position st + net_fill (queued_fills ph) \<and>
      gw_risk_rejected gw = rejections ph \<and>
      st_last_order_id st = of_nat (n + unsent ph) \<and>
      (\<forall>ord \<in> set (queued_orders ph). o_order_id ord = st_last_order_id st) \<and>
      (\<forall>ord \<in> set (on_wire ph). sy_orders s \<noteq> [] \<and> parse_order (last (sy_orders s)) = ord) \<and>
      wire_ok (sy_orders s) (sy_fills s))"

lemmas in_phase_simps = in_phase_def Let_def

lemma capacity_ok_pos: "capacity_ok n \<Longrightarrow> 0 < n"
  by (simp add: capacity_ok_def)

definition sizes_ok :: "engine_sizes \<Rightarrow> bool" where
  "sizes_ok sz \<longleftrightarrow> capacity_ok (es_feed_cap sz) \<and> capacity_ok (es_order_cap sz) \<and> capacity_ok (es_fill_cap sz)
     \<and> capacity_ok (es_in_flight sz)"

lemma system_init_phase:
  "sizes_ok sz \<Longrightarrow> in_phase (ec_order_size cfg) Idle (system_init sz cpn cfg)"
  using not_outstanding_init [of "es_in_flight sz" cpn "ec_risk cfg"]
  by (simp add: in_phase_simps system_init_def engine_init_def queues_ok_def sizes_ok_def 
      strategy_runner_init_def engine_strategy_params_def position_ok_def capacity_ok_pos wire_ok_def
      gateway_init_def [THEN arg_cong [of _ _ gw_risk_rejected]])
    (simp add: gateway_init_def risk_gate_init_def Let_def)


text \<open>The controlling thread and the feed handler leave the phase alone.\<close>

lemma engine_switch_phase [simp]:
  "in_phase z ph (s\<lparr>sy_en := engine_start (sy_en s)\<rparr>) = in_phase z ph s"
  "in_phase z ph (s\<lparr>sy_en := engine_stop (sy_en s)\<rparr>) = in_phase z ph s"
  "in_phase z ph (s\<lparr>sy_en := trip_kill_switch (sy_en s)\<rparr>) = in_phase z ph s"
  by (simp_all add: in_phase_simps queues_ok_def engine_start_def engine_stop_def trip_kill_switch_def)

lemma feed_phase:
  assumes "in_phase z ph s"
    and "feed_message cal arrival now m (en_feed (sy_en s), en_feed_q (sy_en s), n) = (fh, q, n')"
  shows "in_phase z ph (s\<lparr>sy_en := (sy_en s)\<lparr>en_feed := fh, en_feed_q := q\<rparr>\<rparr>)"
proof -
  have inv: "spsc_inv (en_feed_q (sy_en s))"
    using assms(1) by (simp add: in_phase_simps queues_ok_def)
  have "spsc_inv q"
    by (rule feed_message_cases [OF inv, of m arrival cal now "en_feed (sy_en s)" n]) (use assms(2) in auto)
  with assms(1) show ?thesis
    by (simp add: in_phase_simps queues_ok_def)
qed

lemma strategy_pop_phase:
  assumes "in_phase z ph s" "spsc_pop (en_feed_q (sy_en s)) = (e, q)"
  shows "in_phase z ph (s\<lparr>sy_en := (sy_en s)\<lparr>en_feed_q := q\<rparr>, sy_ev := e\<rparr>)"
  using assms spsc_fifo.pop_invar [of "en_feed_q (sy_en s)"]
  by (simp add: in_phase_simps queues_ok_def)

text \<open>The strategy's steps.\<close>

lemma strategy_fill_phase:
  assumes "in_phase z ph s" "spsc_pop (en_fill_q (sy_en s)) = (r, q)"
  shows "\<exists>ph'. in_phase z ph'
    (s\<lparr>sy_en := (sy_en s)\<lparr>en_strat := take_fill r (en_strat (sy_en s)), en_fill_q := q\<rparr>\<rparr>)"
proof -
  let ?fq = "en_fill_q (sy_en s)"
  have inv: "spsc_inv ?fq" and con: "spsc_contents ?fq = queued_fills ph"
    using assms(1) by (simp_all add: in_phase_simps queues_ok_def)
  note pop = spsc_fifo.pop_result [OF inv] spsc_fifo.pop_contents [OF inv] spsc_fifo.pop_invar [OF inv]
    spsc_fifo.pop_cap [OF inv]
  show ?thesis
  proof (cases "\<exists>ord. ph = Filled ord")
    case False
    then have "queued_fills ph = []"
      by (cases ph) auto
    then show ?thesis
      using assms pop con by (intro exI [of _ ph]) (simp add: in_phase_simps queues_ok_def take_fill_def)
  next
    case True
    then obtain ord where ph: "ph = Filled ord"
      by blast
    then have "position_ok (Some ord) (sr_strat (en_strat (sy_en s)))"
      using assms(1) by (simp add: in_phase_simps)
    then have "position_ok None (on_fill (fill_of ord) (sr_strat (en_strat (sy_en s))))"
      by (rule on_fill_position_ok) simp_all
    then show ?thesis
      using assms pop con ph
      by (intro exI [of _ Idle]) (simp add: in_phase_simps queues_ok_def take_fill_def strategy_position.take_fill_pos)
  qed
qed

text \<open>One event: the order goes to the queue exactly when it is emitted; the wait can only be for a full queue.\<close>

lemma strategy_event_spec:
  assumes "spsc_inv orders"
  shows "case strategy_event cal t0 t1 ev (sr, orders) of
      None \<Rightarrow> fst (on_md ev (sr_strat sr)) \<noteq> None \<and> length (spsc_contents orders) = spsc_cap orders
    | Some (sr', orders') \<Rightarrow> sr_strat sr' = snd (on_md ev (sr_strat sr))
        \<and> spsc_contents orders' = spsc_contents orders @ emitted_orders ev (sr_strat sr)
        \<and> spsc_inv orders' \<and> spsc_cap orders' = spsc_cap orders"
proof -
  obtain emitted st where md: "on_md ev (sr_strat sr) = (emitted, st)"
    by (rule prod.exhaust)
  show ?thesis
  proof (cases emitted)
    case None
    then show ?thesis
      using md assms by (simp add: strategy_event_def)
  next
    case (Some ord)
    then show ?thesis
      using md push_wait_spsc [OF assms, of ord]
      by (cases "push_wait spsc_push orders ord") (simp_all add: strategy_event_def)
  qed
qed

lemma position_ok_latch: "position_ok w st \<Longrightarrow> st_in_flight st \<longleftrightarrow> w \<noteq> None"
  by (auto simp: position_ok_def split: option.splits)

lemma strategy_decide_phase:
  assumes "in_phase z ph s"
    and "strategy_event cal t0 t1 ev (en_strat (sy_en s), en_order_q (sy_en s)) = Some (sr, q)"
  shows "\<exists>ph'. in_phase z ph' (s\<lparr>sy_en := (sy_en s)\<lparr>en_strat := sr, en_order_q := q\<rparr>, sy_ev := None\<rparr>)"
proof -
  let ?st = "sr_strat (en_strat (sy_en s))"
  have "spsc_inv (en_order_q (sy_en s))" and pos: "position_ok (phase_order ph) ?st"
    using assms(1) by (simp_all add: in_phase_simps queues_ok_def)
  from strategy_event_spec [OF this(1), where sr = "en_strat (sy_en s)" and cal = cal and ev = ev and ?t0.0 = t0 and ?t1.0 = t1]
    assms(2)
  have q: "sr_strat sr = snd (on_md ev ?st)" "spsc_inv q" "spsc_cap q = spsc_cap (en_order_q (sy_en s))"
    "spsc_contents q = spsc_contents (en_order_q (sy_en s)) @ emitted_orders ev ?st"
    by simp_all
  show ?thesis
  proof (cases rule: on_md_cases [of ev ?st])
    case quiet
    have "position_ok (phase_order ph) (snd (on_md ev ?st))"
      using on_md_position_ok [OF pos quiet] quiet by simp
    then show ?thesis
      using assms(1) q quiet by (intro exI [of _ ph]) (auto simp: in_phase_simps queues_ok_def)
  next
    case (emit sd)
    let ?ord = "order_for ev ?st (apply_msg (ev_msg ev) (st_book ?st)) sd"
    have "ph = Idle"
      using emit(2) position_ok_latch [OF pos] by (cases ph) auto
    moreover have "position_ok (Some ?ord) (snd (on_md ev ?st))"
      using on_md_position_ok [OF pos emit(1)] emit(1) by simp
    ultimately show ?thesis
      using assms(1) q emit by (intro exI [of _ "Queued ?ord"]) (auto simp: in_phase_simps queues_ok_def)
  qed
qed

text \<open>The gateway's steps. A report from the wire that matches is the fill of the order on the wire.\<close>

lemma wire_ok_id:
  assumes "wire_ok orders fills" "i < length orders"
  shows "o_order_id (parse_order (orders ! i)) = of_nat (Suc i)"
proof -
  have "map (o_order_id \<circ> parse_order) orders ! i = map of_nat [1..<Suc (length orders)] ! i"
    using assms(1) by (simp only: wire_ok_def)
  with assms(2) show ?thesis
    by (simp del: upt_Suc)
qed

lemma of_nat_u64_inj: "a < 2 ^ 64 \<Longrightarrow> b < 2 ^ 64 \<Longrightarrow> (of_nat a :: u64) = of_nat b \<Longrightarrow> a = b"
  by (drule arg_cong [of _ _ unat]) (simp add: unat_of_nat take_bit_nat_eq_self)

lemma report_of_last:
  assumes "wire_ok orders fills" "length orders < 2 ^ 64" "orders \<noteq> []" "bs \<in> set fills"
    and "r_order_id (parse_exec (take kExecSize bs)) = o_order_id (parse_order (last orders))"
  shows "parse_exec (take kExecSize bs) = fill_of (parse_order (last orders))"
proof -
  have "bs \<in> (\<lambda>bs. encode_exec (fill_of (parse_order bs))) ` set orders"
    using assms(1,4) unfolding wire_ok_def by blast
  then obtain i where i: "i < length orders" "bs = encode_exec (fill_of (parse_order (orders ! i)))"
    by (auto simp: in_set_conv_nth)
  have rep: "parse_exec (take kExecSize bs) = fill_of (parse_order (orders ! i))"
    using i(2) by (simp add: exec_codec.dec_enc_exact exec_codec.take_enc)
  have "length orders - 1 < length orders"
    using assms(3) by simp
  then have "(of_nat (Suc i) :: u64) = of_nat (Suc (length orders - 1))"
    using assms(5) wire_ok_id [OF assms(1) i(1)] wire_ok_id [OF assms(1), of "length orders - 1"]
    by (simp only: rep fill_of_simps last_conv_nth [OF assms(3)])
  then have "Suc i = Suc (length orders - 1)"
    using i(1) assms(2) by (intro of_nat_u64_inj) auto
  then have "i = length orders - 1"
    by simp
  with rep show ?thesis
    using assms(3) by (simp add: last_conv_nth)
qed

lemma fill_delta_fill_of: "fill_delta (fill_of ord) = signed_size (o_side ord) (o_size ord)"
  by (simp add: fill_delta_def signed_size_def)

lemma matched_is_last:
  assumes "in_phase z ph s" "length (sy_orders s) < 2 ^ 64" "bs \<in> set (sy_fills s)"
    and "outstanding (en_gw (sy_en s)) (r_order_id (parse_exec (take kExecSize bs)))"
  obtains ord where "ph = OnWire ord" "parse_exec (take kExecSize bs) = fill_of ord"
    "parse_order (last (sy_orders s)) = ord" "\<And>x. outstanding (en_gw (sy_en s)) x \<Longrightarrow> x = o_order_id ord"
proof -
  have out: "{x. outstanding (en_gw (sy_en s)) x} = o_order_id ` set (on_wire ph)"
    using assms(1) by (simp add: in_phase_simps)
  then have "r_order_id (parse_exec (take kExecSize bs)) \<in> o_order_id ` set (on_wire ph)"
    using assms(4) by blast
  then obtain ord where ph: "ph = OnWire ord" and id: "r_order_id (parse_exec (take kExecSize bs)) = o_order_id ord"
    by (cases ph) auto
  then have last: "sy_orders s \<noteq> []" "parse_order (last (sy_orders s)) = ord"
    and wire: "wire_ok (sy_orders s) (sy_fills s)"
    using assms(1) by (auto simp: in_phase_simps)
  show thesis
    using report_of_last [OF wire assms(2) last(1) assms(3)] id last(2) ph out by (intro that [of ord]) auto
qed

lemma gateway_receive_phase:
  assumes "in_phase z ph s" "length (sy_orders s) < 2 ^ 64" "bs \<in> set (sy_fills s)"
    and "handle_fill cal now (parse_exec (take kExecSize bs)) (en_gw (sy_en s), en_fill_q (sy_en s)) = Some (gw, q)"
  shows "\<exists>ph'. in_phase z ph' (s\<lparr>sy_en := (sy_en s)\<lparr>en_gw := gw, en_fill_q := q\<rparr>\<rparr>)"
proof -
  let ?rep = "parse_exec (take kExecSize bs)" and ?gw = "en_gw (sy_en s)"
  have inv: "spsc_inv (en_fill_q (sy_en s))" and tab: "table_ok ?gw"
    and out: "{x. outstanding ?gw x} = o_order_id ` set (on_wire ph)"
    using assms(1) by (simp_all add: in_phase_simps queues_ok_def)
  from inv show ?thesis
  proof (cases rule: handle_fill_cases [of _ ?gw ?rep cal now])
    case (matched q')
    obtain ord where ph: "ph = OnWire ord" and rep: "?rep = fill_of ord" and id: "r_order_id ?rep = o_order_id ord"
      using matched_is_last [OF assms(1-3) matched(1)] by (metis fill_of_simps(1))
    have "{x. outstanding gw x} = {}"
      using match_fill_outstanding(2) [OF tab, of cal now ?rep] out ph id matched assms(4)
      by (auto simp: set_eq_iff)
    moreover have "table_ok gw"
      using match_fill_outstanding(1) [OF tab] matched assms(4) by simp
    moreover have "position (gw_risk gw) = position (gw_risk ?gw) + fill_delta (fill_of ord)"
      "gw_risk_rejected gw = gw_risk_rejected ?gw"
      using matched assms(4) rep by (auto simp: match_fill_def risk_position.take_fill_pos)
    ultimately show ?thesis
      using assms(1,4) matched ph rep
      by (intro exI [of _ "Filled ord"]) (auto simp: in_phase_simps queues_ok_def)
  next
    case unmatched
    then show ?thesis
      using assms(1,4) by (intro exI [of _ ph]) (auto simp: in_phase_simps queues_ok_def)
  next
    case blocked
    then show ?thesis
      using assms(4) by simp
  qed
qed

lemma outstanding_from_progress:
  assumes "gw_progress gw ords [] gw'" "outstanding gw' x"
  shows "outstanding gw x \<or> x \<in> o_order_id ` set ords"
proof -
  have "of_bool (outstanding gw' x) \<le> (of_bool (outstanding gw x) :: nat) + count_list (map o_order_id ords) x"
    using assms(1) unfolding gw_progress_def by simp
  with assms(2) have "outstanding gw x \<or> 0 < count_list (map o_order_id ords) x"
    by (cases "outstanding gw x") simp_all
  then show ?thesis
    by (metis count_notin less_numeral_extra(3) list.set_map)
qed

lemma wire_ok_snoc:
  assumes "wire_ok orders fills" "o_order_id ord = of_nat (Suc (length orders))"
  shows "wire_ok (orders @ [encode_order ord]) fills"
  using assms by (auto simp: wire_ok_def order_codec.dec_enc_exact)

lemma gateway_order_phase:
  assumes "in_phase z ph s"
    and "gateway_send cal env (en_gw (sy_en s), en_order_q (sy_en s)) = (worked, (gw, q), out)"
  shows "\<exists>ph'. in_phase z ph' (s\<lparr>sy_en := (sy_en s)\<lparr>en_gw := gw, en_order_q := q\<rparr>,
           sy_orders := sy_orders s @ (case out of None \<Rightarrow> [] | Some bs \<Rightarrow> [bs])\<rparr>)"
proof -
  let ?gw = "en_gw (sy_en s)"
  have inv: "spsc_inv (en_order_q (sy_en s))" and tab: "table_ok ?gw"
    and out: "{x. outstanding ?gw x} = o_order_id ` set (on_wire ph)"
    and con: "spsc_contents (en_order_q (sy_en s)) = queued_orders ph"
    using assms(1) by (simp_all add: in_phase_simps queues_ok_def)
  note q = gateway_send_spec(1-3) [OF assms(2) inv tab]
  have send: "send_outcome env (queued_orders ph) ?gw worked out gw"
    using gateway_send_spec(4) [OF assms(2) inv tab] con by simp
  show ?thesis
  proof (cases "\<exists>ord. ph = Queued ord")
    case False
    then have "queued_orders ph = []"
      by (cases ph) auto
    then show ?thesis
      using assms(1) q send con by (intro exI [of _ ph]) (simp add: in_phase_simps queues_ok_def send_outcome_def)
  next
    case True
    then obtain ord where ph: "ph = Queued ord"
      by blast
    then have none: "\<not> outstanding ?gw x" for x
      using out by auto
    have id: "o_order_id ord = of_nat (Suc (length (sy_orders s)))" and wire: "wire_ok (sy_orders s) (sy_fills s)"
      using assms(1) ph by (simp_all add: in_phase_simps)
    show ?thesis
    proof (cases "fst (checked env ord ?gw) = kAccept")
      case True
      then have sent: "out = Some (encode_order ord)" "gw_progress ?gw [ord] [] gw"
        "outstanding gw (o_order_id ord)" "gw_risk_rejected gw = gw_risk_rejected ?gw"
        using send ph by (simp_all add: send_outcome_def)
      have "outstanding gw x \<longleftrightarrow> x = o_order_id ord" for x
        using outstanding_from_progress [OF sent(2), of x] none [of x] sent(3) by auto
      then have "{x. outstanding gw x} = {o_order_id ord}"
        by blast
      moreover have "table_ok gw" "position (gw_risk gw) = position (gw_risk ?gw)"
        using sent(2) by (simp_all add: gw_progress_def)
      moreover have "wire_ok (sy_orders s @ [encode_order ord]) (sy_fills s)"
        using wire id by (rule wire_ok_snoc)
      ultimately show ?thesis
        using assms(1) q con ph sent(1,4)
        by (intro exI [of _ "OnWire ord"]) (simp add: in_phase_simps queues_ok_def order_codec.dec_enc_exact)
    next
      case False
      then have rejected: "out = None" "gw_progress ?gw [] [] gw" "gw_risk_rejected gw = gw_risk_rejected ?gw + 1"
        using send ph by (simp_all add: send_outcome_def)
      have "\<not> outstanding gw x" for x
        using outstanding_from_progress [OF rejected(2), of x] none [of x] by auto
      then have "{x. outstanding gw x} = {}"
        by blast
      moreover have "table_ok gw" "position (gw_risk gw) = position (gw_risk ?gw)"
        using rejected(2) by (simp_all add: gw_progress_def)
      ultimately show ?thesis
        using assms(1) q con ph rejected(1,3)
        by (intro exI [of _ "Rejected ord"]) (simp add: in_phase_simps queues_ok_def)
    qed
  qed
qed

text \<open>The exchange answers with fills of orders it received.\<close>

lemma orders_taken_from:
  "set (orders_taken d inbox) \<subseteq> (\<lambda>bs. parse_order (take kOrderSize bs)) ` set inbox"
  by (induction d inbox rule: orders_taken.induct) auto

lemma exchange_phase:
  assumes "in_phase z ph s" "set inbox \<subseteq> set (sy_orders s)" "service_orders 32 inbox sx = (left, fills, sx')"
  shows "in_phase z ph (s\<lparr>sy_fills := sy_fills s @ fills\<rparr>)"
proof -
  have wire: "wire_ok (sy_orders s) (sy_fills s)"
    using assms(1) by (simp add: in_phase_simps)
  have "take kOrderSize bs = bs" if "bs \<in> set (sy_orders s)" for bs
  proof -
    have "bs \<in> set (map (encode_order \<circ> parse_order) (sy_orders s))"
      using that wire by (simp only: wire_ok_def)
    then show ?thesis
      using order_codec.take_enc by auto
  qed
  then have "(\<lambda>bs. parse_order (take kOrderSize bs)) ` set inbox \<subseteq> parse_order ` set (sy_orders s)"
    using assms(2) by (fastforce simp: image_iff)
  with orders_taken_from [of 32 inbox]
  have "set fills \<subseteq> (\<lambda>bs. encode_exec (fill_of (parse_order bs))) ` set (sy_orders s)"
    using service_orders_fills [OF assms(3)] by (fastforce simp: image_iff)
  with wire have "wire_ok (sy_orders s) (sy_fills s @ fills)"
    by (simp add: wire_ok_def)
  with assms(1) show ?thesis
    by (simp add: in_phase_simps queues_ok_def)
qed

lemma sys_step_phase:
  assumes "sys_step cal s s'" "in_phase z ph s" "length (sy_orders s') < 2 ^ 64"
  shows "\<exists>ph'. in_phase z ph' s'"
  using assms
proof (cases rule: sys_step.cases)
  case (feed arrival now m n fh q n')
  then show ?thesis
    using feed_phase [OF assms(2)] by blast
next
  case (strategy_fill r q)
  then show ?thesis
    using strategy_fill_phase [OF assms(2)] by blast
next
  case (strategy_pop e q)
  then show ?thesis
    using strategy_pop_phase [OF assms(2)] by blast
next
  case (strategy_decide ev t0 t1 sr q)
  then show ?thesis
    using strategy_decide_phase [OF assms(2)] by blast
next
  case (gateway_receive bs now gw q)
  then show ?thesis
    using gateway_receive_phase [OF assms(2), of bs] assms(3) by simp
next
  case (gateway_order env worked gw q out)
  then show ?thesis
    using gateway_order_phase [OF assms(2)] by blast
next
  case (exchange inbox sx left fills sx')
  then show ?thesis
    using exchange_phase [OF assms(2)] by blast
qed auto

lemma sys_step_orders: "sys_step cal s s' \<Longrightarrow> length (sy_orders s) \<le> length (sy_orders s')"
  by (cases rule: sys_step.cases) auto

lemma sys_runs_phase:
  assumes "sys_runs cal s s'" "in_phase z ph s" "length (sy_orders s') < 2 ^ 64"
  shows "\<exists>ph'. in_phase z ph' s'"
  using assms unfolding sys_runs_def
proof (induction rule: rtranclp_induct)
  case (step s1 s2)
  then show ?case
    using sys_step_phase [of cal s1 s2 z] sys_step_orders [of cal s1 s2] by (metis order.strict_trans1)
qed blast

text \<open>An invariant that every step keeps, with the phase and the order numbers at hand.\<close>

lemma sys_runs_invariant:
  assumes "sys_runs cal s s'" "I s" "in_phase z ph s" "length (sy_orders s') < 2 ^ 64"
    and keeps: "\<And>s1 s2 ph. sys_step cal s1 s2 \<Longrightarrow> I s1 \<Longrightarrow> in_phase z ph s1 \<Longrightarrow> length (sy_orders s1) < 2 ^ 64 \<Longrightarrow> I s2"
  shows "I s'"
  using assms(1,4) unfolding sys_runs_def
proof (induction rule: rtranclp_induct)
  case (step s1 s2)
  have len: "length (sy_orders s1) < 2 ^ 64"
    using sys_step_orders [OF step.hyps(2)] step.prems by linarith
  moreover obtain ph1 where "in_phase z ph1 s1"
    using sys_runs_phase [of cal s s1] assms(3) step.hyps(1) len unfolding sys_runs_def by blast
  ultimately show ?case
    using keeps [OF step.hyps(2)] step.IH by blast
qed (rule assms(2))


subsection \<open>After a rejection\<close>

lemma rejections_one: "rejections ph = 1 \<longleftrightarrow> (\<exists>ord. ph = Rejected ord)"
  by (cases ph) auto

text \<open>With nothing queued, on the wire or filled, no step moves an order or a position.\<close>

lemma rejected_step:
  assumes "sys_step cal s s'" "in_phase z (Rejected ord) s"
  shows "sy_orders s' = sy_orders s \<and> gw_risk_rejected (en_gw (sy_en s')) = 1
    \<and> st_position (sr_strat (en_strat (sy_en s'))) = st_position (sr_strat (en_strat (sy_en s)))"
proof -
  have inv: "spsc_inv (en_order_q (sy_en s))" "spsc_inv (en_fill_q (sy_en s))" and tab: "table_ok (en_gw (sy_en s))"
    and rej: "gw_risk_rejected (en_gw (sy_en s)) = 1"
    and none: "\<not> outstanding (en_gw (sy_en s)) x"
    and empty: "spsc_contents (en_order_q (sy_en s)) = []" "spsc_contents (en_fill_q (sy_en s)) = []" for x
    using assms(2) by (auto simp: in_phase_simps queues_ok_def)
  from assms(1) show ?thesis
  proof (cases rule: sys_step.cases)
    case (strategy_fill r q)
    then show ?thesis
      using spsc_fifo.pop_result [OF inv(2)] empty rej by (simp add: take_fill_def)
  next
    case (strategy_decide ev t0 t1 sr q)
    have "st_position (snd (on_md ev st)) = st_position st" for st
      by (cases rule: on_md_cases [of ev st]) simp_all
    then show ?thesis
      using strategy_decide rej strategy_event_spec [OF inv(1), where cal = cal and ev = ev and ?t0.0 = t0
          and ?t1.0 = t1 and sr = "en_strat (sy_en s)"]
      by simp
  next
    case (gateway_receive bs now gw q)
    with none show ?thesis
      using rej by (cases rule: handle_fill_cases [OF inv(2), of "en_gw (sy_en s)" "parse_exec (take kExecSize bs)" cal now])
        auto
  next
    case (gateway_order env worked gw q out)
    with gateway_send_spec(4) [OF _ inv(1) tab] empty rej show ?thesis
      by (fastforce simp: send_outcome_def)
  qed (use rej in \<open>simp_all add: engine_start_def engine_stop_def trip_kill_switch_def\<close>)
qed

lemma rejected_runs:
  assumes "sys_runs cal s s'" "in_phase z (Rejected ord) s" "length (sy_orders s) < 2 ^ 64"
  shows "sy_orders s' = sy_orders s \<and> (\<exists>ord. in_phase z (Rejected ord) s')
    \<and> st_position (sr_strat (en_strat (sy_en s'))) = st_position (sr_strat (en_strat (sy_en s)))"
  using assms(1) unfolding sys_runs_def
proof (induction rule: rtranclp_induct)
  case base
  then show ?case using assms(2) by blast
next
  case (step s1 s2)
  then obtain ord1 where s1: "in_phase z (Rejected ord1) s1"
    by blast
  note step2 = rejected_step [OF step.hyps(2) s1]
  obtain ph where ph: "in_phase z ph s2"
    using sys_step_phase [OF step.hyps(2) s1] step2 step.IH assms(3) by auto
  then have "rejections ph = 1"
    using step2 by (simp add: in_phase_simps)
  with ph step2 step.IH show ?case
    by (auto simp: rejections_one)
qed


subsection \<open>The position limit\<close>

text \<open>
  One order at a time makes the gate's check on the filled position a check on every position the engine
  can reach: the limit holds now and after the fill of the order on the wire.
\<close>

definition within_limit :: "int \<Rightarrow> system \<Rightarrow> bool" where
  "within_limit M s \<longleftrightarrow>
     (let g = gw_risk (en_gw (sy_en s)) in
      sint (max_position g) = M \<and> \<bar>sint (position g)\<bar> \<le> M \<and>
      ((\<exists>x. outstanding (en_gw (sy_en s)) x) \<longrightarrow>
        \<bar>sint (position g) + signed_qty (parse_order (last (sy_orders s)))\<bar> \<le> M))"

lemma sint_risk_fill:
  assumes "in_i64 (sint (position g) + signed_qty ord)"
  shows "sint (position (risk_on_fill (fill_of ord) g)) = sint (position g) + signed_qty ord"
  using assms by (simp add: risk_position.take_fill_pos fill_delta_fill_of sint_add_i64 sint_signed_size)

lemma max_position_on_fill [simp]: "max_position (risk_on_fill r g) = max_position g"
  by (simp add: risk_on_fill_def)

lemma receive_within_limit:
  assumes "within_limit M s" "in_phase z ph s" "length (sy_orders s) < 2 ^ 64" "bs \<in> set (sy_fills s)"
    and "handle_fill cal now (parse_exec (take kExecSize bs)) (en_gw (sy_en s), en_fill_q (sy_en s)) = Some (gw, q)"
  shows "within_limit M (s\<lparr>sy_en := (sy_en s)\<lparr>en_gw := gw, en_fill_q := q\<rparr>\<rparr>)"
proof -
  let ?rep = "parse_exec (take kExecSize bs)" and ?gw = "en_gw (sy_en s)"
  have inv: "spsc_inv (en_fill_q (sy_en s))" and tab: "table_ok ?gw"
    using assms(2) by (simp_all add: in_phase_simps queues_ok_def)
  from inv show ?thesis
  proof (cases rule: handle_fill_cases [of _ ?gw ?rep cal now])
    case (matched q')
    obtain ord where ord: "?rep = fill_of ord" "parse_order (last (sy_orders s)) = ord"
      "\<And>x. outstanding ?gw x \<Longrightarrow> x = o_order_id ord"
      using matched_is_last [OF assms(2-4) matched(1)] by blast
    have gw: "gw = match_fill cal now ?rep ?gw"
      using matched assms(5) by simp
    have lim: "\<bar>sint (position (gw_risk ?gw)) + signed_qty ord\<bar> \<le> M" "M = sint (max_position (gw_risk ?gw))"
      using assms(1) matched(1) ord(2) by (auto simp: within_limit_def Let_def)
    then have "in_i64 (sint (position (gw_risk ?gw)) + signed_qty ord)"
      using in_i64_sint [of "max_position (gw_risk ?gw)"] by (auto simp: in_i64_def)
    then have "sint (position (gw_risk gw)) = sint (position (gw_risk ?gw)) + signed_qty ord"
      by (simp add: gw match_fill_def ord(1) sint_risk_fill)
    moreover have "\<not> outstanding gw x" for x
      using match_fill_outstanding(2) [OF tab, of cal now ?rep x] ord(3) [of x] ord(3) [OF matched(1)]
      unfolding gw by auto
    ultimately show ?thesis
      using assms(1) lim by (simp add: within_limit_def Let_def) (simp add: gw match_fill_def)
  next
    case unmatched
    then show ?thesis
      using assms(1,5) by (auto simp: within_limit_def Let_def)
  next
    case blocked
    then show ?thesis
      using assms(5) by simp
  qed
qed

lemma order_within_limit:
  assumes "within_limit M s" "in_phase z ph s" "0 \<le> M"
    and "gateway_send cal env (en_gw (sy_en s), en_order_q (sy_en s)) = (worked, (gw, q), out)"
  shows "within_limit M (s\<lparr>sy_en := (sy_en s)\<lparr>en_gw := gw, en_order_q := q\<rparr>,
           sy_orders := sy_orders s @ (case out of None \<Rightarrow> [] | Some bs \<Rightarrow> [bs])\<rparr>)"
proof -
  let ?gw = "en_gw (sy_en s)" and ?st = "sr_strat (en_strat (sy_en s))"
  have inv: "spsc_inv (en_order_q (sy_en s))" and tab: "table_ok ?gw"
    and out: "{x. outstanding ?gw x} = o_order_id ` set (on_wire ph)"
    and con: "spsc_contents (en_order_q (sy_en s)) = queued_orders ph"
    using assms(2) by (simp_all add: in_phase_simps queues_ok_def)
  have send: "send_outcome env (queued_orders ph) ?gw worked out gw"
    using gateway_send_spec(4) [OF assms(4) inv tab] con by simp
  show ?thesis
  proof (cases "\<exists>ord. ph = Queued ord")
    case False
    then have "queued_orders ph = []"
      by (cases ph) auto
    then show ?thesis
      using assms(1) send by (simp add: send_outcome_def within_limit_def)
  next
    case True
    then obtain ord where ph: "ph = Queued ord"
      by blast
    have "position_ok (Some ord) ?st" and pos: "position (gw_risk ?gw) = st_position ?st"
      using assms(2) ph by (simp_all add: in_phase_simps)
    then have "\<bar>sint (position (gw_risk ?gw))\<bar> < 2 ^ 32" "\<bar>signed_qty ord\<bar> < 2 ^ 32"
      using uint_u32_bounds [of "st_order_size ?st"] by (auto simp: position_ok_def signed_qty_def)
    then have "in_i64 (sint (position (gw_risk ?gw)) + signed_qty ord)"
      by (auto intro!: in_i64I)
    moreover have "0 \<le> sint (max_position (gw_risk ?gw))" and M: "sint (max_position (gw_risk ?gw)) = M"
      using assms(1,3) by (auto simp: within_limit_def Let_def)
    ultimately have fits: "position_fits ord (gw_risk ?gw)"
      by (simp add: position_fits_def)
    obtain rr g where chk: "risk_check (pe_kill env) (pe_check_now env) ord (gw_risk ?gw) = (rr, g)"
      by (rule prod.exhaust)
    have g: "position g = position (gw_risk ?gw)" "max_position g = max_position (gw_risk ?gw)" "gw_risk gw = g"
      using risk_check_frame [OF chk] send ph chk by (auto simp: send_outcome_def checked_def)
    show ?thesis
    proof (cases "rr = kAccept")
      case True
      then have "\<bar>sint (position (gw_risk ?gw)) + signed_qty ord\<bar> \<le> M"
        using risk_check_accepted(3) [of "pe_kill env" "pe_check_now env" ord "gw_risk ?gw" g] fits chk M by simp
      moreover have "out = Some (encode_order ord)"
        using send ph chk True by (simp add: send_outcome_def checked_def)
      ultimately show ?thesis
        using assms(1) g by (simp add: within_limit_def Let_def order_codec.dec_enc_exact)
    next
      case False
      then have "gw_progress ?gw [] [] gw" "out = None"
        using send ph chk by (simp_all add: send_outcome_def checked_def)
      then have "\<not> outstanding gw x" for x
        using outstanding_from_progress [of ?gw "[]" gw x] out ph by auto
      then show ?thesis
        using assms(1) g by (simp add: within_limit_def Let_def)
    qed
  qed
qed

lemma step_within_limit:
  assumes "sys_step cal s s'" "within_limit M s" "in_phase z ph s" "0 \<le> M" "length (sy_orders s) < 2 ^ 64"
  shows "within_limit M s'"
  using assms(1)
proof (cases rule: sys_step.cases)
  case (gateway_receive bs now gw q)
  then show ?thesis
    using receive_within_limit [OF assms(2,3,5)] by blast
next
  case (gateway_order env worked gw q out)
  then show ?thesis
    using order_within_limit [OF assms(2-4)] by blast
qed (use assms(2) in \<open>simp_all add: within_limit_def engine_start_def engine_stop_def trip_kill_switch_def\<close>)

lemma runs_within_limit:
  assumes "sys_runs cal s s'" "within_limit M s" "in_phase z ph s" "0 \<le> M" "length (sy_orders s') < 2 ^ 64"
  shows "within_limit M s'"
  by (rule sys_runs_invariant [where I = "within_limit M", OF assms(1-3,5)]) (rule step_within_limit [OF _ _ _ assms(4)])


text \<open>
  Orders the gate cannot reject: the rate limit is off and both limits admit the order size. The strategy keeps
  its position in \<open>{- z, 0, z}\<close> and only sends towards the other side, so only the kill switch rejects.
\<close>

definition gate_open :: "u32 \<Rightarrow> system \<Rightarrow> bool" where
  "gate_open z s \<longleftrightarrow>
     (let g = gw_risk (en_gw (sy_en s)) in
      cycles_per_token g = 0 \<and> z \<noteq> 0 \<and> z \<le> max_order_size g \<and> uint z \<le> sint (max_position g)
      \<and> (en_kill (sy_en s) \<or> gw_risk_rejected (en_gw (sy_en s)) = 0))"

lemma open_gate_accepts:
  assumes "cycles_per_token g = 0" "z \<noteq> 0" "z \<le> max_order_size g" "uint z \<le> sint (max_position g)"
    and "position_ok (Some ord) st" "position g = st_position st" "st_order_size st = z"
  shows "fst (risk_check False now ord g) = kAccept"
proof -
  have sz: "o_size ord = z" and pos: "\<bar>sint (position g) + signed_qty ord\<bar> \<le> uint z"
    using assms(5-7) by (auto simp: position_ok_def signed_qty_def)
  have "in_i64 (sint (position g) + signed_qty ord)"
    using pos uint_u32_bounds [of z] by (auto intro!: in_i64I)
  moreover have "0 \<le> sint (max_position g)"
    using assms(4) uint_u32_bounds(1) [of z] by linarith
  ultimately have fits: "position_fits ord g"
    by (simp add: position_fits_def)
  have "0 < unat z"
    using assms(2) by (simp add: unat_gt_0)
  then have "\<not> check_fails kOrderSizeLimit False now ord g"
    using assms(3) sz by (simp add: word_le_nat_alt)
  moreover have "\<not> check_fails kPositionLimit False now ord g"
    using assms(4) pos by simp
  moreover have "\<not> check_fails kRateLimit False now ord g"
    using assms(1) by simp
  ultimately show ?thesis
    using fits by (cases rule: risk_check_cases [of False now ord g]) (simp_all del: check_fails.simps(3-5))
qed

lemma receive_gate_open:
  assumes "gate_open z s" "in_phase z ph s"
    and "handle_fill cal now rep (en_gw (sy_en s), en_fill_q (sy_en s)) = Some (gw, q)"
  shows "gate_open z (s\<lparr>sy_en := (sy_en s)\<lparr>en_gw := gw, en_fill_q := q\<rparr>\<rparr>)"
proof -
  have inv: "spsc_inv (en_fill_q (sy_en s))"
    using assms(2) by (simp add: in_phase_simps queues_ok_def)
  then show ?thesis
  proof (cases rule: handle_fill_cases [of _ "en_gw (sy_en s)" rep cal now])
    case (matched q')
    then show ?thesis
      using assms(1,3) by (auto simp: gate_open_def Let_def match_fill_def risk_on_fill_def)
  qed (use assms(1,3) in \<open>auto simp: gate_open_def Let_def\<close>)
qed

lemma order_gate_open:
  assumes "gate_open z s" "in_phase z ph s" "pe_kill env = en_kill (sy_en s)"
    and "gateway_send cal env (en_gw (sy_en s), en_order_q (sy_en s)) = (worked, (gw, q), out)"
  shows "gate_open z (s\<lparr>sy_en := (sy_en s)\<lparr>en_gw := gw, en_order_q := q\<rparr>,
           sy_orders := sy_orders s @ (case out of None \<Rightarrow> [] | Some bs \<Rightarrow> [bs])\<rparr>)"
proof -
  let ?gw = "en_gw (sy_en s)" and ?st = "sr_strat (en_strat (sy_en s))"
  have inv: "spsc_inv (en_order_q (sy_en s))" and tab: "table_ok ?gw"
    and con: "spsc_contents (en_order_q (sy_en s)) = queued_orders ph"
    using assms(2) by (simp_all add: in_phase_simps queues_ok_def)
  have send: "send_outcome env (queued_orders ph) ?gw worked out gw"
    using gateway_send_spec(4) [OF assms(4) inv tab] con by simp
  show ?thesis
  proof (cases "\<exists>ord. ph = Queued ord")
    case False
    then have "queued_orders ph = []"
      by (cases ph) auto
    then show ?thesis
      using assms(1) send by (simp add: send_outcome_def gate_open_def)
  next
    case True
    then obtain ord where ph: "ph = Queued ord"
      by blast
    have st: "position_ok (Some ord) ?st" "position (gw_risk ?gw) = st_position ?st" "st_order_size ?st = z"
      using assms(2) ph by (simp_all add: in_phase_simps)
    obtain rr g where chk: "risk_check (pe_kill env) (pe_check_now env) ord (gw_risk ?gw) = (rr, g)"
      by (rule prod.exhaust)
    have g: "gw_risk gw = g" "cycles_per_token g = cycles_per_token (gw_risk ?gw)"
      "max_order_size g = max_order_size (gw_risk ?gw)" "max_position g = max_position (gw_risk ?gw)"
      using risk_check_frame [OF chk] send ph chk by (auto simp: send_outcome_def checked_def)
    have "en_kill (sy_en s) \<or> gw_risk_rejected gw = 0"
    proof (cases "en_kill (sy_en s)")
      case False
      then have "rr = kAccept"
        using open_gate_accepts [OF _ _ _ _ st, of "pe_check_now env"] assms(1,3) chk by (simp add: gate_open_def Let_def)
      then show ?thesis
        using send ph chk assms(1) by (auto simp: send_outcome_def checked_def gate_open_def Let_def)
    qed simp
    then show ?thesis
      using assms(1) g by (simp add: gate_open_def Let_def)
  qed
qed

lemma step_gate_open:
  assumes "sys_step cal s s'" "gate_open z s" "in_phase z ph s"
  shows "gate_open z s'"
  using assms(1)
proof (cases rule: sys_step.cases)
  case (gateway_receive bs now gw q)
  then show ?thesis
    using receive_gate_open [OF assms(2,3)] by blast
next
  case (gateway_order env worked gw q out)
  then show ?thesis
    using order_gate_open [OF assms(2,3)] by blast
qed (use assms(2) in \<open>simp_all add: gate_open_def Let_def engine_start_def engine_stop_def trip_kill_switch_def\<close>)

lemma runs_gate_open:
  assumes "sys_runs cal s s'" "gate_open z s" "in_phase z ph s" "length (sy_orders s') < 2 ^ 64"
  shows "gate_open z s'"
  by (rule sys_runs_invariant [where I = "gate_open z", OF assms]) (rule step_gate_open)

text \<open>The limits of a configuration admit its orders.\<close>

definition limits_admit :: "engine_config \<Rightarrow> bool" where
  "limits_admit cfg \<longleftrightarrow> lim_max_orders_per_sec (ec_risk cfg) \<le> 0 \<and> ec_order_size cfg \<noteq> 0
     \<and> ec_order_size cfg \<le> lim_max_order_size (ec_risk cfg)
     \<and> uint (ec_order_size cfg) \<le> sint (lim_max_position (ec_risk cfg))"

lemma init_gate_open: "limits_admit cfg \<Longrightarrow> gate_open (ec_order_size cfg) (system_init sz cpn cfg)"
  by (simp add: gate_open_def limits_admit_def system_init_def engine_init_def gateway_init_def risk_gate_init_def Let_def)


subsection \<open>The stages' polls are runs of steps\<close>

lemma sys_runs_refl: "sys_runs cal s s"
  by (simp add: sys_runs_def)

lemma sys_runs_step: "sys_step cal s s1 \<Longrightarrow> sys_runs cal s1 s' \<Longrightarrow> sys_runs cal s s'"
  unfolding sys_runs_def by (rule converse_rtranclp_into_rtranclp)

lemma sys_runs_trans: "sys_runs cal s s1 \<Longrightarrow> sys_runs cal s1 s' \<Longrightarrow> sys_runs cal s s'"
  unfolding sys_runs_def by (rule rtranclp_trans)

lemma feed_messages_run:
  assumes "en_running (sy_en s)"
    and "fold (\<lambda>(j, m). feed_message cal arrival (clock j) m) ms (en_feed (sy_en s), en_feed_q (sy_en s), n) = (fh, q, n')"
  shows "sys_runs cal s (s\<lparr>sy_en := (sy_en s)\<lparr>en_feed := fh, en_feed_q := q\<rparr>\<rparr>)"
  using assms
proof (induction ms arbitrary: s n)
  case Nil
  then show ?case
    by (auto simp: sys_runs_refl)
next
  case (Cons jm ms)
  obtain j m where jm: "jm = (j, m)"
    by (cases jm)
  obtain fh1 q1 n1 where one: "feed_message cal arrival (clock j) m (en_feed (sy_en s), en_feed_q (sy_en s), n) = (fh1, q1, n1)"
    by (rule prod_cases3)
  let ?s1 = "s\<lparr>sy_en := (sy_en s)\<lparr>en_feed := fh1, en_feed_q := q1\<rparr>\<rparr>"
  have "sys_runs cal ?s1 (?s1\<lparr>sy_en := (sy_en ?s1)\<lparr>en_feed := fh, en_feed_q := q\<rparr>\<rparr>)"
    using Cons.prems one jm by (intro Cons.IH [where n = n1]) simp_all
  with sys_runs_step [OF sys_step.feed [OF Cons.prems(1) one]] show ?case
    by simp
qed

lemma feed_poll_runs:
  assumes "en_running (sy_en s)"
    and "feed_poll_once cal recv arrival clock (en_feed (sy_en s), en_feed_q (sy_en s)) = Some (n, fh, q)"
  shows "sys_runs cal s (s\<lparr>sy_en := (sy_en s)\<lparr>en_feed := fh, en_feed_q := q\<rparr>\<rparr>)"
proof (cases "recv = None \<or> recv = Some []")
  case True
  with assms(2) show ?thesis
    by (auto simp: feed_poll_once_def sys_runs_refl)
next
  case False
  then obtain bs where "feed_loop cal arrival clock 0 (feed_reader_init bs (length bs))
      (en_feed (sy_en s), en_feed_q (sy_en s), 0) = Some (fh, q, n)"
    using assms(2) by (auto simp: feed_poll_once_def split: option.splits if_splits)
  moreover have "fr_end (feed_reader_init bs (length bs)) \<le> length (fr_data (feed_reader_init bs (length bs)))"
    "fr_cur (feed_reader_init bs (length bs)) \<le> fr_end (feed_reader_init bs (length bs))"
    by (simp_all add: feed_reader_init_def)
  ultimately show ?thesis
    by (intro feed_messages_run [OF assms(1), where n = 0 and n' = n]) (simp add: feed_loop_fold)
qed

lemma strategy_drain_runs:
  assumes "en_running (sy_en s)" "sy_ev s = None"
    and "drain_into spsc_pop (\<lambda>st r. on_fill r st) n (sr_strat (en_strat (sy_en s))) (en_fill_q (sy_en s)) = (st, q)"
  shows "sys_runs cal s (s\<lparr>sy_en := (sy_en s)\<lparr>en_strat := (en_strat (sy_en s))\<lparr>sr_strat := st\<rparr>, en_fill_q := q\<rparr>\<rparr>)"
  using assms
proof (induction n arbitrary: s)
  case 0
  then show ?case
    by (auto simp: sys_runs_refl)
next
  case (Suc n)
  obtain r q1 where pop: "spsc_pop (en_fill_q (sy_en s)) = (r, q1)"
    by (rule prod.exhaust)
  note step = sys_step.strategy_fill [OF Suc.prems(1,2) pop, of cal]
  let ?s1 = "s\<lparr>sy_en := (sy_en s)\<lparr>en_strat := take_fill r (en_strat (sy_en s)), en_fill_q := q1\<rparr>\<rparr>"
  show ?case
  proof (cases r)
    case None
    then show ?thesis
      using sys_runs_step [OF step sys_runs_refl] Suc.prems(3) pop by (auto simp: take_fill_def)
  next
    case (Some rep)
    have "sys_runs cal ?s1 (?s1\<lparr>sy_en := (sy_en ?s1)\<lparr>en_strat := (en_strat (sy_en ?s1))\<lparr>sr_strat := st\<rparr>, en_fill_q := q\<rparr>\<rparr>)"
      using Suc.prems pop Some by (intro Suc.IH) (simp_all add: take_fill_def)
    with sys_runs_step [OF step] Some show ?thesis
      by (simp add: take_fill_def)
  qed
qed

lemma strategy_poll_runs:
  assumes "en_running (sy_en s)" "sy_ev s = None"
    and "strategy_poll cal t0 t1 (en_strat (sy_en s), en_feed_q (sy_en s), en_order_q (sy_en s), Some (en_fill_q (sy_en s)))
      = Some (worked, sr, feed, orders, Some fills)"
  shows "sys_runs cal s (s\<lparr>sy_en := (sy_en s)\<lparr>en_strat := sr, en_feed_q := feed, en_order_q := orders, en_fill_q := fills\<rparr>\<rparr>)"
proof -
  obtain st q where drain: "drain_into spsc_pop (\<lambda>st r. on_fill r st) 16 (sr_strat (en_strat (sy_en s))) (en_fill_q (sy_en s)) = (st, q)"
    by (rule prod.exhaust)
  obtain e feed1 where pop: "spsc_pop (en_feed_q (sy_en s)) = (e, feed1)"
    by (rule prod.exhaust)
  let ?sr = "(en_strat (sy_en s))\<lparr>sr_strat := st\<rparr>"
  let ?s1 = "s\<lparr>sy_en := (sy_en s)\<lparr>en_strat := ?sr, en_fill_q := q\<rparr>\<rparr>"
  let ?s2 = "?s1\<lparr>sy_en := (sy_en ?s1)\<lparr>en_feed_q := feed1\<rparr>, sy_ev := e\<rparr>"
  have q: "fills = q" "feed = feed1"
    using assms(3) drain pop by (auto simp: strategy_poll_def drain_strategy_fills_def Let_def split: option.splits)
  have "sys_step cal ?s1 ?s2"
    using assms(1,2) pop by (intro sys_step.strategy_pop) simp_all
  with strategy_drain_runs [OF assms(1,2) drain, of cal] have run: "sys_runs cal s ?s2"
    by (blast intro: sys_runs_trans sys_runs_step sys_runs_refl)
  show ?thesis
  proof (cases e)
    case None
    then have "?s2 = s\<lparr>sy_en := (sy_en s)\<lparr>en_strat := sr, en_feed_q := feed, en_order_q := orders, en_fill_q := fills\<rparr>\<rparr>"
      using assms(2,3) drain pop q
      by (cases s; cases "sy_en s") (auto simp: strategy_poll_def drain_strategy_fills_def)
    with run show ?thesis
      by simp
  next
    case (Some ev)
    then have "strategy_event cal t0 t1 ev (?sr, en_order_q (sy_en s)) = Some (sr, orders)"
      using assms(3) drain pop by (auto simp: strategy_poll_def drain_strategy_fills_def)
    then have "sys_step cal ?s2 (?s2\<lparr>sy_en := (sy_en ?s2)\<lparr>en_strat := sr, en_order_q := orders\<rparr>, sy_ev := None\<rparr>)"
      using assms(1) Some by (intro sys_step.strategy_decide [where ev = ev and ?t0.0 = t0 and ?t1.0 = t1]) simp_all
    from sys_runs_trans [OF run sys_runs_step [OF this sys_runs_refl]] show ?thesis
      using assms(2) q by (cases s; cases "sy_en s") simp
  qed
qed

lemma gateway_drain_runs:
  assumes "en_running (sy_en s)" "set inbox \<subseteq> set (sy_fills s)"
    and "drain_fills cal clock d inbox (en_gw (sy_en s), en_fill_q (sy_en s)) = Some (inbox', gw, q)"
  shows "sys_runs cal s (s\<lparr>sy_en := (sy_en s)\<lparr>en_gw := gw, en_fill_q := q\<rparr>\<rparr>)"
  using assms
proof (induction d arbitrary: s inbox)
  case 0
  then show ?case
    by (auto simp: sys_runs_refl)
next
  case (Suc d)
  show ?case
  proof (cases "\<exists>bs rest. inbox = bs # rest \<and> length (take kExecSize bs) = kExecSize")
    case False
    then have "gw = en_gw (sy_en s) \<and> q = en_fill_q (sy_en s)"
      using Suc.prems(3)
      by (cases inbox) (simp, simp only: drain_fills.simps if_True option.inject prod.inject simp_thms list.inject ex_simps)
    then show ?thesis
      by (simp add: sys_runs_refl)
  next
    case True
    then obtain bs rest where bs: "inbox = bs # rest" "length (take kExecSize bs) = kExecSize"
      by blast
    obtain gw1 q1 where one: "handle_fill cal (clock d) (parse_exec (take kExecSize bs))
        (en_gw (sy_en s), en_fill_q (sy_en s)) = Some (gw1, q1)"
      and rest: "drain_fills cal clock d rest (gw1, q1) = Some (inbox', gw, q)"
      using Suc.prems(3) bs by (auto split: option.splits)
    have "bs \<in> set (sy_fills s)"
      using Suc.prems(2) bs by simp
    note step = sys_step.gateway_receive [OF Suc.prems(1) this bs(2) one]
    let ?s1 = "s\<lparr>sy_en := (sy_en s)\<lparr>en_gw := gw1, en_fill_q := q1\<rparr>\<rparr>"
    have "sys_runs cal ?s1 (?s1\<lparr>sy_en := (sy_en ?s1)\<lparr>en_gw := gw, en_fill_q := q\<rparr>\<rparr>)"
      using Suc.prems(1,2) rest bs by (intro Suc.IH [where inbox = rest]) simp_all
    with sys_runs_step [OF step] show ?thesis
      by simp
  qed
qed

lemma gateway_poll_runs:
  assumes "en_running (sy_en s)" "set inbox \<subseteq> set (sy_fills s)" "pe_kill env = en_kill (sy_en s)"
    and "gateway_poll cal env inbox (en_gw (sy_en s), en_order_q (sy_en s), en_fill_q (sy_en s))
      = Some (worked, inbox', (gw, orders, fills), out)"
  shows "sys_runs cal s (s\<lparr>sy_en := (sy_en s)\<lparr>en_gw := gw, en_order_q := orders, en_fill_q := fills\<rparr>,
           sy_orders := sy_orders s @ (case out of None \<Rightarrow> [] | Some bs \<Rightarrow> [bs])\<rparr>)"
proof -
  obtain gw1 where drain: "drain_fills cal (pe_fill_clock env) 32 inbox (en_gw (sy_en s), en_fill_q (sy_en s)) = Some (inbox', gw1, fills)"
    and send: "gateway_send cal env (gw1, en_order_q (sy_en s)) = (worked, (gw, orders), out)"
    using assms(4) by (auto simp: gateway_poll_def split: option.splits prod.splits)
  let ?s1 = "s\<lparr>sy_en := (sy_en s)\<lparr>en_gw := gw1, en_fill_q := fills\<rparr>\<rparr>"
  have "sys_step cal ?s1 (?s1\<lparr>sy_en := (sy_en ?s1)\<lparr>en_gw := gw, en_order_q := orders\<rparr>,
      sy_orders := sy_orders ?s1 @ (case out of None \<Rightarrow> [] | Some bs \<Rightarrow> [bs])\<rparr>)"
    using assms(1,3) send by (intro sys_step.gateway_order [where env = env]) simp_all
  from sys_runs_trans [OF gateway_drain_runs [OF assms(1,2) drain] sys_runs_step [OF this sys_runs_refl]]
  show ?thesis
    by (cases "sy_en s") simp
qed


subsection \<open>A demonstration\<close>

text \<open>A bid and an ask provoke an order; it is sent, or rejected after the kill switch.\<close>

definition demo_cfg :: engine_config where
  "demo_cfg = \<lparr>ec_wait_policy = kSpin, ec_feed_core = - 1, ec_strategy_core = - 1, ec_gateway_core = - 1,
     ec_feed_port = 0, ec_order_dst = \<lparr>ep_addr = 0, ep_port = 0\<rparr>, ec_fill_port = 0, ec_feed_bind = ''0.0.0.0'',
     ec_fill_bind = ''0.0.0.0'', ec_base_price = 100, ec_tick = 5, ec_threshold = 1 / 4, ec_order_size = 10,
     ec_risk = demo_limits\<rparr>"

definition demo_sizes :: engine_sizes where
  "demo_sizes = \<lparr>es_ticks = 4, es_feed_cap = 2, es_order_cap = 2, es_fill_cap = 2, es_in_flight = 2\<rparr>"

abbreviation demo_system :: system where
  "demo_system \<equiv> system_init demo_sizes 1 demo_cfg"

lemma demo_sizes_ok: "sizes_ok demo_sizes"
  by (simp add: sizes_ok_def demo_sizes_def capacity_ok_2)

lemma demo_engine_params: "engine_strategy_params demo_cfg = demo_params"
  by (simp add: engine_strategy_params_def demo_cfg_def demo_params_def)

text \<open>One message through the feed handler and the strategy.\<close>

definition between_events :: "system \<Rightarrow> bool" where
  "between_events s \<longleftrightarrow> en_running (sy_en s) \<and> sy_ev s = None \<and> spsc_inv (en_feed_q (sy_en s))
     \<and> spsc_contents (en_feed_q (sy_en s)) = [] \<and> 0 < spsc_cap (en_feed_q (sy_en s))
     \<and> spsc_inv (en_order_q (sy_en s)) \<and> length (spsc_contents (en_order_q (sy_en s))) < spsc_cap (en_order_q (sy_en s))"

lemma event_run:
  fixes arrival :: u64 and m :: itch_message
  assumes "between_events s"
  defines "ev \<equiv> stamp_event arrival m"
  shows "\<exists>s'. sys_runs cal s s' \<and> sr_strat (en_strat (sy_en s')) = snd (on_md ev (sr_strat (en_strat (sy_en s))))
    \<and> spsc_contents (en_order_q (sy_en s')) = spsc_contents (en_order_q (sy_en s)) @ emitted_orders ev (sr_strat (en_strat (sy_en s)))
    \<and> en_gw (sy_en s') = en_gw (sy_en s) \<and> en_kill (sy_en s') = en_kill (sy_en s) \<and> sy_orders s' = sy_orders s
    \<and> en_running (sy_en s') \<and> sy_ev s' = None \<and> spsc_inv (en_feed_q (sy_en s')) \<and> spsc_inv (en_order_q (sy_en s'))
    \<and> spsc_contents (en_feed_q (sy_en s')) = [] \<and> spsc_cap (en_feed_q (sy_en s')) = spsc_cap (en_feed_q (sy_en s))
    \<and> spsc_cap (en_order_q (sy_en s')) = spsc_cap (en_order_q (sy_en s))"
proof -
  let ?en = "sy_en s"
  have s: "en_running ?en" "sy_ev s = None" "spsc_inv (en_feed_q ?en)" "spsc_contents (en_feed_q ?en) = []"
    "0 < spsc_cap (en_feed_q ?en)" "spsc_inv (en_order_q ?en)" "length (spsc_contents (en_order_q ?en)) < spsc_cap (en_order_q ?en)"
    using assms(1) by (simp_all add: between_events_def)
  obtain fh q n where fed: "feed_message cal arrival 0 m (en_feed ?en, en_feed_q ?en, 0) = (fh, q, n)"
    by (rule prod_cases3)
  have q: "spsc_inv q" "spsc_contents q = [ev]" "spsc_cap q = spsc_cap (en_feed_q ?en)"
    by (rule feed_message_cases [OF s(3), of m arrival cal 0 "en_feed ?en" 0]; use fed s in \<open>simp add: queue_room_def ev_def\<close>)+
  obtain q1 where pop: "spsc_pop q = (Some ev, q1)"
    using spsc_fifo.pop_result [OF q(1)] q(2) by (cases "spsc_pop q") simp
  have q1: "spsc_inv q1" "spsc_contents q1 = []" "spsc_cap q1 = spsc_cap q"
    using spsc_fifo.pop_invar [OF q(1)] spsc_fifo.pop_contents [OF q(1)] spsc_fifo.pop_cap [OF q(1)] pop q(2) by simp_all
  obtain sr oq where dec: "strategy_event cal 0 0 ev (en_strat ?en, en_order_q ?en) = Some (sr, oq)"
    using strategy_event_spec [OF s(6), where ev = ev and sr = "en_strat ?en" and cal = cal and ?t0.0 = 0 and ?t1.0 = 0] s(7)
    by (cases "strategy_event cal 0 0 ev (en_strat ?en, en_order_q ?en)") auto
  note oq = strategy_event_spec [OF s(6), where ev = ev and sr = "en_strat ?en" and cal = cal and ?t0.0 = 0 and ?t1.0 = 0, unfolded dec, simplified]
  let ?s1 = "s\<lparr>sy_en := ?en\<lparr>en_feed := fh, en_feed_q := q\<rparr>\<rparr>"
  let ?s2 = "?s1\<lparr>sy_en := (sy_en ?s1)\<lparr>en_feed_q := q1\<rparr>, sy_ev := Some ev\<rparr>"
  let ?s3 = "?s2\<lparr>sy_en := (sy_en ?s2)\<lparr>en_strat := sr, en_order_q := oq\<rparr>, sy_ev := None\<rparr>"
  have "sys_step cal s ?s1"
    using s(1) fed by (rule sys_step.feed)
  moreover have "sys_step cal ?s1 ?s2"
    using s(1,2) pop by (intro sys_step.strategy_pop) simp_all
  moreover have "sys_step cal ?s2 ?s3"
    using s(1) dec by (intro sys_step.strategy_decide [where ev = ev and ?t0.0 = 0 and ?t1.0 = 0]) simp_all
  ultimately have "sys_runs cal s ?s3"
    by (blast intro: sys_runs_step sys_runs_refl)
  with q q1 oq s(1) show ?thesis
    by (intro exI [of _ ?s3]) simp
qed

definition demo_bid :: md_event where
  "demo_bid = \<lparr>ev_msg = demo_msg kAdd kBuy 105 7, ev_arrival_tsc = 40\<rparr>"

definition demo_ask :: md_event where
  "demo_ask = \<lparr>ev_msg = demo_msg kAdd kSell 110 3, ev_arrival_tsc = 41\<rparr>"

lemma demo_queued:
  "\<exists>s ord. sys_runs cal demo_system s \<and> en_running (sy_en s) \<and> spsc_inv (en_order_q (sy_en s))
    \<and> spsc_contents (en_order_q (sy_en s)) = [ord] \<and> o_side ord = side_code kBuy \<and> o_size ord = 10
    \<and> en_gw (sy_en s) = gateway_init 2 1 demo_limits \<and> en_kill (sy_en s) = kill \<and> sy_orders s = []"
proof -
  let ?st = "strategy_init 4 demo_params"
  define s0 where "s0 = (if kill then demo_system\<lparr>sy_en := trip_kill_switch (sy_en demo_system)\<rparr> else demo_system)"
  define s1 where "s1 = s0\<lparr>sy_en := engine_start (sy_en s0)\<rparr>"
  have "sys_runs cal demo_system s0"
    unfolding s0_def using sys_runs_step [OF sys_step.kill sys_runs_refl] sys_runs_refl by simp
  moreover have "sys_step cal s0 s1"
    unfolding s1_def by (rule sys_step.start) (simp add: s0_def system_init_def engine_init_def trip_kill_switch_def)
  ultimately have run1: "sys_runs cal demo_system s1"
    by (blast intro: sys_runs_trans sys_runs_step sys_runs_refl)
  have s1: "between_events s1" "sr_strat (en_strat (sy_en s1)) = ?st" "en_gw (sy_en s1) = gateway_init 2 1 demo_limits"
    "en_kill (sy_en s1) = kill" "sy_orders s1 = []" "spsc_contents (en_order_q (sy_en s1)) = []" "0 < spsc_cap (en_order_q (sy_en s1))"
    by (simp_all add: s1_def s0_def between_events_def system_init_def engine_init_def trip_kill_switch_def
        engine_start_def demo_sizes_def capacity_ok_2 strategy_runner_init_def demo_engine_params)
      (simp_all add: demo_cfg_def)
  obtain s2 where s2: "sys_runs cal s1 s2" "between_events s2" "sr_strat (en_strat (sy_en s2)) = snd (on_md demo_bid ?st)"
    "en_gw (sy_en s2) = gateway_init 2 1 demo_limits" "en_kill (sy_en s2) = kill" "sy_orders s2 = []"
    "spsc_contents (en_order_q (sy_en s2)) = emitted_orders demo_bid ?st"
    using event_run [OF s1(1), where cal = cal and arrival = 40 and m = "demo_msg kAdd kBuy 105 7"] s1 demo_first_tick
    by (auto simp: between_events_def demo_bid_def)
  obtain ord st where ord: "on_md demo_ask (snd (on_md demo_bid ?st)) = (Some ord, st)" "o_side ord = side_code kBuy" "o_size ord = 10"
    using demo_second_tick demo_first_tick by (auto simp: demo_ask_def demo_bid_def)
  obtain s3 where "sys_runs cal s2 s3" "spsc_contents (en_order_q (sy_en s3)) = [ord]" "en_running (sy_en s3)"
    "spsc_inv (en_order_q (sy_en s3))" "en_gw (sy_en s3) = gateway_init 2 1 demo_limits" "en_kill (sy_en s3) = kill" "sy_orders s3 = []"
    using event_run [OF s2(2), where cal = cal and arrival = 41 and m = "demo_msg kAdd kSell 110 3"] s2 demo_first_tick ord(1)
    by (auto simp: demo_ask_def demo_bid_def)
  with run1 s2(1) ord(2,3) show ?thesis
    by (blast intro: sys_runs_trans)
qed

lemma demo_answer:
  "\<exists>s. sys_runs cal demo_system s \<and> en_kill (sy_en s) = kill
    \<and> (if kill then sy_orders s = [] \<and> gw_risk_rejected (en_gw (sy_en s)) = 1
       else length (sy_orders s) = 1 \<and> card {x. outstanding (en_gw (sy_en s)) x} = 1)"
proof -
  obtain s ord where s: "sys_runs cal demo_system s" "en_running (sy_en s)" "spsc_inv (en_order_q (sy_en s))"
    "spsc_contents (en_order_q (sy_en s)) = [ord]" "o_side ord = side_code kBuy" "o_size ord = 10"
    "en_gw (sy_en s) = gateway_init 2 1 demo_limits" "en_kill (sy_en s) = kill" "sy_orders s = []"
    using demo_queued by blast
  let ?env = "demo_env\<lparr>pe_kill := kill\<rparr>" and ?gw = "gateway_init 2 1 demo_limits"
  obtain worked gw q out where send: "gateway_send cal ?env (?gw, en_order_q (sy_en s)) = (worked, (gw, q), out)"
    by (metis prod.exhaust)
  have tab: "table_ok ?gw"
    by (simp add: capacity_ok_2)
  have o: "send_outcome ?env [ord] ?gw worked out gw"
    using gateway_send_spec(4) [OF send s(3) tab] s(4) by simp
  have none: "\<not> outstanding ?gw x" for x
    by (rule not_outstanding_init [OF capacity_ok_2])
  let ?s' = "s\<lparr>sy_en := (sy_en s)\<lparr>en_gw := gw, en_order_q := q\<rparr>,
    sy_orders := sy_orders s @ (case out of None \<Rightarrow> [] | Some bs \<Rightarrow> [bs])\<rparr>"
  have "sys_step cal s ?s'"
    using s send by (intro sys_step.gateway_order [where env = ?env]) simp_all
  then have run: "sys_runs cal demo_system ?s'"
    using s(1) by (blast intro: sys_runs_trans sys_runs_step sys_runs_refl)
  show ?thesis
  proof (cases kill)
    case True
    then have "fst (checked ?env ord ?gw) \<noteq> kAccept"
      by (simp add: checked_def risk_check_def)
    then have "out = None" "gw_risk_rejected gw = 1"
      using o by (simp_all add: send_outcome_def gateway_init_def)
    with run s(8,9) True show ?thesis
      by (intro exI [of _ ?s']) simp
  next
    case False
    have "fst (checked ?env ord ?gw) = kAccept"
      using accept_within_limits [where M = 1000 and ord = ord and g = "gw_risk ?gw" and now = "pe_check_now ?env"] s(5,6) False
      by (simp add: checked_def) (simp add: gateway_init_def risk_eval)
    then have out: "out = Some (encode_order ord)" "gw_progress ?gw [ord] [] gw" "outstanding gw (o_order_id ord)"
      using o by (simp_all add: send_outcome_def)
    have "outstanding gw x \<longleftrightarrow> x = o_order_id ord" for x
      using outstanding_from_progress [OF out(2), of x] none [of x] out(3) by auto
    then have "{x. outstanding gw x} = {o_order_id ord}"
      by blast
    with run s(8,9) out(1) False show ?thesis
      by (intro exI [of _ ?s']) simp
  qed
qed


subsection \<open>Properties\<close>

lemma reachable_phase:
  assumes "sys_runs cal (system_init sz cpn cfg) s" "sizes_ok sz" "length (sy_orders s) < 2 ^ 64"
  obtains ph where "in_phase (ec_order_size cfg) ph s"
  using sys_runs_phase [OF assms(1) system_init_phase [OF assms(2)] assms(3)] by blast

text \<open>The latch keeps room for the one order and for its report.\<close>

lemma phase_never_blocks:
  fixes t0 t1 :: u64
  assumes ph: "in_phase z ph s"
  defines "en \<equiv> sy_en s"
  shows "strategy_event cal t0 t1 ev (en_strat en, en_order_q en) \<noteq> None
    \<and> strategy_poll cal t0 t1 (en_strat en, en_feed_q en, en_order_q en, Some (en_fill_q en)) \<noteq> None
    \<and> handle_fill cal now rep (en_gw en, en_fill_q en) \<noteq> None
    \<and> gateway_poll cal env inbox (en_gw en, en_order_q en, en_fill_q en) \<noteq> None"
proof -
  let ?st = "sr_strat (en_strat en)"
  have inv: "spsc_inv (en_feed_q en)" "spsc_inv (en_order_q en)" "spsc_inv (en_fill_q en)" and tab: "table_ok (en_gw en)"
    and room: "0 < spsc_cap (en_order_q en)" "0 < spsc_cap (en_fill_q en)"
    and con: "spsc_contents (en_order_q en) = queued_orders ph" "spsc_contents (en_fill_q en) = queued_fills ph"
    and pos: "position_ok (phase_order ph) ?st"
    and out: "{x. outstanding (en_gw en) x} = o_order_id ` set (on_wire ph)"
    using ph by (simp_all add: in_phase_simps queues_ok_def en_def)
  have emits: "\<not> st_in_flight st" if "fst (on_md ev st) \<noteq> None" for st ev
    using that by (cases rule: on_md_cases [of ev st]) auto
  have full: "queued_orders ph \<noteq> []" if "length (spsc_contents (en_order_q en)) = spsc_cap (en_order_q en)"
    using that room(1) con(1) by auto
  have latched: "queued_orders ph = []" if "\<not> st_in_flight (fold on_fill (take n (queued_fills ph)) ?st)" for n
    using that position_ok_latch [OF pos] by (cases ph) auto
  have "strategy_event cal t0 t1 ev (en_strat en, en_order_q en) \<noteq> None"
    using strategy_event_spec [OF inv(2), where cal = cal and ev = ev and ?t0.0 = t0 and ?t1.0 = t1 and sr = "en_strat en"]
      emits [of ev ?st] full latched [of 0] by (auto split: option.splits)
  moreover have "strategy_poll cal t0 t1 (en_strat en, en_feed_q en, en_order_q en, Some (en_fill_q en)) \<noteq> None"
    using strategy_poll_spec [OF inv, where cal = cal and ?t0.0 = t0 and ?t1.0 = t1 and sr = "en_strat en"]
      emits full latched [of 16] con(2) by (auto split: option.splits)
  moreover have one: "x = y" if "outstanding (en_gw en) x" "outstanding (en_gw en) y" for x y
  proof -
    have "x \<in> o_order_id ` set (on_wire ph)" "y \<in> o_order_id ` set (on_wire ph)"
      using that out by blast+
    then show ?thesis
      by (cases ph) auto
  qed
  moreover have fills: "length (spsc_contents (en_fill_q en)) < spsc_cap (en_fill_q en)" if "outstanding (en_gw en) x" for x
  proof -
    have "x \<in> o_order_id ` set (on_wire ph)"
      using that out by blast
    then show ?thesis
      using room(2) con(2) by (cases ph) auto
  qed
  moreover have "handle_fill cal now rep (en_gw en, en_fill_q en) \<noteq> None"
    by (rule handle_fill_cases [OF inv(3), of "en_gw en" rep cal now]) (use fills [of "r_order_id rep"] in auto)
  moreover have "gateway_poll cal env inbox (en_gw en, en_order_q en, en_fill_q en) \<noteq> None"
    using inv(3) tab fills one by (rule gateway_poll_returns)
  ultimately show ?thesis
    by blast
qed

text \<open>
  C23. The whole engine keeps at most one order in the pipeline. In every state reachable by any interleaving
  of the three stages, the exchange and the operator, over a network that loses, duplicates and
  reorders datagrams: at most one order is queued, on the wire or waiting as a fill; the strategy's
  position is minus the order size, zero or the order size; the risk gate's position is ahead of it
  by exactly the fills still in the queue; and the orders on the wire are numbered 1, 2, 3 and so on.
\<close>

theorem engine_one_order_in_pipeline:
  assumes "sys_runs cal (system_init sz cpn cfg) s" "sizes_ok sz" "length (sy_orders s) < 2 ^ 64"
  defines "en \<equiv> sy_en s"
  shows "length (spsc_contents (en_order_q en)) + card {x. outstanding (en_gw en) x}
      + length (spsc_contents (en_fill_q en)) \<le> 1
    \<and> sint (st_position (sr_strat (en_strat en))) \<in> {- uint (ec_order_size cfg), 0, uint (ec_order_size cfg)}
    \<and> position (gw_risk (en_gw en)) = st_position (sr_strat (en_strat en)) + net_fill (spsc_contents (en_fill_q en))
    \<and> map (o_order_id \<circ> parse_order) (sy_orders s) = map of_nat [1..<Suc (length (sy_orders s))]"
proof -
  obtain ph where ph: "in_phase (ec_order_size cfg) ph s"
    using reachable_phase [OF assms(1-3)] .
  have "length (queued_orders ph) + card (o_order_id ` set (on_wire ph)) + length (queued_fills ph) \<le> 1"
    by (cases ph) simp_all
  with ph show ?thesis
    unfolding en_def by (auto simp only: in_phase_simps position_ok_def wire_ok_def)
qed

theorem engine_one_order_in_pipeline_witness:
  "\<exists>s. sys_runs demo_calibration demo_system s \<and> card {x. outstanding (en_gw (sy_en s)) x} = 1
    \<and> spsc_contents (en_order_q (sy_en s)) = [] \<and> spsc_contents (en_fill_q (sy_en s)) = []
    \<and> map (o_order_id \<circ> parse_order) (sy_orders s) = [1]"
proof -
  obtain s where s: "sys_runs demo_calibration demo_system s" "length (sy_orders s) = 1"
    "card {x. outstanding (en_gw (sy_en s)) x} = 1"
    using demo_answer [of demo_calibration False] by auto
  from engine_one_order_in_pipeline [OF s(1) demo_sizes_ok] s show ?thesis
    by (intro exI [of _ s]) auto
qed

text \<open>
  C25. The unbounded waits never wait: in every reachable state with the queues empty or not, whatever
  event the strategy holds and whatever datagram arrives, the push into the order queue and the push
  into the fill queue find room at the first try, and the polls of both stages return.
\<close>

theorem engine_never_blocks:
  fixes t0 t1 :: u64
  assumes "sys_runs cal (system_init sz cpn cfg) s" "sizes_ok sz" "length (sy_orders s) < 2 ^ 64"
  defines "en \<equiv> sy_en s"
  shows "strategy_event cal t0 t1 ev (en_strat en, en_order_q en) \<noteq> None
    \<and> strategy_poll cal t0 t1 (en_strat en, en_feed_q en, en_order_q en, Some (en_fill_q en)) \<noteq> None
    \<and> handle_fill cal now rep (en_gw en, en_fill_q en) \<noteq> None
    \<and> gateway_poll cal env inbox (en_gw en, en_order_q en, en_fill_q en) \<noteq> None"
proof -
  obtain ph where "in_phase (ec_order_size cfg) ph s"
    using reachable_phase [OF assms(1-3)] .
  then show ?thesis
    unfolding en_def by (rule phase_never_blocks)
qed

theorem engine_never_blocks_witness:
  "\<exists>s. sys_runs demo_calibration demo_system s \<and> length (sy_orders s) = 1
    \<and> handle_fill demo_calibration 9 demo_report (en_gw (sy_en s), en_fill_q (sy_en s)) \<noteq> None"
proof -
  obtain s where s: "sys_runs demo_calibration demo_system s" "length (sy_orders s) = 1"
    using demo_answer [of demo_calibration False] by auto
  with engine_never_blocks [OF s(1) demo_sizes_ok, where now = 9 and rep = demo_report] show ?thesis
    by (intro exI [of _ s]) auto
qed

text \<open>
  C24. The position limit holds for the whole engine: the risk gate's position never exceeds the limit in
  either direction, and would not after the fill of the order on the wire either.
\<close>

theorem engine_position_within_limit:
  assumes "sys_runs cal (system_init sz cpn cfg) s" "sizes_ok sz" "length (sy_orders s) < 2 ^ 64"
    and "0 \<le> sint (lim_max_position (ec_risk cfg))"
  defines "g \<equiv> gw_risk (en_gw (sy_en s))"
  shows "\<bar>sint (position g)\<bar> \<le> sint (lim_max_position (ec_risk cfg))
    \<and> (\<forall>x. outstanding (en_gw (sy_en s)) x \<longrightarrow>
        \<bar>sint (position g) + signed_qty (parse_order (last (sy_orders s)))\<bar> \<le> sint (lim_max_position (ec_risk cfg)))"
proof -
  have "within_limit (sint (lim_max_position (ec_risk cfg))) (system_init sz cpn cfg)"
    using not_outstanding_init [of "es_in_flight sz" cpn "ec_risk cfg"] assms(2,4)
    by (simp add: within_limit_def system_init_def engine_init_def sizes_ok_def Let_def)
      (simp add: gateway_init_def risk_gate_init_def Let_def)
  from runs_within_limit [OF assms(1) this system_init_phase [OF assms(2)] assms(4,3)] show ?thesis
    by (simp add: within_limit_def Let_def g_def)
qed

theorem engine_position_within_limit_witness:
  "\<exists>s. sys_runs demo_calibration demo_system s \<and> sy_orders s \<noteq> []
    \<and> \<bar>sint (position (gw_risk (en_gw (sy_en s)))) + signed_qty (parse_order (last (sy_orders s)))\<bar> \<le> 1000"
proof -
  obtain s where s: "sys_runs demo_calibration demo_system s" "length (sy_orders s) = 1"
    "card {x. outstanding (en_gw (sy_en s)) x} = 1"
    using demo_answer [of demo_calibration False] by auto
  then obtain x where "outstanding (en_gw (sy_en s)) x"
    by (auto simp: card_1_singleton_iff)
  moreover have "sint (lim_max_position (ec_risk demo_cfg)) = 1000"
    by (simp add: demo_cfg_def demo_limits_def)
  ultimately show ?thesis
    using engine_position_within_limit [OF s(1) demo_sizes_ok] s by (intro exI [of _ s]) auto
qed

text \<open>
  C26. One rejection silences the engine for good: once the gate has rejected an order, nothing releases the
  strategy's latch, so in every later state no order was sent since, the position is unchanged and the
  strategy still believes that an order is in flight.
\<close>

theorem engine_silent_after_rejection:
  assumes "sys_runs cal (system_init sz cpn cfg) s" "sizes_ok sz" "length (sy_orders s) < 2 ^ 64"
    and "0 < gw_risk_rejected (en_gw (sy_en s))" "sys_runs cal s s'"
  shows "sy_orders s' = sy_orders s
    \<and> st_position (sr_strat (en_strat (sy_en s'))) = st_position (sr_strat (en_strat (sy_en s)))
    \<and> st_in_flight (sr_strat (en_strat (sy_en s')))"
proof -
  obtain ph where ph: "in_phase (ec_order_size cfg) ph s"
    using reachable_phase [OF assms(1-3)] .
  then have "gw_risk_rejected (en_gw (sy_en s)) = rejections ph"
    by (simp add: in_phase_simps)
  with assms(4) obtain ord where "ph = Rejected ord"
    by (cases ph) auto
  from rejected_runs [OF assms(5) ph [unfolded this] assms(3)] obtain ord' where
    "in_phase (ec_order_size cfg) (Rejected ord') s'" "sy_orders s' = sy_orders s"
    "st_position (sr_strat (en_strat (sy_en s'))) = st_position (sr_strat (en_strat (sy_en s)))"
    by blast
  then show ?thesis
    using position_ok_latch [of "Some ord'" "sr_strat (en_strat (sy_en s'))"] by (simp add: in_phase_simps)
qed

theorem engine_silent_after_rejection_witness:
  "\<exists>s. sys_runs demo_calibration demo_system s \<and> sy_orders s = []
    \<and> (\<forall>s'. sys_runs demo_calibration s s' \<longrightarrow> sy_orders s' = [])"
proof -
  obtain s where s: "sys_runs demo_calibration demo_system s" "sy_orders s = []" "gw_risk_rejected (en_gw (sy_en s)) = 1"
    using demo_answer [of demo_calibration True] by auto
  with engine_silent_after_rejection [OF s(1) demo_sizes_ok] show ?thesis
    by (intro exI [of _ s]) simp
qed

text \<open>
  The interleaving covers the stages' own loops: from a running engine, one poll of the feed handler, of
  the strategy between two events, and of the gateway, with any datagrams the wire can deliver, is a
  run of the step relation and ends in the state the poll computes.
\<close>

theorem engine_polls_are_runs:
  fixes t0 t1 :: u64
  assumes "en_running (sy_en s)" "sy_ev s = None" "set inbox \<subseteq> set (sy_fills s)" "pe_kill env = en_kill (sy_en s)"
  defines "en \<equiv> sy_en s"
  shows "(case feed_poll_once cal recv arrival clock (en_feed en, en_feed_q en) of
        None \<Rightarrow> True
      | Some (n, fh, q) \<Rightarrow> sys_runs cal s (s\<lparr>sy_en := en\<lparr>en_feed := fh, en_feed_q := q\<rparr>\<rparr>))
    \<and> (case strategy_poll cal t0 t1 (en_strat en, en_feed_q en, en_order_q en, Some (en_fill_q en)) of
        Some (worked, sr, feed, orders, Some fills) \<Rightarrow>
          sys_runs cal s (s\<lparr>sy_en := en\<lparr>en_strat := sr, en_feed_q := feed, en_order_q := orders, en_fill_q := fills\<rparr>\<rparr>)
      | _ \<Rightarrow> True)
    \<and> (case gateway_poll cal env inbox (en_gw en, en_order_q en, en_fill_q en) of
        None \<Rightarrow> True
      | Some (worked, inbox', (gw, orders, fills), out) \<Rightarrow>
          sys_runs cal s (s\<lparr>sy_en := en\<lparr>en_gw := gw, en_order_q := orders, en_fill_q := fills\<rparr>,
            sy_orders := sy_orders s @ (case out of None \<Rightarrow> [] | Some bs \<Rightarrow> [bs])\<rparr>))"
  unfolding en_def
  using feed_poll_runs [OF assms(1)] strategy_poll_runs [OF assms(1,2)] gateway_poll_runs [OF assms(1,3,4)]
  by (fastforce split: option.splits)

theorem engine_polls_are_runs_witness:
  "\<exists>s s' fh q. sys_runs demo_calibration demo_system s \<and> sys_runs demo_calibration s s'
    \<and> feed_poll_once demo_calibration (Some demo_datagram) 5 (\<lambda>k. 7) (en_feed (sy_en s), en_feed_q (sy_en s)) = Some (2, fh, q)
    \<and> en_feed (sy_en s') = fh \<and> en_feed_q (sy_en s') = q"
proof -
  let ?s = "demo_system\<lparr>sy_en := engine_start (sy_en demo_system)\<rparr>"
  have s: "en_running (sy_en ?s)" "sy_ev ?s = None" "sys_runs demo_calibration demo_system ?s"
    using sys_runs_step [OF sys_step.start sys_runs_refl, of demo_system]
    by (simp_all add: engine_start_def system_init_def engine_init_def)
  obtain fh q where poll: "feed_poll_once demo_calibration (Some demo_datagram) 5 (\<lambda>k. 7)
      (en_feed (sy_en ?s), en_feed_q (sy_en ?s)) = Some (2, fh, q)"
    using demo_feed_poll [of "en_feed (sy_en ?s)"]
    by (auto simp: engine_start_def system_init_def engine_init_def demo_sizes_def)
  have "case feed_poll_once demo_calibration (Some demo_datagram) 5 (\<lambda>k. 7) (en_feed (sy_en ?s), en_feed_q (sy_en ?s)) of
        None \<Rightarrow> True
      | Some (n, fh, q) \<Rightarrow> sys_runs demo_calibration ?s (?s\<lparr>sy_en := (sy_en ?s)\<lparr>en_feed := fh, en_feed_q := q\<rparr>\<rparr>)"
    using engine_polls_are_runs [OF s(1,2), where inbox = "[]" and env = "demo_env\<lparr>pe_kill := en_kill (sy_en ?s)\<rparr>",
        THEN conjunct1] by simp
  then have "sys_runs demo_calibration ?s (?s\<lparr>sy_en := (sy_en ?s)\<lparr>en_feed := fh, en_feed_q := q\<rparr>\<rparr>)"
    by (simp only: poll option.case split)
  with s(3) poll show ?thesis
    by (intro exI [of _ ?s] exI [of _ "?s\<lparr>sy_en := (sy_en ?s)\<lparr>en_feed := fh, en_feed_q := q\<rparr>\<rparr>"]
        exI [of _ fh] exI [of _ q]) simp
qed

text \<open>
  With the rate limit off and limits that admit the order size, the gate rejects nothing until the operator
  trips the kill switch: in every reachable state of the whole engine without it the rejection counter is zero, so
  the silence after a rejection cannot set in.
\<close>

theorem engine_rejects_only_when_killed:
  assumes "sys_runs cal (system_init sz cpn cfg) s" "sizes_ok sz" "length (sy_orders s) < 2 ^ 64"
    and "limits_admit cfg" "\<not> en_kill (sy_en s)"
  shows "gw_risk_rejected (en_gw (sy_en s)) = 0"
  using runs_gate_open [OF assms(1) init_gate_open [OF assms(4)] system_init_phase [OF assms(2)] assms(3)] assms(5)
  by (simp add: gate_open_def Let_def)

theorem engine_rejects_only_when_killed_witness:
  "\<exists>s. sys_runs demo_calibration demo_system s \<and> length (sy_orders s) = 1 \<and> gw_risk_rejected (en_gw (sy_en s)) = 0"
proof -
  obtain s where s: "sys_runs demo_calibration demo_system s" "length (sy_orders s) = 1" "\<not> en_kill (sy_en s)"
    using demo_answer [of demo_calibration False] by auto
  have "limits_admit demo_cfg"
    by (simp add: limits_admit_def demo_cfg_def demo_limits_def)
  with engine_rejects_only_when_killed [OF s(1) demo_sizes_ok] s show ?thesis
    by (intro exI [of _ s]) simp
qed

end
