(* ===== verification/EngineRun.thy ===== *)
theory EngineRun
  imports EngineModel
begin

text \<open>
  The threads of the engine as they run: \<open>Engine::start\<close> gives every stage a thread whose \<open>run\<close> pins itself,
  builds its wait strategy and then loops (\<open>feed_handler.hpp\<close>, \<open>strategy.hpp\<close>, \<open>order_gateway.hpp\<close>): while the
  engine is running, one poll, then \<open>reset\<close> after work or \<open>idle\<close> without.

  \<open>engine_turn\<close> is one round of one of these loops, or one action of the controlling thread or of the
  exchange; \<open>engine_run\<close> executes a schedule of turns. The scheduler, the clocks, the market data and
  the network are in the turn: a turn that receives names the datagrams it gets by their position among those
  ever sent, in any order, any number of times. Running out of a buffer or spinning for ever is \<^const>\<open>None\<close>.
  The step relation of \<open>EngineModel\<close> interleaves at the queue accesses inside the polls; here a poll is one turn, and
  the refinement lemma says that every schedule is a run of that relation, so what holds of its reachable states
  holds after every turn.
\<close>

subsection \<open>The loops\<close>

record threads =
  th_feed :: wait_strategy
  th_strat :: wait_strategy
  th_gw :: wait_strategy

record machine =
  mc_sys :: system
  mc_exchange :: exchange
  mc_threads :: threads
  mc_idles :: "idle_action list"

text \<open>What a stage's \<open>run\<close> does before its loop.\<close>

definition run_prologue :: "nat option \<Rightarrow> (nat \<Rightarrow> int) \<Rightarrow> wait_policy \<Rightarrow> i32 \<Rightarrow> wait_strategy" where
  "run_prologue cpu_setsize set_affinity policy core =
     stage_wait policy (fst (pin_and_name_thread cpu_setsize set_affinity core))"

definition start_threads :: "nat option \<Rightarrow> (nat \<Rightarrow> int) \<Rightarrow> engine_config \<Rightarrow> threads" where
  "start_threads cpu_setsize set_affinity cfg =
     \<lparr>th_feed = run_prologue cpu_setsize set_affinity (ec_wait_policy cfg) (ec_feed_core cfg),
      th_strat = run_prologue cpu_setsize set_affinity (ec_wait_policy cfg) (ec_strategy_core cfg),
      th_gw = run_prologue cpu_setsize set_affinity (ec_wait_policy cfg) (ec_gateway_core cfg)\<rparr>"

definition machine_start ::
    "nat option \<Rightarrow> (nat \<Rightarrow> int) \<Rightarrow> engine_sizes \<Rightarrow> rat \<Rightarrow> engine_config \<Rightarrow> exchange \<Rightarrow> machine" where
  "machine_start cpu_setsize set_affinity sz cpn cfg sx =
     (let s = system_init sz cpn cfg
      in \<lparr>mc_sys = s\<lparr>sy_en := engine_start (sy_en s)\<rparr>, mc_exchange = sx,
          mc_threads = start_threads cpu_setsize set_affinity cfg, mc_idles = []\<rparr>)"

definition after_poll :: "bool \<Rightarrow> wait_strategy \<Rightarrow> idle_action list \<times> wait_strategy" where
  "after_poll worked w = (if worked then ([], wait_reset w) else case wait_idle w of (a, w) \<Rightarrow> ([a], w))"

datatype turn =
    FeedTurn "u8 list option" u64 "nat \<Rightarrow> u64"
  | StrategyTurn u64 u64
  | GatewayTurn poll_env "nat list"
  | ExchangeTurn "nat list"
  | KillTurn
  | StopTurn

text \<open>The network delivers some of what was sent.\<close>

definition delivered :: "nat list \<Rightarrow> 'a list \<Rightarrow> 'a list" where
  "delivered pick sent = map ((!) sent) (filter (\<lambda>i. i < length sent) pick)"

definition feed_turn :: "tsc_calibration \<Rightarrow> u8 list option \<Rightarrow> u64 \<Rightarrow> (nat \<Rightarrow> u64) \<Rightarrow> machine \<Rightarrow> machine option" where
  "feed_turn cal recv arrival clock mc =
     (let s = mc_sys mc; en = sy_en s; th = mc_threads mc in
      case feed_poll_once cal recv arrival clock (en_feed en, en_feed_q en) of
        None \<Rightarrow> None
      | Some (n, fh, q) \<Rightarrow>
          (case after_poll (0 < n) (th_feed th) of (idles, w) \<Rightarrow>
             Some (mc\<lparr>mc_sys := s\<lparr>sy_en := en\<lparr>en_feed := fh, en_feed_q := q\<rparr>\<rparr>,
                      mc_threads := th\<lparr>th_feed := w\<rparr>, mc_idles := mc_idles mc @ idles\<rparr>)))"

definition strategy_turn :: "tsc_calibration \<Rightarrow> u64 \<Rightarrow> u64 \<Rightarrow> machine \<Rightarrow> machine option" where
  "strategy_turn cal t0 t1 mc =
     (let s = mc_sys mc; en = sy_en s; th = mc_threads mc in
      case strategy_poll cal t0 t1 (en_strat en, en_feed_q en, en_order_q en, Some (en_fill_q en)) of
        Some (worked, sr, feed, orders, Some fills) \<Rightarrow>
          (case after_poll worked (th_strat th) of (idles, w) \<Rightarrow>
             Some (mc\<lparr>mc_sys := s\<lparr>sy_en := en\<lparr>en_strat := sr, en_feed_q := feed, en_order_q := orders, en_fill_q := fills\<rparr>\<rparr>,
                      mc_threads := th\<lparr>th_strat := w\<rparr>, mc_idles := mc_idles mc @ idles\<rparr>))
      | _ \<Rightarrow> None)"

definition gateway_turn :: "tsc_calibration \<Rightarrow> poll_env \<Rightarrow> nat list \<Rightarrow> machine \<Rightarrow> machine option" where
  "gateway_turn cal env pick mc =
     (let s = mc_sys mc; en = sy_en s; th = mc_threads mc in
      case gateway_poll cal (env\<lparr>pe_kill := en_kill en\<rparr>) (delivered pick (sy_fills s)) (en_gw en, en_order_q en, en_fill_q en) of
        None \<Rightarrow> None
      | Some (worked, inbox, (gw, orders, fills), out) \<Rightarrow>
          (case after_poll worked (th_gw th) of (idles, w) \<Rightarrow>
             Some (mc\<lparr>mc_sys := s\<lparr>sy_en := en\<lparr>en_gw := gw, en_order_q := orders, en_fill_q := fills\<rparr>,
                                  sy_orders := sy_orders s @ (case out of None \<Rightarrow> [] | Some bs \<Rightarrow> [bs])\<rparr>,
                      mc_threads := th\<lparr>th_gw := w\<rparr>, mc_idles := mc_idles mc @ idles\<rparr>)))"

definition exchange_turn :: "nat list \<Rightarrow> machine \<Rightarrow> machine" where
  "exchange_turn pick mc =
     (let s = mc_sys mc in
      case service_orders 32 (delivered pick (sy_orders s)) (mc_exchange mc) of
        (left, fills, sx) \<Rightarrow> mc\<lparr>mc_sys := s\<lparr>sy_fills := sy_fills s @ fills\<rparr>, mc_exchange := sx\<rparr>)"

text \<open>A stage that finds the engine stopped leaves its loop: its later turns change nothing.\<close>

primrec engine_turn :: "tsc_calibration \<Rightarrow> turn \<Rightarrow> machine \<Rightarrow> machine option" where
  "engine_turn cal (FeedTurn recv arrival clock) mc =
     (if en_running (sy_en (mc_sys mc)) then feed_turn cal recv arrival clock mc else Some mc)"
| "engine_turn cal (StrategyTurn t0 t1) mc =
     (if en_running (sy_en (mc_sys mc)) then strategy_turn cal t0 t1 mc else Some mc)"
| "engine_turn cal (GatewayTurn env pick) mc =
     (if en_running (sy_en (mc_sys mc)) then gateway_turn cal env pick mc else Some mc)"
| "engine_turn cal (ExchangeTurn pick) mc = Some (exchange_turn pick mc)"
| "engine_turn cal KillTurn mc =
     Some (mc\<lparr>mc_sys := (mc_sys mc)\<lparr>sy_en := trip_kill_switch (sy_en (mc_sys mc))\<rparr>\<rparr>)"
| "engine_turn cal StopTurn mc =
     Some (mc\<lparr>mc_sys := (mc_sys mc)\<lparr>sy_en := engine_stop (sy_en (mc_sys mc))\<rparr>\<rparr>)"

primrec engine_run :: "tsc_calibration \<Rightarrow> turn list \<Rightarrow> machine \<Rightarrow> machine option" where
  "engine_run cal [] mc = Some mc"
| "engine_run cal (t # ts) mc = Option.bind (engine_turn cal t mc) (engine_run cal ts)"


subsection \<open>Schedules are runs\<close>

lemma set_delivered: "set (delivered pick sent) \<subseteq> set sent"
  by (auto simp: delivered_def)

lemma feed_turn_runs:
  assumes "feed_turn cal recv arrival clock mc = Some mc'" "en_running (sy_en (mc_sys mc))"
  shows "sys_runs cal (mc_sys mc) (mc_sys mc') \<and> sy_ev (mc_sys mc') = sy_ev (mc_sys mc)
    \<and> sy_orders (mc_sys mc') = sy_orders (mc_sys mc)"
  using assms(1) feed_poll_runs [OF assms(2)] by (auto simp: feed_turn_def Let_def split: option.splits prod.splits)

lemma strategy_turn_runs:
  assumes "strategy_turn cal t0 t1 mc = Some mc'" "en_running (sy_en (mc_sys mc))" "sy_ev (mc_sys mc) = None"
  shows "sys_runs cal (mc_sys mc) (mc_sys mc') \<and> sy_ev (mc_sys mc') = None
    \<and> sy_orders (mc_sys mc') = sy_orders (mc_sys mc)"
  using assms(1,3) strategy_poll_runs [OF assms(2,3)] by (auto simp: strategy_turn_def Let_def split: option.splits prod.splits)

lemma gateway_turn_runs:
  assumes "gateway_turn cal env pick mc = Some mc'" "en_running (sy_en (mc_sys mc))"
  shows "sys_runs cal (mc_sys mc) (mc_sys mc') \<and> sy_ev (mc_sys mc') = sy_ev (mc_sys mc)
    \<and> length (sy_orders (mc_sys mc')) \<le> Suc (length (sy_orders (mc_sys mc)))"
proof -
  let ?en = "sy_en (mc_sys mc)" and ?env = "env\<lparr>pe_kill := en_kill (sy_en (mc_sys mc))\<rparr>"
  obtain worked inbox gw orders fills out where
    poll: "gateway_poll cal ?env (delivered pick (sy_fills (mc_sys mc))) (en_gw ?en, en_order_q ?en, en_fill_q ?en)
      = Some (worked, inbox, (gw, orders, fills), out)"
    using assms(1) by (auto simp: gateway_turn_def Let_def split: option.splits)
  have "mc_sys mc' = (mc_sys mc)\<lparr>sy_en := ?en\<lparr>en_gw := gw, en_order_q := orders, en_fill_q := fills\<rparr>,
      sy_orders := sy_orders (mc_sys mc) @ (case out of None \<Rightarrow> [] | Some bs \<Rightarrow> [bs])\<rparr>"
    using assms(1) poll by (auto simp: gateway_turn_def Let_def split: prod.splits)
  moreover have "length (case out of None \<Rightarrow> [] | Some bs \<Rightarrow> [bs]) \<le> 1"
    by (simp split: option.split)
  ultimately show ?thesis
    using gateway_poll_runs [OF assms(2) set_delivered _ poll] by simp
qed

lemma exchange_turn_runs:
  "sys_runs cal (mc_sys mc) (mc_sys (exchange_turn pick mc)) \<and> sy_ev (mc_sys (exchange_turn pick mc)) = sy_ev (mc_sys mc)
    \<and> sy_orders (mc_sys (exchange_turn pick mc)) = sy_orders (mc_sys mc)"
  using sys_runs_step [OF sys_step.exchange [OF set_delivered] sys_runs_refl]
  by (auto simp: exchange_turn_def Let_def split: prod.split)

lemma stop_runs: "sy_ev s = None \<Longrightarrow> sys_runs cal s (s\<lparr>sy_en := engine_stop (sy_en s)\<rparr>)"
  using sys_runs_step [OF sys_step.stop sys_runs_refl, of s] sys_runs_refl [of cal s]
  by (cases s; cases "sy_en s"; cases "en_running (sy_en s)") (simp_all add: engine_stop_def)

lemma engine_turn_runs:
  assumes "engine_turn cal t mc = Some mc'" "sy_ev (mc_sys mc) = None"
  shows "sys_runs cal (mc_sys mc) (mc_sys mc') \<and> sy_ev (mc_sys mc') = None
    \<and> length (sy_orders (mc_sys mc')) \<le> Suc (length (sy_orders (mc_sys mc)))"
proof (cases t)
  case (FeedTurn recv arrival clock)
  with assms show ?thesis
    using feed_turn_runs [of cal recv arrival clock mc mc'] by (auto simp: sys_runs_refl split: if_splits)
next
  case (StrategyTurn t0 t1)
  with assms show ?thesis
    using strategy_turn_runs [of cal t0 t1 mc mc'] by (auto simp: sys_runs_refl split: if_splits)
next
  case (GatewayTurn env pick)
  with assms show ?thesis
    using gateway_turn_runs [of cal env pick mc mc'] by (auto simp: sys_runs_refl split: if_splits)
next
  case (ExchangeTurn pick)
  with assms show ?thesis
    using exchange_turn_runs [of cal mc pick] by auto
next
  case KillTurn
  with assms show ?thesis
    using sys_runs_step [OF sys_step.kill sys_runs_refl, of cal "mc_sys mc"] by auto
next
  case StopTurn
  with assms show ?thesis
    using stop_runs by auto
qed


subsection \<open>Every turn returns\<close>

lemma strategy_poll_fills:
  "strategy_poll cal t0 t1 (sr, feed, orders, Some fq) = Some (worked, sr', feed', orders', fills) \<Longrightarrow> fills \<noteq> None"
  by (auto simp: strategy_poll_def drain_strategy_fills_def Let_def split: option.splits prod.splits)

lemma engine_turn_returns:
  assumes "in_phase z ph (mc_sys mc)"
  shows "engine_turn cal t mc \<noteq> None"
proof (cases t)
  case (FeedTurn recv arrival clock)
  then show ?thesis
    using feed_poll_returns [of cal recv arrival clock "(en_feed (sy_en (mc_sys mc)), en_feed_q (sy_en (mc_sys mc)))"]
    by (auto simp: feed_turn_def Let_def split: option.splits prod.splits)
next
  case (StrategyTurn t0 t1)
  let ?en = "sy_en (mc_sys mc)"
  have "strategy_poll cal t0 t1 (en_strat ?en, en_feed_q ?en, en_order_q ?en, Some (en_fill_q ?en)) \<noteq> None"
    using phase_never_blocks [OF assms] by simp
  then show ?thesis
    using StrategyTurn strategy_poll_fills by (fastforce simp: strategy_turn_def Let_def split: option.splits prod.splits)
next
  case (GatewayTurn env pick)
  let ?en = "sy_en (mc_sys mc)"
  have "gateway_poll cal (env\<lparr>pe_kill := en_kill ?en\<rparr>) (delivered pick (sy_fills (mc_sys mc)))
      (en_gw ?en, en_order_q ?en, en_fill_q ?en) \<noteq> None"
    using phase_never_blocks [OF assms] by simp
  then show ?thesis
    using GatewayTurn by (auto simp: gateway_turn_def Let_def split: option.splits prod.splits)
qed simp_all

text \<open>A state between turns, with \<open>k\<close> order numbers to spare.\<close>

definition reached :: "tsc_calibration \<Rightarrow> engine_sizes \<Rightarrow> rat \<Rightarrow> engine_config \<Rightarrow> nat \<Rightarrow> machine \<Rightarrow> bool" where
  "reached cal sz cpn cfg k mc \<longleftrightarrow> sys_runs cal (system_init sz cpn cfg) (mc_sys mc) \<and> sizes_ok sz
     \<and> sy_ev (mc_sys mc) = None \<and> length (sy_orders (mc_sys mc)) + k < 2 ^ 64"

lemma reached_start: "sizes_ok sz \<Longrightarrow> k < 2 ^ 64 \<Longrightarrow> reached cal sz cpn cfg k (machine_start cpu_setsize set_affinity sz cpn cfg sx)"
  using sys_runs_step [OF sys_step.start sys_runs_refl, of "system_init sz cpn cfg" cal]
  by (simp add: reached_def machine_start_def Let_def) (simp add: system_init_def engine_init_def)

lemma reached_turn:
  assumes "reached cal sz cpn cfg (Suc k) mc"
  obtains mc' where "engine_turn cal t mc = Some mc'" "reached cal sz cpn cfg k mc'"
proof -
  have "sys_runs cal (system_init sz cpn cfg) (mc_sys mc)" "sizes_ok sz" "length (sy_orders (mc_sys mc)) < 2 ^ 64"
    using assms by (simp_all add: reached_def)
  then obtain ph where "in_phase (ec_order_size cfg) ph (mc_sys mc)"
    by (rule reachable_phase)
  then have "engine_turn cal t mc \<noteq> None"
    by (rule engine_turn_returns)
  then obtain mc' where mc': "engine_turn cal t mc = Some mc'"
    by blast
  show thesis
    using engine_turn_runs [OF mc'] assms by (intro that [OF mc']) (auto simp: reached_def intro: sys_runs_trans)
qed

lemma reached_run:
  assumes "reached cal sz cpn cfg (length ts + k) mc"
  obtains mc' where "engine_run cal ts mc = Some mc'" "reached cal sz cpn cfg k mc'"
proof -
  have "\<exists>mc'. engine_run cal ts mc = Some mc' \<and> reached cal sz cpn cfg k mc'"
    using assms
  proof (induction ts arbitrary: mc)
    case (Cons t ts)
    then obtain mc1 where "engine_turn cal t mc = Some mc1" "reached cal sz cpn cfg (length ts + k) mc1"
      using reached_turn [of cal sz cpn cfg "length ts + k" mc t] by auto
    with Cons.IH show ?case by simp
  qed simp
  then show thesis
    using that by blast
qed

lemma reached_in_phase:
  assumes "reached cal sz cpn cfg k mc"
  obtains ph where "in_phase (ec_order_size cfg) ph (mc_sys mc)"
    "limits_admit cfg \<and> \<not> en_kill (sy_en (mc_sys mc)) \<longrightarrow> (\<forall>ord. ph \<noteq> Rejected ord)"
proof -
  have reach: "sys_runs cal (system_init sz cpn cfg) (mc_sys mc)" "sizes_ok sz" "length (sy_orders (mc_sys mc)) < 2 ^ 64"
    using assms by (simp_all add: reached_def)
  obtain ph where ph: "in_phase (ec_order_size cfg) ph (mc_sys mc)"
    using reachable_phase [OF reach] .
  have "\<forall>ord. ph \<noteq> Rejected ord" if admitted: "limits_admit cfg" "\<not> en_kill (sy_en (mc_sys mc))"
  proof -
    have "gw_risk_rejected (en_gw (sy_en (mc_sys mc))) = 0"
      using runs_gate_open [OF reach(1) init_gate_open [OF admitted(1)] system_init_phase [OF reach(2)] reach(3)] admitted(2)
      by (simp add: gate_open_def Let_def)
    with ph show ?thesis
      by (auto simp: in_phase_simps)
  qed
  with ph show thesis
    by (intro that [of ph]) blast+
qed


subsection \<open>Spinning threads\<close>

definition spinning :: "threads \<Rightarrow> bool" where
  "spinning th \<longleftrightarrow> ws_spin_only (th_feed th) \<and> ws_spin_only (th_strat th) \<and> ws_spin_only (th_gw th)"

lemma after_poll_spins:
  "ws_spin_only w \<Longrightarrow> after_poll worked w = (idles, w') \<Longrightarrow> ws_spin_only w' \<and> ThreadYield \<notin> set idles"
  by (auto simp: after_poll_def wait_reset_def wait_idle_def split: if_splits)

lemma engine_turn_spins:
  assumes "engine_turn cal t mc = Some mc'" "spinning (mc_threads mc)" "ThreadYield \<notin> set (mc_idles mc)"
  shows "spinning (mc_threads mc') \<and> ThreadYield \<notin> set (mc_idles mc')"
  using assms
  by (cases t)
    (auto simp: feed_turn_def strategy_turn_def gateway_turn_def exchange_turn_def Let_def spinning_def
      split: if_splits option.splits prod.splits dest: after_poll_spins)

lemma engine_run_spins:
  "engine_run cal ts mc = Some mc' \<Longrightarrow> spinning (mc_threads mc) \<Longrightarrow> ThreadYield \<notin> set (mc_idles mc)
    \<Longrightarrow> ThreadYield \<notin> set (mc_idles mc')"
  by (induction ts arbitrary: mc) (auto simp: bind_eq_Some_conv dest: engine_turn_spins)

lemma run_prologue_spins:
  "ws_spin_only (run_prologue cpu_setsize set_affinity policy core)
    \<longleftrightarrow> policy = kSpin \<or> policy = kAdaptive \<and> affinity_ok (pin_current_thread cpu_setsize set_affinity core)"
  by (simp add: run_prologue_def stage_wait_def wait_strategy_init_def pin_and_name_thread_def Let_def)


subsection \<open>A round without loss\<close>

text \<open>
  One poll of the gateway, the exchange answering the last order sent, a poll of the gateway that receives the last
  report, and a poll of the strategy.
\<close>

definition lossless_round ::
    "tsc_calibration \<Rightarrow> poll_env \<Rightarrow> poll_env \<Rightarrow> u64 \<Rightarrow> u64 \<Rightarrow> machine \<Rightarrow> machine option" where
  "lossless_round cal env1 env2 t0 t1 mc =
     Option.bind (engine_turn cal (GatewayTurn env1 []) mc) (\<lambda>mc.
     Option.bind (engine_turn cal (ExchangeTurn [length (sy_orders (mc_sys mc)) - 1]) mc) (\<lambda>mc.
     Option.bind (engine_turn cal (GatewayTurn env2 [length (sy_fills (mc_sys mc)) - 1]) mc)
       (engine_turn cal (StrategyTurn t0 t1))))"

lemma gateway_turn_spec:
  assumes "gateway_turn cal env pick mc = Some mc'" "in_phase z ph (mc_sys mc)"
  defines "en \<equiv> sy_en (mc_sys mc)" and "en' \<equiv> sy_en (mc_sys mc')"
  shows "spsc_contents (en_order_q en') = tl (queued_orders ph) \<and> sy_fills (mc_sys mc') = sy_fills (mc_sys mc)
    \<and> en_feed_q en' = en_feed_q en \<and> en_kill en' = en_kill en \<and> en_running en' = en_running en"
proof -
  let ?env = "env\<lparr>pe_kill := en_kill en\<rparr>"
  obtain worked inbox gw orders fills out where
    poll: "gateway_poll cal ?env (delivered pick (sy_fills (mc_sys mc))) (en_gw en, en_order_q en, en_fill_q en)
      = Some (worked, inbox, (gw, orders, fills), out)"
    using assms(1) by (auto simp: gateway_turn_def Let_def en_def split: option.splits)
  have "spsc_contents orders = tl (queued_orders ph)"
    using gateway_poll_spec [OF poll] assms(2) by (auto simp: in_phase_simps queues_ok_def en_def)
  then show ?thesis
    using assms(1) poll by (auto simp: gateway_turn_def Let_def en_def en'_def split: prod.splits)
qed

text \<open>A report that is received is not outstanding any more.\<close>

lemma drain_fills_one:
  "length (take kExecSize bs) = kExecSize \<Longrightarrow> drain_fills cal clock (Suc d) [bs] st
    = map_option (\<lambda>st. ([], st)) (handle_fill cal (clock d) (parse_exec (take kExecSize bs)) st)"
  by (simp split: option.split)

lemma gateway_poll_takes:
  assumes "gateway_poll cal env [bs] (gw, orders, fq) = Some (worked, inbox', (gw', orders', fq'), out)"
    and "spsc_inv orders" "spsc_inv fq" "table_ok gw" "spsc_contents orders = []" "length (take kExecSize bs) = kExecSize"
  shows "outstanding gw' x \<longleftrightarrow> outstanding gw x \<and> x \<noteq> r_order_id (parse_exec (take kExecSize bs))"
proof -
  let ?rep = "parse_exec (take kExecSize bs)"
  obtain gw1 inbox1 where drain: "drain_fills cal (pe_fill_clock env) 32 [bs] (gw, fq) = Some (inbox1, gw1, fq')"
    and send: "gateway_send cal env (gw1, orders) = (worked, (gw', orders'), out)"
    using assms(1) by (auto simp: gateway_poll_def split: option.splits prod.splits)
  have one: "handle_fill cal (pe_fill_clock env 31) ?rep (gw, fq) = Some (gw1, fq')"
    using drain drain_fills_one [OF assms(6), of cal "pe_fill_clock env" 31 "(gw, fq)"] by (auto simp: map_option_case split: option.splits)
  have "gw' = gw1"
    using gateway_send_spec(4) [OF send assms(2)] assms(3-5) one
    by (cases rule: handle_fill_cases [OF assms(3), of gw ?rep cal "pe_fill_clock env 31"])
      (auto simp: send_outcome_def match_fill_outstanding)
  moreover have "outstanding gw1 x \<longleftrightarrow> outstanding gw x \<and> x \<noteq> r_order_id ?rep"
    using assms(3)
  proof (cases rule: handle_fill_cases [of fq gw ?rep cal "pe_fill_clock env 31"])
    case (matched fq1)
    then show ?thesis
      using one match_fill_outstanding(2) [OF assms(4), of cal "pe_fill_clock env 31" ?rep x] outstanding_inj [OF _ matched(1), of x]
      by auto
  qed (use one in auto)
  ultimately show ?thesis
    by simp
qed


lemma service_orders_one:
  "length bs = kOrderSize \<Longrightarrow> fst (snd (service_orders (Suc d) [bs] sx)) = [encode_exec (fill_of (parse_order bs))]"
  by (cases d) simp_all

lemma exchange_answers_last:
  assumes "in_phase z (OnWire ord) (mc_sys mc)"
  defines "mc' \<equiv> exchange_turn [length (sy_orders (mc_sys mc)) - 1] mc"
  shows "sy_fills (mc_sys mc') = sy_fills (mc_sys mc) @ [encode_exec (fill_of ord)]"
proof -
  let ?orders = "sy_orders (mc_sys mc)"
  have last: "?orders \<noteq> []" "parse_order (last ?orders) = ord" and wire: "wire_ok ?orders (sy_fills (mc_sys mc))"
    using assms(1) by (simp_all add: in_phase_simps)
  have "last ?orders \<in> set (map (encode_order \<circ> parse_order) ?orders)"
    using last_in_set [OF last(1)] wire by (simp only: wire_ok_def)
  then have take: "take kOrderSize (last ?orders) = last ?orders" "length (last ?orders) = kOrderSize"
    using order_codec.take_enc order_codec.length_enc by auto
  have "delivered [length ?orders - 1] ?orders = [last ?orders]"
    using last(1) by (simp add: delivered_def last_conv_nth)
  moreover have "fst (snd (service_orders 32 [last ?orders] (mc_exchange mc))) = [encode_exec (fill_of ord)]"
    using service_orders_one [OF take(2), of 31 "mc_exchange mc"] last(2) by simp
  ultimately show ?thesis
    by (auto simp: mc'_def exchange_turn_def Let_def split: prod.splits)
qed

lemma strategy_turn_idle:
  assumes "strategy_turn cal t0 t1 mc = Some mc'" "in_phase z ph (mc_sys mc)" "spsc_contents (en_feed_q (sy_en (mc_sys mc))) = []"
  defines "en \<equiv> sy_en (mc_sys mc)" and "en' \<equiv> sy_en (mc_sys mc')"
  shows "spsc_contents (en_order_q en') = queued_orders ph \<and> spsc_contents (en_fill_q en') = []
    \<and> en_gw en' = en_gw en \<and> en_kill en' = en_kill en"
proof -
  have inv: "spsc_inv (en_feed_q en)" "spsc_inv (en_order_q en)" "spsc_inv (en_fill_q en)"
    and con: "spsc_contents (en_order_q en) = queued_orders ph" "spsc_contents (en_fill_q en) = queued_fills ph"
    using assms(2) by (simp_all add: in_phase_simps queues_ok_def en_def)
  obtain worked sr feed orders fills where
    poll: "strategy_poll cal t0 t1 (en_strat en, en_feed_q en, en_order_q en, Some (en_fill_q en))
      = Some (worked, sr, feed, orders, Some fills)"
    using assms(1) by (auto simp: strategy_turn_def Let_def en_def split: option.splits)
  have "length (queued_fills ph) \<le> 16"
    by (cases ph) simp_all
  then have "orders = en_order_q en \<and> spsc_contents fills = []"
    using strategy_poll_spec [OF inv, where cal = cal and ?t0.0 = t0 and ?t1.0 = t1 and sr = "en_strat en"] poll assms(3) con by (simp add: en_def)
  then show ?thesis
    using assms(1) poll con by (auto simp: strategy_turn_def Let_def en_def en'_def split: prod.splits)
qed


text \<open>After a report of the order on the wire nothing is outstanding; without one it stays so.\<close>

lemma gateway_turn_settles:
  assumes "gateway_turn cal env [length (sy_fills (mc_sys mc)) - 1] mc = Some mc'" "in_phase z ph (mc_sys mc)"
    and "queued_orders ph = []"
    and "\<And>ord. ph = OnWire ord \<Longrightarrow> sy_fills (mc_sys mc) \<noteq> [] \<and> last (sy_fills (mc_sys mc)) = encode_exec (fill_of ord)"
  shows "\<not> outstanding (en_gw (sy_en (mc_sys mc'))) x"
proof -
  let ?en = "sy_en (mc_sys mc)" and ?fills = "sy_fills (mc_sys mc)"
  have inv: "spsc_inv (en_order_q ?en)" "spsc_inv (en_fill_q ?en)" and tab: "table_ok (en_gw ?en)"
    and con: "spsc_contents (en_order_q ?en) = []" and out: "{x. outstanding (en_gw ?en) x} = o_order_id ` set (on_wire ph)"
    using assms(2,3) by (simp_all add: in_phase_simps queues_ok_def)
  obtain env worked inbox gw orders fills out where
    poll: "gateway_poll cal env (delivered [length ?fills - 1] ?fills) (en_gw ?en, en_order_q ?en, en_fill_q ?en)
      = Some (worked, inbox, (gw, orders, fills), out)"
    and gw: "en_gw (sy_en (mc_sys mc')) = gw"
    using assms(1) by (auto simp: gateway_turn_def Let_def split: option.splits prod.splits)
  obtain fwd gw1 where gw1: "took_from (delivered [length ?fills - 1] ?fills) (en_gw ?en) fwd gw1"
    "send_outcome env [] gw1 worked out gw"
    using gateway_poll_spec [OF poll inv tab] con by auto
  show ?thesis
  proof (cases "\<exists>ord. ph = OnWire ord")
    case True
    then obtain ord where ph: "ph = OnWire ord"
      by blast
    let ?bs = "encode_exec (fill_of ord)"
    have "delivered [length ?fills - 1] ?fills = [?bs]"
      using assms(4) [OF ph] last_conv_nth [of ?fills] by (simp add: delivered_def)
    with poll have "gateway_poll cal env [?bs] (en_gw ?en, en_order_q ?en, en_fill_q ?en)
        = Some (worked, inbox, (gw, orders, fills), out)"
      by simp
    moreover have "length (take kExecSize ?bs) = kExecSize"
      using exec_codec.take_enc exec_codec.length_enc by metis
    ultimately have "outstanding gw x \<longleftrightarrow> outstanding (en_gw ?en) x \<and> x \<noteq> o_order_id ord"
      using gateway_poll_takes [OF _ inv tab con] by (simp add: exec_codec.take_enc exec_codec.dec_enc_exact fill_of_def)
    with out ph gw show ?thesis
      by auto
  next
    case False
    then have "on_wire ph = []"
      by (cases ph) auto
    with out have "\<not> outstanding (en_gw ?en) x"
      by auto
    moreover have "of_bool (outstanding gw1 x) + count_list (map r_order_id fwd) x = (of_bool (outstanding (en_gw ?en) x) :: nat)"
      using gw1(1) unfolding took_from_def by blast
    ultimately show ?thesis
      using gw1(2) gw by (simp add: send_outcome_def)
  qed
qed

text \<open>The first three polls clear the way: nothing is queued for the gateway and nothing is outstanding.\<close>

lemma lossless_round_gateway:
  assumes reach: "reached cal sz cpn cfg (Suc (Suc (Suc k))) mc"
    and on: "en_running (sy_en (mc_sys mc))"
  obtains mc1 mc2 mc3 where "engine_turn cal (GatewayTurn env1 []) mc = Some mc1"
    "engine_turn cal (ExchangeTurn [length (sy_orders (mc_sys mc1)) - 1]) mc1 = Some mc2"
    "engine_turn cal (GatewayTurn env2 [length (sy_fills (mc_sys mc2)) - 1]) mc2 = Some mc3"
    "reached cal sz cpn cfg k mc3" "en_running (sy_en (mc_sys mc3))"
    "en_kill (sy_en (mc_sys mc3)) = en_kill (sy_en (mc_sys mc))" "en_feed_q (sy_en (mc_sys mc3)) = en_feed_q (sy_en (mc_sys mc))"
    "spsc_contents (en_order_q (sy_en (mc_sys mc3))) = []" "\<forall>x. \<not> outstanding (en_gw (sy_en (mc_sys mc3))) x"
proof -
  let ?z = "ec_order_size cfg"
  obtain mc1 where mc1: "engine_turn cal (GatewayTurn env1 []) mc = Some mc1" "reached cal sz cpn cfg (Suc (Suc k)) mc1"
    using reached_turn [OF reach] .
  let ?mc2 = "exchange_turn [length (sy_orders (mc_sys mc1)) - 1] mc1"
  have mc2: "engine_turn cal (ExchangeTurn [length (sy_orders (mc_sys mc1)) - 1]) mc1 = Some ?mc2"
    "reached cal sz cpn cfg (Suc k) ?mc2"
    using reached_turn [OF mc1(2), of "ExchangeTurn [length (sy_orders (mc_sys mc1)) - 1]"] by auto
  have en: "sy_en (mc_sys ?mc2) = sy_en (mc_sys mc1)" "sy_orders (mc_sys ?mc2) = sy_orders (mc_sys mc1)"
    by (simp_all add: exchange_turn_def Let_def split: prod.split)
  obtain mc3 where mc3: "engine_turn cal (GatewayTurn env2 [length (sy_fills (mc_sys ?mc2)) - 1]) ?mc2 = Some mc3"
    "reached cal sz cpn cfg k mc3"
    using reached_turn [OF mc2(2)] .
  obtain ph ph1 ph2 where ph: "in_phase ?z ph (mc_sys mc)" "in_phase ?z ph1 (mc_sys mc1)" "in_phase ?z ph2 (mc_sys ?mc2)"
    using reached_in_phase [OF reach] reached_in_phase [OF mc1(2)] reached_in_phase [OF mc2(2)] by metis
  have g1: "gateway_turn cal env1 [] mc = Some mc1"
    using mc1(1) on by simp
  note s1 = gateway_turn_spec [OF g1 ph(1)]
  have "tl (queued_orders ph) = []"
    by (cases ph) simp_all
  with s1 ph(3) en have none: "queued_orders ph2 = []"
    by (simp add: in_phase_simps)
  have g3: "gateway_turn cal env2 [length (sy_fills (mc_sys ?mc2)) - 1] ?mc2 = Some mc3"
    using mc3(1) s1 on en by simp
  note s3 = gateway_turn_spec [OF g3 ph(3)]
  have "\<not> outstanding (en_gw (sy_en (mc_sys mc3))) x" for x
  proof (rule gateway_turn_settles [OF g3 ph(3) none])
    fix ord
    assume "ph2 = OnWire ord"
    with ph(2,3) en have "in_phase ?z (OnWire ord) (mc_sys mc1)"
      by (auto simp: in_phase_simps wire_ok_def)
    from exchange_answers_last [OF this]
    show "sy_fills (mc_sys ?mc2) \<noteq> [] \<and> last (sy_fills (mc_sys ?mc2)) = encode_exec (fill_of ord)"
      by simp
  qed
  with s1 s3 none en on show thesis
    by (intro that [OF mc1(1) mc2(1) mc3(1,2)]) simp_all
qed

lemma lossless_round_settles:
  assumes reach: "reached cal sz cpn cfg 4 mc" and on: "en_running (sy_en (mc_sys mc))"
    and quiet: "spsc_contents (en_feed_q (sy_en (mc_sys mc))) = []"
  obtains mc' ph where "lossless_round cal env1 env2 t0 t1 mc = Some mc'" "in_phase (ec_order_size cfg) ph (mc_sys mc')"
    "ph = Idle \<or> (\<exists>ord. ph = Rejected ord)" "limits_admit cfg \<and> \<not> en_kill (sy_en (mc_sys mc)) \<Longrightarrow> ph = Idle"
proof -
  have "reached cal sz cpn cfg (Suc (Suc (Suc (Suc 0)))) mc"
    using reach by (simp add: reached_def)
  then obtain mc1 mc2 mc3 where polls: "engine_turn cal (GatewayTurn env1 []) mc = Some mc1"
      "engine_turn cal (ExchangeTurn [length (sy_orders (mc_sys mc1)) - 1]) mc1 = Some mc2"
      "engine_turn cal (GatewayTurn env2 [length (sy_fills (mc_sys mc2)) - 1]) mc2 = Some mc3"
    and mc3: "reached cal sz cpn cfg (Suc 0) mc3" "en_running (sy_en (mc_sys mc3))"
      "en_kill (sy_en (mc_sys mc3)) = en_kill (sy_en (mc_sys mc))" "en_feed_q (sy_en (mc_sys mc3)) = en_feed_q (sy_en (mc_sys mc))"
      "spsc_contents (en_order_q (sy_en (mc_sys mc3))) = []" "\<forall>x. \<not> outstanding (en_gw (sy_en (mc_sys mc3))) x"
    using on by (rule lossless_round_gateway [where ?env1.0 = env1 and ?env2.0 = env2])
  obtain mc4 where mc4: "engine_turn cal (StrategyTurn t0 t1) mc3 = Some mc4" "reached cal sz cpn cfg 0 mc4"
    using reached_turn [OF mc3(1)] .
  obtain ph3 where ph3: "in_phase (ec_order_size cfg) ph3 (mc_sys mc3)"
    using reached_in_phase [OF mc3(1)] .
  have "strategy_turn cal t0 t1 mc3 = Some mc4"
    using mc4(1) mc3(2) by simp
  note s4 = strategy_turn_idle [OF this ph3]
  obtain ph4 where ph4: "in_phase (ec_order_size cfg) ph4 (mc_sys mc4)"
    "limits_admit cfg \<and> \<not> en_kill (sy_en (mc_sys mc4)) \<longrightarrow> (\<forall>ord. ph4 \<noteq> Rejected ord)"
    using reached_in_phase [OF mc4(2)] .
  have "spsc_contents (en_feed_q (sy_en (mc_sys mc3))) = []"
    using mc3(4) quiet by simp
  note s4 = s4 [OF this]
  have "queued_orders ph3 = []"
    using ph3 mc3(5) by (simp add: in_phase_simps)
  with s4 ph4(1) have "queued_orders ph4 = []" "queued_fills ph4 = []"
    by (simp_all add: in_phase_simps)
  moreover have "o_order_id ` set (on_wire ph4) = {}"
  proof -
    have "o_order_id ` set (on_wire ph4) = {x. outstanding (en_gw (sy_en (mc_sys mc4))) x}"
      using ph4(1) by (simp add: in_phase_simps)
    then show ?thesis
      using s4 mc3(6) by simp
  qed
  ultimately have settled: "ph4 = Idle \<or> (\<exists>ord. ph4 = Rejected ord)"
    by (cases ph4) simp_all
  moreover have "ph4 = Idle" if "limits_admit cfg \<and> \<not> en_kill (sy_en (mc_sys mc))"
    using settled s4 ph4(2) mc3(3) that by auto
  ultimately show thesis
    using ph4(1) polls mc4(1)
    by (intro that [of mc4 ph4]) (simp_all add: lossless_round_def del: engine_turn.simps)
qed


subsection \<open>A demonstration\<close>

text \<open>
  One message through the feed handler and the strategy: between the two turns the engine holds nothing but
  what the strategy emitted.
\<close>

definition between_turns :: "machine \<Rightarrow> bool" where
  "between_turns mc \<longleftrightarrow>
     (let en = sy_en (mc_sys mc) in
      en_running en \<and> \<not> en_kill en \<and> spsc_inv (en_feed_q en) \<and> spsc_inv (en_order_q en) \<and> spsc_inv (en_fill_q en)
      \<and> spsc_contents (en_feed_q en) = [] \<and> spsc_contents (en_fill_q en) = [] \<and> 0 < spsc_cap (en_feed_q en))"

lemma feed_turn_one:
  assumes "between_turns mc"
  obtains mc' q where "engine_turn cal (FeedTurn (Some (encode_message m)) arrival clock) mc = Some mc'"
    "spsc_inv q" "spsc_contents q = [stamp_event arrival m]" "spsc_cap q = spsc_cap (en_feed_q (sy_en (mc_sys mc)))"
    "sy_en (mc_sys mc') = (sy_en (mc_sys mc))\<lparr>en_feed := en_feed (sy_en (mc_sys mc')), en_feed_q := q\<rparr>"
proof -
  let ?en = "sy_en (mc_sys mc)" and ?bs = "encode_message m"
  have en: "en_running ?en" "spsc_inv (en_feed_q ?en)" "spsc_contents (en_feed_q ?en) = []" "0 < spsc_cap (en_feed_q ?en)"
    using assms by (simp_all add: between_turns_def Let_def)
  have "frames kMsgSize ?bs = [?bs]"
    using itch_codec.frames_encoded [of "[]" "[m]"] by (simp add: kMsgSize_def)
  then have "map parse_message (frames kMsgSize (unread (feed_reader_init ?bs (length ?bs)))) = [m]"
    by (simp add: unread_def feed_reader_init_def itch_codec.dec_enc_exact)
  then have loop: "feed_loop cal arrival clock 0 (feed_reader_init ?bs (length ?bs)) (en_feed ?en, en_feed_q ?en, 0)
      = Some (fold (\<lambda>(j, m). feed_message cal arrival (clock j) m) (enumerate 0 [m]) (en_feed ?en, en_feed_q ?en, 0))"
    by (subst feed_loop_fold) (simp_all add: feed_reader_init_def)
  obtain fh q n where fed: "fold (\<lambda>(j, m). feed_message cal arrival (clock j) m) (enumerate 0 [m]) (en_feed ?en, en_feed_q ?en, 0)
      = (fh, q, n)" and q: "spsc_inv q" "spsc_cap q = spsc_cap (en_feed_q ?en)"
    "spsc_contents q = take (queue_room (en_feed_q ?en)) [stamp_event arrival m]"
    using feed_messages_spec [OF en(2), where cal = cal and arrival = arrival and clock = clock and k = 0 and ms = "[m]"
        and fh = "en_feed ?en" and n = 0] en(3) by auto
  have "?bs \<noteq> []"
    using itch_codec.length_enc itch_codec.width_pos by (metis list.size(3) less_irrefl)
  moreover have "feed_loop cal arrival clock 0 (feed_reader_init ?bs (length ?bs)) (en_feed ?en, en_feed_q ?en, 0) = Some (fh, q, n)"
    by (simp only: loop fed)
  ultimately have poll: "feed_poll_once cal (Some ?bs) arrival clock (en_feed ?en, en_feed_q ?en) = Some (n, fh, q)"
    by (simp add: feed_poll_once_def)
  obtain idles w where "after_poll (0 < n) (th_feed (mc_threads mc)) = (idles, w)"
    by (rule prod.exhaust)
  with poll have turn: "engine_turn cal (FeedTurn (Some ?bs) arrival clock) mc = Some (mc\<lparr>mc_sys := (mc_sys mc)\<lparr>sy_en := ?en\<lparr>en_feed := fh,
      en_feed_q := q\<rparr>\<rparr>, mc_threads := (mc_threads mc)\<lparr>th_feed := w\<rparr>, mc_idles := mc_idles mc @ idles\<rparr>)"
    using en(1) by (simp add: feed_turn_def Let_def)
  have "spsc_contents q = [stamp_event arrival m]"
    using q(3) en(3,4) by (cases "spsc_cap (en_feed_q ?en)") (auto simp: queue_room_def)
  from that [OF turn q(1) this q(2)] show thesis
    by simp
qed


lemma strategy_turn_one:
  assumes "en_running en" "spsc_inv (en_feed_q en)" "spsc_inv (en_order_q en)" "spsc_inv (en_fill_q en)"
    and "spsc_contents (en_fill_q en) = []" "spsc_contents (en_feed_q en) = [ev]"
    and "length (spsc_contents (en_order_q en)) < spsc_cap (en_order_q en)" "sy_en (mc_sys mc) = en"
  defines "st \<equiv> sr_strat (en_strat en)"
  obtains mc' en' where "engine_turn cal (StrategyTurn t0 t1) mc = Some mc'" "sy_en (mc_sys mc') = en'"
    "sr_strat (en_strat en') = snd (on_md ev st)" "spsc_contents (en_feed_q en') = []" "spsc_inv (en_feed_q en')"
    "spsc_contents (en_order_q en') = spsc_contents (en_order_q en) @ emitted_orders ev st" "spsc_inv (en_order_q en')"
    "spsc_contents (en_fill_q en') = []" "spsc_inv (en_fill_q en')" "spsc_cap (en_order_q en') = spsc_cap (en_order_q en)"
    "spsc_cap (en_feed_q en') = spsc_cap (en_feed_q en)" "en_running en'" "en_kill en' = en_kill en"
proof -
  note spec = strategy_poll_spec [OF assms(2-4), where cal = cal and ?t0.0 = t0 and ?t1.0 = t1 and sr = "en_strat en"]
  obtain worked sr feed orders fills where
    poll: "strategy_poll cal t0 t1 (en_strat en, en_feed_q en, en_order_q en, Some (en_fill_q en))
      = Some (worked, sr, feed, orders, fills)"
    using spec assms(7) by (cases "strategy_poll cal t0 t1 (en_strat en, en_feed_q en, en_order_q en, Some (en_fill_q en))") auto
  then obtain fq where fq: "fills = Some fq"
    using strategy_poll_fills by blast
  obtain idles w where "after_poll worked (th_strat (mc_threads mc)) = (idles, w)"
    by (rule prod.exhaust)
  with poll fq have "engine_turn cal (StrategyTurn t0 t1) mc = Some (mc\<lparr>mc_sys := (mc_sys mc)\<lparr>sy_en := en\<lparr>en_strat := sr,
      en_feed_q := feed, en_order_q := orders, en_fill_q := fq\<rparr>\<rparr>, mc_threads := (mc_threads mc)\<lparr>th_strat := w\<rparr>,
      mc_idles := mc_idles mc @ idles\<rparr>)"
    using assms(1,8) by (simp add: strategy_turn_def Let_def)
  then show thesis
    using spec poll fq assms(1,5,6) by (intro that [OF _ refl]) (auto simp: Let_def st_def)
qed

lemma event_turns:
  fixes arrival :: u64 and m :: itch_message
  assumes "between_turns mc" "length (spsc_contents (en_order_q (sy_en (mc_sys mc)))) < spsc_cap (en_order_q (sy_en (mc_sys mc)))"
  defines "st \<equiv> sr_strat (en_strat (sy_en (mc_sys mc)))" and "ev \<equiv> stamp_event arrival m"
  obtains mc' where "engine_run cal [FeedTurn (Some (encode_message m)) arrival clock, StrategyTurn t0 t1] mc = Some mc'"
    "between_turns mc'" "sr_strat (en_strat (sy_en (mc_sys mc'))) = snd (on_md ev st)"
    "spsc_contents (en_order_q (sy_en (mc_sys mc'))) = spsc_contents (en_order_q (sy_en (mc_sys mc))) @ emitted_orders ev st"
    "spsc_cap (en_order_q (sy_en (mc_sys mc'))) = spsc_cap (en_order_q (sy_en (mc_sys mc)))"
proof -
  obtain mc1 q where mc1: "engine_turn cal (FeedTurn (Some (encode_message m)) arrival clock) mc = Some mc1"
    "spsc_inv q" "spsc_contents q = [ev]" "spsc_cap q = spsc_cap (en_feed_q (sy_en (mc_sys mc)))"
    "sy_en (mc_sys mc1) = (sy_en (mc_sys mc))\<lparr>en_feed := en_feed (sy_en (mc_sys mc1)), en_feed_q := q\<rparr>"
    using feed_turn_one [OF assms(1)] unfolding ev_def by metis
  let ?en1 = "(sy_en (mc_sys mc))\<lparr>en_feed := en_feed (sy_en (mc_sys mc1)), en_feed_q := q\<rparr>"
  have "en_running ?en1" "spsc_inv (en_feed_q ?en1)" "spsc_inv (en_order_q ?en1)" "spsc_inv (en_fill_q ?en1)"
    "spsc_contents (en_fill_q ?en1) = []" "spsc_contents (en_feed_q ?en1) = [ev]"
    "length (spsc_contents (en_order_q ?en1)) < spsc_cap (en_order_q ?en1)"
    using assms(1,2) mc1(2,3) by (simp_all add: between_turns_def Let_def)
  from strategy_turn_one [OF this mc1(5), of cal t0 t1] obtain mc2 en2 where
    "engine_turn cal (StrategyTurn t0 t1) mc1 = Some mc2" "sy_en (mc_sys mc2) = en2"
    "sr_strat (en_strat en2) = snd (on_md ev st)" "spsc_contents (en_feed_q en2) = []" "spsc_inv (en_feed_q en2)"
    "spsc_contents (en_order_q en2) = spsc_contents (en_order_q ?en1) @ emitted_orders ev st" "spsc_inv (en_order_q en2)"
    "spsc_contents (en_fill_q en2) = []" "spsc_inv (en_fill_q en2)" "spsc_cap (en_order_q en2) = spsc_cap (en_order_q ?en1)"
    "spsc_cap (en_feed_q en2) = spsc_cap (en_feed_q ?en1)" "en_running en2" "en_kill en2 = en_kill ?en1"
    unfolding st_def by auto
  with mc1(1,4) assms(1) show thesis
    by (intro that [of mc2]) (simp_all add: between_turns_def Let_def del: engine_turn.simps)
qed

text \<open>The bid and the ask of the demonstration, each taken through both stages, leave one order queued.\<close>

definition demo_turns :: "turn list" where
  "demo_turns =
    [FeedTurn (Some (encode_message (ev_msg demo_bid))) 40 (\<lambda>k. 50), StrategyTurn 51 52,
     FeedTurn (Some (encode_message (ev_msg demo_ask))) 41 (\<lambda>k. 60), StrategyTurn 61 62]"

abbreviation demo_machine :: machine where
  "demo_machine \<equiv> machine_start (Some 8) (\<lambda>core. 0) demo_sizes 1 demo_cfg (exchange_init 1 demo_exchange)"

lemma engine_run_append: "engine_run cal (ts @ us) mc = Option.bind (engine_run cal ts mc) (engine_run cal us)"
  by (induction ts arbitrary: mc) (auto split: bind_splits)

lemma demo_run:
  obtains mc where "engine_run demo_calibration demo_turns demo_machine = Some mc" "between_turns mc"
    "length (spsc_contents (en_order_q (sy_en (mc_sys mc)))) = 1"
proof -
  let ?st = "strategy_init 4 demo_params" and ?cal = demo_calibration
  have m0: "between_turns demo_machine" "sr_strat (en_strat (sy_en (mc_sys demo_machine))) = ?st"
    "spsc_contents (en_order_q (sy_en (mc_sys demo_machine))) = []" "spsc_cap (en_order_q (sy_en (mc_sys demo_machine))) = 2"
    by (simp_all add: between_turns_def machine_start_def Let_def system_init_def engine_init_def engine_start_def demo_sizes_def
        capacity_ok_2 strategy_runner_init_def demo_engine_params)
  then obtain mc1 where mc1: "engine_run ?cal (take 2 demo_turns) demo_machine = Some mc1" "between_turns mc1"
    "sr_strat (en_strat (sy_en (mc_sys mc1))) = snd (on_md demo_bid ?st)"
    "spsc_contents (en_order_q (sy_en (mc_sys mc1))) = emitted_orders demo_bid ?st" "spsc_cap (en_order_q (sy_en (mc_sys mc1))) = 2"
    using event_turns [OF m0(1), of ?cal "ev_msg demo_bid" 40 "\<lambda>k. 50" 51 52] by (auto simp: demo_turns_def demo_bid_def)
  obtain ord st where ord: "on_md demo_ask (snd (on_md demo_bid ?st)) = (Some ord, st)"
    using demo_second_tick demo_first_tick by (auto simp: demo_ask_def demo_bid_def)
  moreover have none: "emitted_orders demo_bid ?st = []"
    using demo_first_tick by (simp add: demo_bid_def)
  ultimately obtain mc2 where "engine_run ?cal (drop 2 demo_turns) mc1 = Some mc2" "between_turns mc2"
    "spsc_contents (en_order_q (sy_en (mc_sys mc2))) = [ord]"
    using event_turns [OF mc1(2), of ?cal "ev_msg demo_ask" 41 "\<lambda>k. 60" 61 62] mc1 by (auto simp: demo_turns_def demo_ask_def)
  with mc1(1) show thesis
    using engine_run_append [of ?cal "take 2 demo_turns" "drop 2 demo_turns" demo_machine] by (intro that [of mc2]) auto
qed


subsection \<open>Properties\<close>

text \<open>
  C27. The threads refine the step relation, and no poll of a started engine ever hangs: whatever the scheduler, the
  clocks, the market data and the network do, every schedule of polls, exchange rounds, kill and stop runs to
  its end, and the state it leaves is one the step relation reaches, with no event half done. No thread
  yields its core when the policy is spin, or adaptive with all three threads pinned.
\<close>

theorem engine_schedules_are_runs:
  fixes cfg :: engine_config and cpu_setsize :: "nat option" and set_affinity :: "nat \<Rightarrow> int"
  assumes "sizes_ok sz" "length ts < 2 ^ 64"
  defines "pinned \<equiv> (\<lambda>core. affinity_ok (pin_current_thread cpu_setsize set_affinity core))"
  shows "\<exists>mc. engine_run cal ts (machine_start cpu_setsize set_affinity sz cpn cfg sx) = Some mc
    \<and> sys_runs cal (system_init sz cpn cfg) (mc_sys mc) \<and> sy_ev (mc_sys mc) = None
    \<and> (ec_wait_policy cfg = kSpin \<or> ec_wait_policy cfg = kAdaptive
         \<and> pinned (ec_feed_core cfg) \<and> pinned (ec_strategy_core cfg) \<and> pinned (ec_gateway_core cfg)
       \<longrightarrow> ThreadYield \<notin> set (mc_idles mc))"
proof -
  let ?mc = "machine_start cpu_setsize set_affinity sz cpn cfg sx"
  obtain mc where run: "engine_run cal ts ?mc = Some mc" and mc: "reached cal sz cpn cfg 0 mc"
    using reached_run [of cal sz cpn cfg ts 0 ?mc] reached_start [OF assms(1), of "length ts"] assms(2) by auto
  have "spinning (mc_threads ?mc) \<longleftrightarrow> ec_wait_policy cfg = kSpin \<or> ec_wait_policy cfg = kAdaptive
      \<and> pinned (ec_feed_core cfg) \<and> pinned (ec_strategy_core cfg) \<and> pinned (ec_gateway_core cfg)"
    by (auto simp: spinning_def machine_start_def start_threads_def Let_def run_prologue_spins pinned_def)
  moreover have "mc_idles ?mc = []"
    by (simp add: machine_start_def Let_def)
  ultimately show ?thesis
    using run mc engine_run_spins [OF run] by (auto simp: reached_def)
qed

theorem engine_schedules_are_runs_witness:
  "\<exists>mc. engine_run demo_calibration demo_turns demo_machine = Some mc
    \<and> sys_runs demo_calibration demo_system (mc_sys mc) \<and> ThreadYield \<notin> set (mc_idles mc)"
proof -
  have "length demo_turns < 2 ^ 64" "ec_wait_policy demo_cfg = kSpin"
    by (simp_all add: demo_turns_def demo_cfg_def)
  with engine_schedules_are_runs [OF demo_sizes_ok, of demo_turns demo_calibration "Some 8" "\<lambda>core. 0" 1 demo_cfg
      "exchange_init 1 demo_exchange"]
  show ?thesis by blast
qed

text \<open>
  C28. Without loss the engine settles, whatever its limits and whether or not the kill switch was tripped: after any
  schedule, with the engine running and no market data waiting, one poll of the gateway, the exchange's answer to the
  last order, one poll of the gateway with that answer and one poll of the strategy leave no order at the gateway or on
  the wire, both queues empty, and the risk gate and the strategy with the same position. The strategy then holds its
  latch exactly if the gate has rejected an order, which it has not when the kill switch is open, the rate limit off
  and the order within the size limits.
\<close>

theorem engine_settles_without_loss:
  fixes t0 t1 :: u64 and env1 env2 :: poll_env
  assumes "sizes_ok sz" "length ts + 4 < 2 ^ 64"
    and "engine_run cal ts (machine_start cpu_setsize set_affinity sz cpn cfg sx) = Some mc"
    and "en_running (sy_en (mc_sys mc))" "spsc_contents (en_feed_q (sy_en (mc_sys mc))) = []"
  shows "\<exists>mc'. lossless_round cal env1 env2 t0 t1 mc = Some mc' \<and>
    (let en = sy_en (mc_sys mc'); st = sr_strat (en_strat en) in
      position (gw_risk (en_gw en)) = st_position st \<and> {x. outstanding (en_gw en) x} = {}
      \<and> spsc_contents (en_order_q en) = [] \<and> spsc_contents (en_fill_q en) = []
      \<and> (st_in_flight st \<longleftrightarrow> gw_risk_rejected (en_gw en) \<noteq> 0)
      \<and> (limits_admit cfg \<and> \<not> en_kill (sy_en (mc_sys mc)) \<longrightarrow> \<not> st_in_flight st))"
proof -
  have "reached cal sz cpn cfg 4 mc"
    using reached_run [OF reached_start [OF assms(1,2)]] assms(3) by (metis option.inject)
  then obtain mc' ph where "lossless_round cal env1 env2 t0 t1 mc = Some mc'" "in_phase (ec_order_size cfg) ph (mc_sys mc')"
    "ph = Idle \<or> (\<exists>ord. ph = Rejected ord)" "limits_admit cfg \<and> \<not> en_kill (sy_en (mc_sys mc)) \<longrightarrow> ph = Idle"
    using assms(4,5) by (rule lossless_round_settles) blast
  then show ?thesis
    by (intro exI [of _ mc']) (auto simp: in_phase_simps dest: position_ok_latch)
qed

theorem engine_settles_without_loss_witness:
  "\<exists>mc mc'. engine_run demo_calibration demo_turns demo_machine = Some mc
    \<and> length (spsc_contents (en_order_q (sy_en (mc_sys mc)))) = 1
    \<and> lossless_round demo_calibration demo_env demo_env 70 71 mc = Some mc'
    \<and> \<not> st_in_flight (sr_strat (en_strat (sy_en (mc_sys mc'))))"
proof -
  obtain mc where mc: "engine_run demo_calibration demo_turns demo_machine = Some mc" "between_turns mc"
    "length (spsc_contents (en_order_q (sy_en (mc_sys mc)))) = 1"
    by (rule demo_run)
  have "limits_admit demo_cfg" "length demo_turns + 4 < 2 ^ 64"
    by (simp_all add: limits_admit_def demo_cfg_def demo_limits_def demo_turns_def)
  with engine_settles_without_loss [OF demo_sizes_ok this(2) mc(1), of demo_env demo_env 70 71] mc show ?thesis
    by (auto simp: between_turns_def Let_def)
qed

end
