(* ===== verification/Ledger.thy ===== *)
theory Ledger
  imports EngineRun
begin

text \<open>
  The gateway's books: what its counters and the risk position say about the datagrams that were really sent and
  answered. The invariant runs beside \<^const>\<open>in_phase\<close>; the programs print these counters when they end.
\<close>

definition open_orders :: "system \<Rightarrow> nat" where
  "open_orders s = card {x. outstanding (en_gw (sy_en s)) x}"

text \<open>The orders that were filled are all that were sent but the open one.\<close>

definition filled_orders :: "system \<Rightarrow> order_request list" where
  "filled_orders s = map parse_order (take (length (sy_orders s) - open_orders s) (sy_orders s))"

definition books_balance :: "system \<Rightarrow> bool" where
  "books_balance s \<longleftrightarrow>
     (let gw = en_gw (sy_en s) in
      open_orders s \<le> length (sy_orders s) \<and> gw_sent gw = of_nat (length (sy_orders s)) \<and>
      gw_fills_matched gw = of_nat (length (filled_orders s)) \<and>
      position (gw_risk gw) = net_fill (map fill_of (filled_orders s)))"

lemma no_open_orders: "{x. outstanding (en_gw (sy_en s)) x} = {} \<Longrightarrow> open_orders s = 0"
  by (simp add: open_orders_def)

lemma system_init_balance: "sizes_ok sz \<Longrightarrow> books_balance (system_init sz cpn cfg)"
  using not_outstanding_init [of "es_in_flight sz" cpn "ec_risk cfg"]
  by (simp add: books_balance_def Let_def filled_orders_def open_orders_def sizes_ok_def system_init_def engine_init_def)
    (simp add: gateway_init_def risk_gate_init_def Let_def)

lemma receive_balance:
  assumes "books_balance s" "in_phase z ph s" "length (sy_orders s) < 2 ^ 64" "bs \<in> set (sy_fills s)"
    and "handle_fill cal now (parse_exec (take kExecSize bs)) (en_gw (sy_en s), en_fill_q (sy_en s)) = Some (gw, q)"
  shows "books_balance (s\<lparr>sy_en := (sy_en s)\<lparr>en_gw := gw, en_fill_q := q\<rparr>\<rparr>)"
proof -
  let ?rep = "parse_exec (take kExecSize bs)" and ?gw = "en_gw (sy_en s)"
  let ?s' = "s\<lparr>sy_en := (sy_en s)\<lparr>en_gw := gw, en_fill_q := q\<rparr>\<rparr>"
  have inv: "spsc_inv (en_fill_q (sy_en s))" and tab: "table_ok ?gw"
    using assms(2) by (simp_all add: in_phase_simps queues_ok_def)
  from inv show ?thesis
  proof (cases rule: handle_fill_cases [of _ ?gw ?rep cal now])
    case (matched q')
    obtain ord where ord: "?rep = fill_of ord" "parse_order (last (sy_orders s)) = ord"
      "\<And>x. outstanding ?gw x \<Longrightarrow> x = o_order_id ord"
      using matched_is_last [OF assms(2-4) matched(1)] by blast
    have gw: "gw = match_fill cal now ?rep ?gw"
      using matched assms(5) by simp
    have "{x. outstanding ?gw x} = {o_order_id ord}"
      using ord(3) [OF matched(1)] matched(1) by (auto dest: ord(3))
    then have one: "open_orders s = 1"
      by (simp add: open_orders_def)
    have "\<not> outstanding gw x" for x
      using match_fill_outstanding(2) [OF tab, of cal now ?rep x] ord(3) [of x] ord(3) [OF matched(1)]
      unfolding gw by auto
    then have none: "open_orders ?s' = 0"
      by (intro no_open_orders) simp
    obtain sent b where os: "sy_orders s = sent @ [b]"
      using assms(1) one by (cases "sy_orders s" rule: rev_cases) (auto simp: books_balance_def Let_def)
    have "position (gw_risk gw) = position (gw_risk ?gw) + fill_delta ?rep"
      by (simp add: gw match_fill_def risk_position.take_fill_pos)
    then show ?thesis
      using assms(1) one none os ord by (simp add: books_balance_def Let_def filled_orders_def net_fill_def)
        (simp add: gw match_fill_def)
  next
    case unmatched
    then have gw: "gw = ?gw\<lparr>gw_fills_unmatched := gw_fills_unmatched ?gw + 1\<rparr>"
      using assms(5) by simp
    have "open_orders ?s' = open_orders s"
      by (simp add: open_orders_def gw outstanding_def in_flight_idx_def)
    then show ?thesis
      using assms(1) by (simp add: books_balance_def Let_def filled_orders_def) (simp add: gw)
  next
    case blocked
    then show ?thesis
      using assms(5) by simp
  qed
qed

lemma order_balance:
  assumes "books_balance s" "in_phase z ph s"
    and "gateway_send cal env (en_gw (sy_en s), en_order_q (sy_en s)) = (worked, (gw, q), out)"
  shows "books_balance (s\<lparr>sy_en := (sy_en s)\<lparr>en_gw := gw, en_order_q := q\<rparr>,
           sy_orders := sy_orders s @ (case out of None \<Rightarrow> [] | Some bs \<Rightarrow> [bs])\<rparr>)"
    (is "books_balance ?s'")
proof -
  let ?gw = "en_gw (sy_en s)"
  have inv: "spsc_inv (en_order_q (sy_en s))" and tab: "table_ok ?gw"
    and out: "{x. outstanding ?gw x} = o_order_id ` set (on_wire ph)"
    and con: "spsc_contents (en_order_q (sy_en s)) = queued_orders ph"
    using assms(2) by (simp_all add: in_phase_simps queues_ok_def)
  have send: "send_outcome env (queued_orders ph) ?gw worked out gw"
    using gateway_send_spec(4) [OF assms(3) inv tab] con by simp
  show ?thesis
  proof (cases "\<exists>ord. ph = Queued ord")
    case False
    then have "queued_orders ph = []"
      by (cases ph) auto
    then have "out = None" "gw = ?gw"
      using send by (simp_all add: send_outcome_def)
    then show ?thesis
      using assms(1) by (simp add: books_balance_def Let_def filled_orders_def open_orders_def)
  next
    case True
    then obtain ord where ph: "ph = Queued ord"
      by blast
    then have none: "\<not> outstanding ?gw x" for x
      using out by auto
    then have zero: "open_orders s = 0"
      by (intro no_open_orders) simp
    show ?thesis
    proof (cases "fst (checked env ord ?gw) = kAccept")
      case True
      then have sent: "out = Some (encode_order ord)" "gw_progress ?gw [ord] [] gw" "outstanding gw (o_order_id ord)"
        using send ph by (simp_all add: send_outcome_def)
      have "outstanding gw x \<longleftrightarrow> x = o_order_id ord" for x
        using outstanding_from_progress [OF sent(2), of x] none [of x] sent(3) by auto
      then have "open_orders ?s' = 1"
        by (simp add: open_orders_def)
      then show ?thesis
        using assms(1) zero sent(1,2) by (simp add: books_balance_def Let_def filled_orders_def gw_progress_def)
    next
      case False
      then have rejected: "out = None" "gw_progress ?gw [] [] gw"
        using send ph by (simp_all add: send_outcome_def)
      have "\<not> outstanding gw x" for x
        using outstanding_from_progress [OF rejected(2), of x] none [of x] by auto
      then have "open_orders ?s' = 0"
        by (intro no_open_orders) simp
      then show ?thesis
        using assms(1) zero rejected by (simp add: books_balance_def Let_def filled_orders_def gw_progress_def)
    qed
  qed
qed

lemma step_balance:
  assumes "sys_step cal s s'" "books_balance s" "in_phase z ph s" "length (sy_orders s) < 2 ^ 64"
  shows "books_balance s'"
  using assms(1)
proof (cases rule: sys_step.cases)
  case (gateway_receive bs now gw q)
  then show ?thesis
    using receive_balance [OF assms(2-4)] by blast
next
  case (gateway_order env worked gw q out)
  then show ?thesis
    using order_balance [OF assms(2,3)] by blast
qed (use assms(2) in \<open>simp_all add: books_balance_def Let_def filled_orders_def open_orders_def engine_start_def engine_stop_def
  trip_kill_switch_def\<close>)

lemma runs_balance:
  assumes "sys_runs cal s s'" "books_balance s" "in_phase z ph s" "length (sy_orders s') < 2 ^ 64"
  shows "books_balance s'"
  by (rule sys_runs_invariant [where I = books_balance, OF assms]) (rule step_balance)

text \<open>At most one order is open, so the counters of sent and filled orders differ by at most one.\<close>

lemma balanced_counts:
  assumes "books_balance s" "in_phase z ph s"
  defines "gw \<equiv> en_gw (sy_en s)" and "n \<equiv> length (sy_orders s)"
  obtains m where "m \<le> n" "n \<le> m + 1" "gw_sent gw = of_nat n" "gw_fills_matched gw = of_nat m"
    "position (gw_risk gw) = net_fill (map (fill_of \<circ> parse_order) (take m (sy_orders s)))"
proof -
  have "{x. outstanding gw x} = o_order_id ` set (on_wire ph)"
    using assms(2) by (simp add: in_phase_simps gw_def)
  then have "open_orders s \<le> 1"
    by (cases ph) (simp_all add: open_orders_def gw_def)
  then show thesis
    using assms(1) by (intro that [of "n - open_orders s"])
      (simp_all add: books_balance_def filled_orders_def Let_def gw_def n_def)
qed

text \<open>
  The accounts of a state: \<open>n\<close> orders sent, \<open>m\<close> filled and \<open>r\<close> rejected, as the counters say and as the wire, the table of
  outstanding orders, the risk position and the strategy's numbering say. Every number the strategy has given out
  belongs to an order that was sent, was rejected or still waits in the queue.
\<close>

definition accounts :: "system \<Rightarrow> nat \<Rightarrow> nat \<Rightarrow> nat \<Rightarrow> bool" where
  "accounts s n m r \<longleftrightarrow>
     (let en = sy_en s; gw = en_gw en in
      unat (gw_sent gw) = n \<and> unat (gw_fills_matched gw) = m \<and> unat (gw_risk_rejected gw) = r \<and>
      n = length (sy_orders s) \<and> n = m + card {x. outstanding gw x} \<and> n \<le> m + 1 \<and> r \<le> 1 \<and>
      position (gw_risk gw) = net_fill (map (fill_of \<circ> parse_order) (take m (sy_orders s))) \<and>
      st_last_order_id (sr_strat (en_strat en)) = of_nat (n + r + length (spsc_contents (en_order_q en))))"

lemma phase_counts: "unsent ph = unat (rejections ph) + length (queued_orders ph)" "unat (rejections ph) \<le> 1"
  "card (o_order_id ` set (on_wire ph)) \<le> 1"
  by (cases ph; simp)+

lemma balanced_accounts:
  assumes "books_balance s" "in_phase z ph s" "length (sy_orders s) < 2 ^ 64"
  shows "accounts s (length (sy_orders s)) (length (sy_orders s) - open_orders s) (unat (rejections ph))"
proof -
  let ?n = "length (sy_orders s)" and ?gw = "en_gw (sy_en s)"
  have filled: "length (filled_orders s) = ?n - open_orders s"
    by (simp add: filled_orders_def)
  have books: "open_orders s \<le> ?n" "unat (gw_sent ?gw) = ?n" "unat (gw_fills_matched ?gw) = ?n - open_orders s"
    "position (gw_risk ?gw) = net_fill (map (fill_of \<circ> parse_order) (take (?n - open_orders s) (sy_orders s)))"
    using assms(1) unat_of_nat_u64 [OF assms(3)] unat_of_nat_u64 [of "length (filled_orders s)"] filled assms(3)
    unfolding books_balance_def Let_def by (simp_all only: filled_orders_def map_map)
  have "gw_risk_rejected ?gw = rejections ph"
    "st_last_order_id (sr_strat (en_strat (sy_en s))) = of_nat (?n + unat (rejections ph) + length (spsc_contents (en_order_q (sy_en s))))"
    using assms(2) phase_counts(1) [of ph] unfolding in_phase_simps by (simp_all only: add.assoc)
  moreover have "open_orders s \<le> 1"
    using assms(2) phase_counts(3) [of ph] unfolding in_phase_simps open_orders_def by (simp only:)
  ultimately show ?thesis
    using books phase_counts(2) [of ph] by (simp add: accounts_def Let_def flip: open_orders_def)
qed

lemma accountsD:
  assumes "accounts s n m r"
  shows "unat (gw_sent (en_gw (sy_en s))) = n" "unat (gw_fills_matched (en_gw (sy_en s))) = m"
    "unat (gw_risk_rejected (en_gw (sy_en s))) = r" "n = length (sy_orders s)"
    "n = m + card {x. outstanding (en_gw (sy_en s)) x}" "n \<le> m + 1" "r \<le> 1"
    "position (gw_risk (en_gw (sy_en s))) = net_fill (map (fill_of \<circ> parse_order) (take m (sy_orders s)))"
  using assms unfolding accounts_def Let_def by blast+

lemma reachable_accounts:
  assumes "sys_runs cal (system_init sz cpn cfg) s" "sizes_ok sz" "length (sy_orders s) < 2 ^ 64"
  obtains n m r where "accounts s n m r"
proof -
  obtain ph where ph: "in_phase (ec_order_size cfg) ph s"
    using reachable_phase [OF assms(1-3)] .
  have "books_balance s"
    using runs_balance [OF assms(1) system_init_balance [OF assms(2)] system_init_phase [OF assms(2)] assms(3)] .
  then show thesis
    using balanced_accounts [OF _ ph assms(3)] that by blast
qed

lemma reachable_books:
  assumes "sys_runs cal (system_init sz cpn cfg) s" "sizes_ok sz" "length (sy_orders s) < 2 ^ 64"
  defines "gw \<equiv> en_gw (sy_en s)" and "n \<equiv> length (sy_orders s)"
  shows "\<exists>m. m \<le> n \<and> n \<le> m + 1 \<and> unat (gw_sent gw) = n \<and> unat (gw_fills_matched gw) = m
    \<and> position (gw_risk gw) = net_fill (map (fill_of \<circ> parse_order) (take m (sy_orders s)))
    \<and> unat (gw_risk_rejected gw) \<le> 1"
proof -
  obtain k m r where "accounts s k m r"
    using reachable_accounts [OF assms(1-3)] .
  note a = accountsD [OF this, folded gw_def n_def]
  have "m \<le> n"
    using a(4,5) by linarith
  then show ?thesis
    using a(1-4,6-8) by blast
qed


subsection \<open>Property\<close>

text \<open>
  C37. The gateway's books are true in every reachable state of the whole engine: the counter of sent orders is
  the number of order datagrams on the wire; the counter of matched fills is the number of orders filled, all
  that were sent but at most the last; the risk position is the signed sum of the sizes of exactly those orders;
  and at most one order was ever rejected.
\<close>

theorem engine_books_balance:
  assumes "sys_runs cal (system_init sz cpn cfg) s" "sizes_ok sz" "length (sy_orders s) < 2 ^ 64"
  defines "gw \<equiv> en_gw (sy_en s)" and "n \<equiv> length (sy_orders s)"
  shows "\<exists>m. m \<le> n \<and> n \<le> m + 1 \<and> unat (gw_sent gw) = n \<and> unat (gw_fills_matched gw) = m
    \<and> position (gw_risk gw) = net_fill (map (fill_of \<circ> parse_order) (take m (sy_orders s)))
    \<and> unat (gw_risk_rejected gw) \<le> 1"
  unfolding gw_def n_def by (rule reachable_books [OF assms(1-3)])

theorem engine_books_balance_witness:
  "\<exists>s. sys_runs demo_calibration demo_system s \<and> gw_sent (en_gw (sy_en s)) = 1
    \<and> unat (gw_fills_matched (en_gw (sy_en s))) \<le> 1"
proof -
  obtain s where s: "sys_runs demo_calibration demo_system s" "length (sy_orders s) = 1"
    using demo_answer [of demo_calibration False] by auto
  moreover from this have "length (sy_orders s) < 2 ^ 64"
    by simp
  from engine_books_balance [OF s(1) demo_sizes_ok this] s(2) have
    "unat (gw_sent (en_gw (sy_en s))) = 1" "unat (gw_fills_matched (en_gw (sy_en s))) \<le> 1"
    by auto
  ultimately show ?thesis
    by (intro exI [of _ s]) (simp add: word_unat_eq_iff)
qed

end
