(* ===== verification/JsonConfig.thy ===== *)
theory JsonConfig
  imports EngineModel "HOL-Library.Char_ord"
begin

text \<open>
  \<open>include/hft/config.hpp\<close>: the JSON configuration, its recursive-descent parser and the dotted lookup;
  and the part of \<open>apps/hft_main.cpp\<close> that turns a file and the command line into an \<^typ>\<open>engine_config\<close>.

  The parser's state is the index into the text. A parse error carries the offset and the message of
  the exception; \<open>NumberError\<close> is the exception \<open>std::stod\<close> throws. The mutually recursive functions
  take a fuel argument, one unit per call; \<^const>\<open>None\<close> means that it ran out, which \<open>parse_document\<close>
  is shown never to do: \<open>2 * length s + 2\<close> is enough, because every two nested calls consume a character.

  A \<open>std::map\<close> is an association list without duplicate keys; \<open>emplace\<close> keeps the first value of a key.
  \<open>std::stod\<close> on the characters the parser collects is decimal \<open>strtod\<close>: the longest prefix that is a
  number, correctly rounded, an exception when there is none or when it overflows. What it does on
  underflow is left open by the C standard and is a parameter.
\<close>

datatype json =
    JNull
  | JBool bool
  | JNumber rat
  | JString string
  | JArray "json list"
  | JObject "(string \<times> json) list"

definition is_object :: "json \<Rightarrow> bool" where
  "is_object v = (case v of JObject kvs \<Rightarrow> True | _ \<Rightarrow> False)"

definition emplace :: "string \<Rightarrow> json \<Rightarrow> (string \<times> json) list \<Rightarrow> (string \<times> json) list" where
  "emplace k v obj = (if map_of obj k = None then obj @ [(k, v)] else obj)"

datatype config_error = ParseError nat string | NumberError | CannotOpen string | BadAddress string

type_synonym 'a parsed = "(config_error + 'a) option"

definition parse_fail :: "nat \<Rightarrow> string \<Rightarrow> 'a parsed" where
  "parse_fail i msg = Some (Inl (ParseError i msg))"

definition and_then :: "'a parsed \<Rightarrow> ('a \<Rightarrow> 'b parsed) \<Rightarrow> 'b parsed" where
  "and_then p f = (case p of None \<Rightarrow> None | Some (Inl e) \<Rightarrow> Some (Inl e) | Some (Inr x) \<Rightarrow> f x)"

lemma and_then_simps [simp]:
  "and_then None f = None" "and_then (Some (Inl e)) f = Some (Inl e)" "and_then (Some (Inr x)) f = f x"
  by (simp_all add: and_then_def)


subsection \<open>Characters\<close>

definition nul :: char where
  "nul = CHR 0x00"

definition peek :: "string \<Rightarrow> nat \<Rightarrow> char" where
  "peek s i = (if i < length s then s ! i else nul)"

text \<open>\<open>get\<close> returns the character and the next index.\<close>

definition get :: "string \<Rightarrow> nat \<Rightarrow> char \<times> nat" where
  "get s i = (if i < length s then (s ! i, i + 1) else (nul, i))"

definition is_ws :: "char \<Rightarrow> bool" where
  "is_ws c \<longleftrightarrow> c = CHR '' '' \<or> c = CHR 0x09 \<or> c = CHR 0x0A \<or> c = CHR 0x0D"

function skip_ws :: "string \<Rightarrow> nat \<Rightarrow> nat" where
  "skip_ws s i = (if i < length s \<and> is_ws (s ! i) then skip_ws s (i + 1) else i)"
  by pat_completeness auto
termination
  by (relation "measure (\<lambda>(s, i). length s - i)") auto

declare skip_ws.simps [simp del]


subsection \<open>Strings and literals\<close>

definition unescape :: "char \<Rightarrow> char" where
  "unescape e =
     (if e = CHR ''n'' then CHR 0x0A else if e = CHR ''t'' then CHR 0x09 else if e = CHR ''r'' then CHR 0x0D
      else if e = CHR ''b'' then CHR 0x08 else if e = CHR ''f'' then CHR 0x0C else e)"

function string_loop :: "string \<Rightarrow> nat \<Rightarrow> string \<Rightarrow> (string \<times> nat) parsed" where
  "string_loop s i out =
     (let (c, i1) = get s i in
      if c = nul then parse_fail i1 ''unterminated string''
      else if c = CHR 0x22 then Some (Inr (out, i1))
      else if c = CHR 0x5C then (let (e, i2) = get s i1 in string_loop s i2 (out @ [unescape e]))
      else string_loop s i1 (out @ [c]))"
  by pat_completeness auto
termination
  by (relation "measure (\<lambda>(s, i, out). length s - i)") (auto simp: get_def nul_def split: if_splits)

declare string_loop.simps [simp del]

definition parse_string :: "string \<Rightarrow> nat \<Rightarrow> (string \<times> nat) parsed" where
  "parse_string s i =
     (let (c, i1) = get s i in
      if c \<noteq> CHR 0x22 then parse_fail i1 (''expected '' @ [CHR 0x27, CHR 0x22, CHR 0x27]) else string_loop s i1 [])"

definition parse_bool :: "string \<Rightarrow> nat \<Rightarrow> (json \<times> nat) parsed" where
  "parse_bool s i =
     (if take 4 (drop i s) = ''true'' then Some (Inr (JBool True, i + 4))
      else if take 5 (drop i s) = ''false'' then Some (Inr (JBool False, i + 5))
      else parse_fail i ''invalid literal'')"

definition parse_null :: "string \<Rightarrow> nat \<Rightarrow> (json \<times> nat) parsed" where
  "parse_null s i =
     (if take 4 (drop i s) = ''null'' then Some (Inr (JNull, i + 4)) else parse_fail i ''invalid literal'')"


subsection \<open>Numbers\<close>

definition is_digit :: "char \<Rightarrow> bool" where
  "is_digit c \<longleftrightarrow> CHR ''0'' \<le> c \<and> c \<le> CHR ''9''"

definition digit_value :: "char \<Rightarrow> nat" where
  "digit_value c = of_char c - 48"

definition digits_value :: "string \<Rightarrow> nat" where
  "digits_value ds = foldl (\<lambda>n c. 10 * n + digit_value c) 0 ds"

definition opt_sign :: "string \<Rightarrow> bool \<times> string" where
  "opt_sign cs =
     (case cs of
        c # cs' \<Rightarrow> if c = CHR ''-'' then (True, cs') else if c = CHR ''+'' then (False, cs') else (False, cs)
      | [] \<Rightarrow> (False, []))"

definition opt_fraction :: "string \<Rightarrow> string \<times> string" where
  "opt_fraction cs =
     (case cs of
        c # cs' \<Rightarrow> if c = CHR ''.'' then (takeWhile is_digit cs', dropWhile is_digit cs') else ([], cs)
      | [] \<Rightarrow> ([], []))"

text \<open>The exponent part counts only when it has a digit.\<close>

definition opt_exponent :: "string \<Rightarrow> int" where
  "opt_exponent cs =
     (case cs of
        c # cs' \<Rightarrow>
          if c = CHR ''e'' \<or> c = CHR ''E'' then
            (let (neg, cs'') = opt_sign cs'; ds = takeWhile is_digit cs''
             in if neg then - int (digits_value ds) else int (digits_value ds))
          else 0
      | [] \<Rightarrow> 0)"

definition decimal_prefix :: "string \<Rightarrow> rat option" where
  "decimal_prefix cs =
     (let (neg, cs) = opt_sign cs; ds = takeWhile is_digit cs;
          (fs, cs) = opt_fraction (dropWhile is_digit cs)
      in if ds @ fs = [] then None
         else
           let x = of_nat (digits_value (ds @ fs)) * 10 powi (opt_exponent cs - int (length fs))
           in Some (if neg then - x else x))"

definition stod :: "(rat \<Rightarrow> rat option) \<Rightarrow> string \<Rightarrow> rat option" where
  "stod underflow cs =
     (case decimal_prefix cs of
        None \<Rightarrow> None
      | Some x \<Rightarrow>
          if x \<noteq> 0 \<and> \<bar>x\<bar> < 2 powi (- 1022) then underflow x
          else if 2 ^ 1024 \<le> \<bar>b64_round x\<bar> then None
          else Some (b64_round x))"

definition number_char :: "char \<Rightarrow> bool" where
  "number_char c \<longleftrightarrow> is_digit c \<or> c = CHR ''.'' \<or> c = CHR ''e'' \<or> c = CHR ''E'' \<or> c = CHR ''+'' \<or> c = CHR ''-''"

function number_loop :: "string \<Rightarrow> nat \<Rightarrow> nat" where
  "number_loop s i = (if i < length s \<and> number_char (s ! i) then number_loop s (i + 1) else i)"
  by pat_completeness auto
termination
  by (relation "measure (\<lambda>(s, i). length s - i)") auto

declare number_loop.simps [simp del]

definition parse_number :: "(rat \<Rightarrow> rat option) \<Rightarrow> string \<Rightarrow> nat \<Rightarrow> (json \<times> nat) parsed" where
  "parse_number underflow s start =
     (let i = (if peek s start = CHR ''-'' \<or> peek s start = CHR ''+'' then snd (get s start) else start);
          i' = number_loop s i
      in if i' = i then parse_fail i' ''invalid number''
         else (case stod underflow (take (i' - start) (drop start s)) of
                 None \<Rightarrow> Some (Inl NumberError)
               | Some x \<Rightarrow> Some (Inr (JNumber x, i'))))"


subsection \<open>Values\<close>

fun parse_value :: "(rat \<Rightarrow> rat option) \<Rightarrow> nat \<Rightarrow> string \<Rightarrow> nat \<Rightarrow> (json \<times> nat) parsed"
  and parse_members :: "(rat \<Rightarrow> rat option) \<Rightarrow> nat \<Rightarrow> string \<Rightarrow> nat \<Rightarrow> (string \<times> json) list \<Rightarrow> (json \<times> nat) parsed"
  and parse_elements :: "(rat \<Rightarrow> rat option) \<Rightarrow> nat \<Rightarrow> string \<Rightarrow> nat \<Rightarrow> json list \<Rightarrow> (json \<times> nat) parsed" where
  "parse_value uf 0 s i = None"
| "parse_value uf (Suc n) s i =
     (let i = skip_ws s i; c = peek s i in
      if c = CHR ''{'' then
        (let i = skip_ws s (snd (get s i)) in
         if peek s i = CHR ''}'' then Some (Inr (JObject [], snd (get s i))) else parse_members uf n s i [])
      else if c = CHR ''['' then
        (let i = skip_ws s (snd (get s i)) in
         if peek s i = CHR '']'' then Some (Inr (JArray [], snd (get s i))) else parse_elements uf n s i [])
      else if c = CHR 0x22 then and_then (parse_string s i) (\<lambda>(str, i). Some (Inr (JString str, i)))
      else if c = CHR ''t'' \<or> c = CHR ''f'' then parse_bool s i
      else if c = CHR ''n'' then parse_null s i
      else parse_number uf s i)"
| "parse_members uf 0 s i obj = None"
| "parse_members uf (Suc n) s i obj =
     (let i = skip_ws s i in
      if peek s i \<noteq> CHR 0x22 then parse_fail i ''expected string key in object''
      else and_then (parse_string s i) (\<lambda>(key, i).
        let (c, i) = get s (skip_ws s i) in
        if c \<noteq> CHR '':'' then parse_fail i (''expected '' @ [CHR 0x27] @ '':'' @ [CHR 0x27] @ '' after key'')
        else and_then (parse_value uf n s i) (\<lambda>(v, i).
          let obj = emplace key v obj; (c, i) = get s (skip_ws s i) in
          if c = CHR '','' then parse_members uf n s i obj
          else if c = CHR ''}'' then Some (Inr (JObject obj, i))
          else parse_fail i (''expected '' @ [CHR 0x27] @ '','' @ [CHR 0x27] @ '' or '' @ [CHR 0x27] @ ''}'' @ [CHR 0x27]
            @ '' in object''))))"
| "parse_elements uf 0 s i arr = None"
| "parse_elements uf (Suc n) s i arr =
     and_then (parse_value uf n s i) (\<lambda>(v, i).
       let arr = arr @ [v]; (c, i) = get s (skip_ws s i) in
       if c = CHR '','' then parse_elements uf n s i arr
       else if c = CHR '']'' then Some (Inr (JArray arr, i))
       else parse_fail i (''expected '' @ [CHR 0x27] @ '','' @ [CHR 0x27] @ '' or '' @ [CHR 0x27] @ '']'' @ [CHR 0x27]
         @ '' in array''))"

definition parse_document :: "(rat \<Rightarrow> rat option) \<Rightarrow> string \<Rightarrow> json parsed" where
  "parse_document uf s =
     and_then (parse_value uf (2 * length s + 2) s (skip_ws s 0)) (\<lambda>(v, i).
       let i = skip_ws s i in
       if i \<noteq> length s then parse_fail i ''trailing characters after JSON document'' else Some (Inr v))"


subsection \<open>Lookup\<close>

text \<open>\<open>std::string::find\<close> of a character, from an index on.\<close>

definition find_char :: "char \<Rightarrow> string \<Rightarrow> nat \<Rightarrow> nat option" where
  "find_char c s start =
     (let k = length (takeWhile (\<lambda>d. d \<noteq> c) (drop start s))
      in if start + k < length s then Some (start + k) else None)"

function find_from :: "json \<Rightarrow> string \<Rightarrow> nat \<Rightarrow> json option" where
  "find_from cur dotted start =
     (if start \<le> length dotted then
        (let dot = find_char (CHR ''.'') dotted start;
             key = (case dot of None \<Rightarrow> drop start dotted | Some d \<Rightarrow> take (d - start) (drop start dotted))
         in case cur of
              JObject obj \<Rightarrow>
                (case map_of obj key of
                   None \<Rightarrow> None
                 | Some v \<Rightarrow> (case dot of None \<Rightarrow> Some v | Some d \<Rightarrow> find_from v dotted (d + 1)))
            | _ \<Rightarrow> None)
      else Some cur)"
  by pat_completeness auto
termination
  by (relation "measure (\<lambda>(cur, dotted, start). length dotted + 1 - start)")
    (auto simp: find_char_def Let_def split: if_splits)

declare find_from.simps [simp del]

definition json_find :: "json \<Rightarrow> string \<Rightarrow> json option" where
  "json_find v dotted = find_from v dotted 0"

definition get_int :: "json \<Rightarrow> string \<Rightarrow> i64 \<Rightarrow> i64" where
  "get_int doc path def =
     (case json_find doc path of Some (JNumber x) \<Rightarrow> word_of_int (trunc_rat x) | _ \<Rightarrow> def)"

definition get_double :: "json \<Rightarrow> string \<Rightarrow> rat \<Rightarrow> rat" where
  "get_double doc path def = (case json_find doc path of Some (JNumber x) \<Rightarrow> x | _ \<Rightarrow> def)"

definition get_bool :: "json \<Rightarrow> string \<Rightarrow> bool \<Rightarrow> bool" where
  "get_bool doc path def = (case json_find doc path of Some (JBool b) \<Rightarrow> b | _ \<Rightarrow> def)"

definition get_string :: "json \<Rightarrow> string \<Rightarrow> string \<Rightarrow> string" where
  "get_string doc path def = (case json_find doc path of Some (JString t) \<Rightarrow> t | _ \<Rightarrow> def)"

text \<open>\<open>Config::load_file\<close>: \<open>read_file\<close> is the file system, \<^const>\<open>None\<close> a file that cannot be opened.\<close>

definition load_file :: "(rat \<Rightarrow> rat option) \<Rightarrow> (string \<Rightarrow> string option) \<Rightarrow> string \<Rightarrow> json parsed" where
  "load_file uf read_file path =
     (case read_file path of None \<Rightarrow> Some (Inl (CannotOpen path)) | Some s \<Rightarrow> parse_document uf s)"


subsection \<open>The command line and the engine's configuration\<close>

fun arg_loop :: "string list \<Rightarrow> string \<Rightarrow> string option \<Rightarrow> string option" where
  "arg_loop (a # b # argv) key def = (if a = key then Some b else arg_loop (b # argv) key def)"
| "arg_loop argv key def = def"

definition arg_str :: "string list \<Rightarrow> string \<Rightarrow> string option \<Rightarrow> string option" where
  "arg_str argv key def = arg_loop (tl argv) key def"

text \<open>\<open>std::strtol\<close> in base 10: white space, a sign, digits; the result is clamped to the type.\<close>

definition strtol10 :: "string \<Rightarrow> i64" where
  "strtol10 s =
     (let s = dropWhile (\<lambda>c. is_ws c \<or> c = CHR 0x0B \<or> c = CHR 0x0C) s;
          (neg, s) = opt_sign s; n = int (digits_value (takeWhile is_digit s)); v = (if neg then - n else n)
      in word_of_int (if v < - (2 ^ 63) then - (2 ^ 63) else if 2 ^ 63 \<le> v then 2 ^ 63 - 1 else v))"

definition arg_long :: "string list \<Rightarrow> string \<Rightarrow> i64 \<Rightarrow> i64" where
  "arg_long argv key def = (case arg_str argv key None of None \<Rightarrow> def | Some s \<Rightarrow> strtol10 s)"

text \<open>The fields a configuration file sets. The address is a C string, so it ends at the first NUL.\<close>

definition apply_config :: "(string \<Rightarrow> u32 option) \<Rightarrow> json \<Rightarrow> engine_config \<Rightarrow> config_error + engine_config" where
  "apply_config pton c cfg =
     (let host = get_string c ''network.order_addr'' ''127.0.0.1'';
          port = ucast (get_int c ''network.order_port'' 31338) :: u16
      in case endpoint_v4 pton (takeWhile (\<lambda>d. d \<noteq> nul) host) port of
           None \<Rightarrow> Inl (BadAddress host)
         | Some dst \<Rightarrow>
             Inr (cfg\<lparr>ec_feed_core := ucast (get_int c ''cores.feed_handler'' (- 1)),
                      ec_strategy_core := ucast (get_int c ''cores.strategy'' (- 1)),
                      ec_gateway_core := ucast (get_int c ''cores.order_gateway'' (- 1)),
                      ec_feed_port := ucast (get_int c ''network.feed_port'' 31337),
                      ec_order_dst := dst,
                      ec_fill_port := ucast (get_int c ''network.fill_port'' 31339),
                      ec_threshold := get_double c ''strategy.imbalance_threshold'' (b64_round (3 / 10)),
                      ec_order_size := ucast (get_int c ''strategy.order_size'' 100),
                      ec_risk := (ec_risk cfg)
                        \<lparr>lim_max_position := get_int c ''risk.max_position'' 1000,
                         lim_max_order_size := ucast (get_int c ''risk.max_order_size'' 500),
                         lim_max_orders_per_sec := get_double c ''risk.rate_limit_per_sec'' 0,
                         lim_burst := ucast (get_int c ''risk.burst'' 100)\<rparr>\<rparr>))"

text \<open>\<open>main\<close> up to the construction of the engine; an error is the exit with status 1.\<close>

definition main_config ::
    "(rat \<Rightarrow> rat option) \<Rightarrow> (string \<Rightarrow> u32 option) \<Rightarrow> (string \<Rightarrow> string option) \<Rightarrow> string list \<Rightarrow> engine_config
     \<Rightarrow> engine_config parsed" where
  "main_config uf pton read_file argv cfg =
     (case arg_str argv ''--config'' None of
        None \<Rightarrow> Some (Inr cfg)
      | Some path \<Rightarrow> and_then (load_file uf read_file path) (\<lambda>c. Some (apply_config pton c cfg)))"


subsection \<open>The parser returns\<close>

definition advances :: "string \<Rightarrow> nat \<Rightarrow> ('a \<times> nat) parsed \<Rightarrow> bool" where
  "advances s i p \<longleftrightarrow>
     (case p of None \<Rightarrow> False | Some (Inl e) \<Rightarrow> True | Some (Inr (x, j)) \<Rightarrow> i < j \<and> j \<le> length s)"

lemma advances_simps [simp]:
  "\<not> advances s i None" "advances s i (Some (Inl e))" "advances s i (parse_fail k msg)"
  "advances s i (Some (Inr (x, j))) \<longleftrightarrow> i < j \<and> j \<le> length s"
  by (simp_all add: advances_def parse_fail_def)

lemma advances_and_then:
  assumes "advances s i p" "\<And>x j. p = Some (Inr (x, j)) \<Longrightarrow> i < j \<Longrightarrow> j \<le> length s \<Longrightarrow> advances s k (f (x, j))"
  shows "advances s k (and_then p f)"
  using assms by (auto simp: advances_def and_then_def split: option.splits sum.splits)

lemma advances_from: "advances s i p \<Longrightarrow> k \<le> i \<Longrightarrow> advances s k p"
  by (auto simp: advances_def split: option.splits sum.splits)

lemma skip_ws_bounds: "i \<le> length s \<Longrightarrow> i \<le> skip_ws s i \<and> skip_ws s i \<le> length s"
  by (induction s i rule: skip_ws.induct) (subst (1 2) skip_ws.simps, auto)

lemma number_loop_bounds: "i \<le> length s \<Longrightarrow> i \<le> number_loop s i \<and> number_loop s i \<le> length s"
  by (induction s i rule: number_loop.induct) (subst (1 2) number_loop.simps, auto)

lemma get_cases:
  obtains (char) "i < length s" "get s i = (s ! i, Suc i)" "peek s i = s ! i"
  | (at_end) "length s \<le> i" "get s i = (nul, i)" "peek s i = nul"
  by (cases "i < length s") (auto simp: get_def peek_def)

lemma peek_not_nul: "peek s i = c \<Longrightarrow> c \<noteq> nul \<Longrightarrow> i < length s \<and> get s i = (c, Suc i)"
  by (cases rule: get_cases [of i s]) auto

lemma get_not_nul: "get s i = (c, j) \<Longrightarrow> c \<noteq> nul \<Longrightarrow> j = Suc i \<and> j \<le> length s"
  by (cases rule: get_cases [of i s]) auto

lemma after_ws:
  assumes "j \<le> length s"
  obtains c k where "get s (skip_ws s j) = (c, k)" "c = nul \<or> j < k \<and> k \<le> length s"
  using skip_ws_bounds [OF assms] get_not_nul [of s "skip_ws s j"] by (cases "get s (skip_ws s j)") fastforce

lemma string_loop_advances: "i \<le> length s \<Longrightarrow> advances s i (string_loop s i out)"
proof (induction s i out rule: string_loop.induct)
  case (1 s i out)
  show ?case
  proof (cases rule: get_cases [of i s])
    case char
    let ?c = "s ! i"
    consider "?c = nul" | "?c \<noteq> nul" "?c = CHR 0x22" | "?c \<noteq> nul" "?c \<noteq> CHR 0x22" "?c = CHR 0x5C"
      | "?c \<noteq> nul" "?c \<noteq> CHR 0x22" "?c \<noteq> CHR 0x5C"
      by blast
    then show ?thesis
    proof cases
      case 3
      obtain e i2 where e: "get s (Suc i) = (e, i2)"
        by (rule prod.exhaust)
      then have "Suc i \<le> i2 \<and> i2 \<le> length s"
        using char(1) by (cases rule: get_cases [of "Suc i" s]) auto
      moreover have "advances s i2 (string_loop s i2 (out @ [unescape e]))"
        using 1(1) [OF char(2) [symmetric] refl 3 e [symmetric] refl] calculation by auto
      ultimately show ?thesis
        using char 3 e by (subst string_loop.simps) (auto intro: advances_from)
    next
      case 4
      then have "advances s (Suc i) (string_loop s (Suc i) (out @ [?c]))"
        using 1(2) [OF char(2) [symmetric] refl 4] char(1) by auto
      then show ?thesis
        using char 4 by (subst string_loop.simps) (auto intro: advances_from)
    qed (use char in \<open>(subst string_loop.simps, simp)+\<close>)
  next
    case at_end
    then show ?thesis
      by (subst string_loop.simps) simp
  qed
qed

lemma parse_string_advances: "i \<le> length s \<Longrightarrow> advances s i (parse_string s i)"
  by (cases rule: get_cases [of i s])
    (auto simp: parse_string_def intro: advances_from [OF string_loop_advances])

lemma parse_literal_advances:
  assumes "i \<le> length s"
  shows "advances s i (parse_bool s i)" "advances s i (parse_null s i)"
proof -
  have len: "i + k \<le> length s" if "take k (drop i s) = cs" "length cs = k" for cs :: string and k
    using assms arg_cong [OF that(1), of length] that(2) by auto
  show "advances s i (parse_bool s i)"
    using len [of 4 "''true''"] len [of 5 "''false''"] by (simp add: parse_bool_def)
  show "advances s i (parse_null s i)"
    using len [of 4 "''null''"] by (simp add: parse_null_def)
qed

lemma parse_number_advances:
  assumes "i \<le> length s"
  shows "advances s i (parse_number uf s i)"
proof -
  define j where "j = (if peek s i = CHR ''-'' \<or> peek s i = CHR ''+'' then snd (get s i) else i)"
  have j: "i \<le> j" "j \<le> length s"
    using assms by (cases rule: get_cases [of i s]; auto simp: j_def nul_def)+
  with number_loop_bounds [of j s] show ?thesis
    by (auto simp: parse_number_def Let_def simp flip: j_def split: option.splits)
qed

text \<open>Every pair of nested calls consumes a character, so the fuel of \<open>parse_document\<close> is enough.\<close>

lemma parse_value_advances:
  assumes mem: "\<And>i obj. i \<le> length s \<Longrightarrow> 2 * (length s - i) + 1 \<le> n \<Longrightarrow> advances s i (parse_members uf n s i obj)"
    and elem: "\<And>i arr. i \<le> length s \<Longrightarrow> 2 * (length s - i) + 3 \<le> n \<Longrightarrow> advances s i (parse_elements uf n s i arr)"
    and i: "i \<le> length s" "2 * (length s - i) + 2 \<le> Suc n"
  shows "advances s i (parse_value uf (Suc n) s i)"
proof -
  let ?i = "skip_ws s i"
  have b: "i \<le> ?i" "?i \<le> length s"
    using skip_ws_bounds [OF i(1)] by simp_all
  have enter: "?i < length s \<and> snd (get s ?i) = Suc ?i" if "peek s ?i = c" "c \<noteq> nul" for c
    using peek_not_nul [OF that] by simp
  show ?thesis
  proof (cases "peek s ?i = CHR ''{'' \<or> peek s ?i = CHR ''[''")
    case True
    then have g: "?i < length s" "snd (get s ?i) = Suc ?i"
      using enter [of "peek s ?i"] by (auto simp: nul_def)
    let ?j = "skip_ws s (Suc ?i)"
    have j: "Suc ?i \<le> ?j" "?j \<le> length s"
      using skip_ws_bounds [of "Suc ?i" s] g by simp_all
    have close: "advances s i (Some (Inr (v, snd (get s ?j))))" if "peek s ?j = c" "c \<noteq> nul" for v :: json and c
      using peek_not_nul [OF that] j b by simp
    have "advances s ?j (parse_members uf n s ?j [])" "advances s ?j (parse_elements uf n s ?j [])"
      using i j b g(1) by (auto intro!: mem elem)
    then show ?thesis
      using True g j b close [of "CHR ''}''"] close [of "CHR '']''"]
      by (auto simp: Let_def nul_def intro: advances_from)
  next
    case False
    show ?thesis
      using False b parse_string_advances [OF b(2)] parse_literal_advances [OF b(2)] parse_number_advances [OF b(2), of uf]
      by (auto simp: Let_def intro: advances_from intro!: advances_and_then [where i = ?i])
  qed
qed

lemma parse_members_advances:
  assumes val: "\<And>i. i \<le> length s \<Longrightarrow> 2 * (length s - i) + 2 \<le> n \<Longrightarrow> advances s i (parse_value uf n s i)"
    and mem: "\<And>i obj. i \<le> length s \<Longrightarrow> 2 * (length s - i) + 1 \<le> n \<Longrightarrow> advances s i (parse_members uf n s i obj)"
    and i: "i \<le> length s" "2 * (length s - i) + 1 \<le> Suc n"
  shows "advances s i (parse_members uf (Suc n) s i obj)"
proof -
  let ?i = "skip_ws s i"
  have b: "i \<le> ?i" "?i \<le> length s"
    using skip_ws_bounds [OF i(1)] by simp_all
  have "advances s i (and_then (parse_string s ?i) f)"
    if "\<And>key j. ?i < j \<Longrightarrow> j \<le> length s \<Longrightarrow> advances s i (f (key, j))" for f :: "string \<times> nat \<Rightarrow> (json \<times> nat) parsed"
    using that by (rule advances_and_then [OF parse_string_advances [OF b(2)]])
  note key = this
  have member_value: "advances s i (and_then (parse_value uf n s j) f)"
    if "i + 2 \<le> j" "j \<le> length s" "\<And>v k. j < k \<Longrightarrow> k \<le> length s \<Longrightarrow> advances s i (f (v, k))"
    for f :: "json \<times> nat \<Rightarrow> (json \<times> nat) parsed" and j
    using that i by (intro advances_and_then [OF val]) auto
  have next_member: "advances s i (parse_members uf n s j obj)" if "i + 2 \<le> j" "j \<le> length s" for j obj
    using that i by (intro advances_from [OF mem]) auto
  show ?thesis
  proof (cases "peek s ?i = CHR 0x22")
    case True
    have "advances s i (let (c, k) = get s (skip_ws s j) in
        if c \<noteq> CHR '':'' then parse_fail k (''expected '' @ [CHR 0x27] @ '':'' @ [CHR 0x27] @ '' after key'')
        else and_then (parse_value uf n s k) (\<lambda>(v, k).
          let obj = emplace key v obj; (c, k) = get s (skip_ws s k) in
          if c = CHR '','' then parse_members uf n s k obj
          else if c = CHR ''}'' then Some (Inr (JObject obj, k))
          else parse_fail k (''expected '' @ [CHR 0x27] @ '','' @ [CHR 0x27] @ '' or '' @ [CHR 0x27] @ ''}'' @ [CHR 0x27]
            @ '' in object'')))" if j: "?i < j" "j \<le> length s" for key j
    proof (cases rule: after_ws [OF j(2)])
      case (1 c k)
      show ?thesis
      proof (cases "c = CHR '':''")
        case False
        with 1 show ?thesis by simp
      next
        case True
        with 1 j b(1) have "i + 2 \<le> k" "k \<le> length s"
          by (auto simp: nul_def)
        moreover have "advances s i (let obj = emplace key v obj; (c, k) = get s (skip_ws s k') in
            if c = CHR '','' then parse_members uf n s k obj
            else if c = CHR ''}'' then Some (Inr (JObject obj, k))
            else parse_fail k (''expected '' @ [CHR 0x27] @ '','' @ [CHR 0x27] @ '' or '' @ [CHR 0x27] @ ''}'' @ [CHR 0x27]
              @ '' in object''))" if "k < k'" "k' \<le> length s" for v k'
          by (rule after_ws [OF that(2)])
            (use \<open>i + 2 \<le> k\<close> that(1) in \<open>auto simp: nul_def Let_def intro!: next_member\<close>)
        ultimately show ?thesis
          using 1 True by (simp del: Let_def) (auto intro!: member_value simp del: Let_def)
      qed
    qed
    then show ?thesis
      using True by (simp only: parse_members.simps Let_def [of ?i] simp_thms if_False not_not) (auto intro!: key)
  qed (simp add: Let_def)
qed

lemma parse_elements_advances:
  assumes val: "\<And>i. i \<le> length s \<Longrightarrow> 2 * (length s - i) + 2 \<le> n \<Longrightarrow> advances s i (parse_value uf n s i)"
    and elem: "\<And>i arr. i \<le> length s \<Longrightarrow> 2 * (length s - i) + 3 \<le> n \<Longrightarrow> advances s i (parse_elements uf n s i arr)"
    and i: "i \<le> length s" "2 * (length s - i) + 3 \<le> Suc n"
  shows "advances s i (parse_elements uf (Suc n) s i arr)"
proof -
  have next_element: "advances s i (parse_elements uf n s j arr)" if "i + 2 \<le> j" "j \<le> length s" for j arr
    using that i by (intro advances_from [OF elem]) auto
  have "advances s i (case (v, k) of (v, k') \<Rightarrow>
      let arr = arr @ [v]; (c, k) = get s (skip_ws s k') in
      if c = CHR '','' then parse_elements uf n s k arr
      else if c = CHR '']'' then Some (Inr (JArray arr, k))
      else parse_fail k (''expected '' @ [CHR 0x27] @ '','' @ [CHR 0x27] @ '' or '' @ [CHR 0x27] @ '']'' @ [CHR 0x27]
        @ '' in array''))" if "i < k" "k \<le> length s" for v k
    by (rule after_ws [OF that(2)]) (use that(1) in \<open>auto simp: nul_def Let_def intro!: next_element\<close>)
  then show ?thesis
    unfolding parse_elements.simps using i by (intro advances_and_then [OF val]) auto
qed

lemma parse_advances:
  "(\<forall>i. i \<le> length s \<longrightarrow> 2 * (length s - i) + 2 \<le> n \<longrightarrow> advances s i (parse_value uf n s i)) \<and>
   (\<forall>i obj. i \<le> length s \<longrightarrow> 2 * (length s - i) + 1 \<le> n \<longrightarrow> advances s i (parse_members uf n s i obj)) \<and>
   (\<forall>i arr. i \<le> length s \<longrightarrow> 2 * (length s - i) + 3 \<le> n \<longrightarrow> advances s i (parse_elements uf n s i arr))"
proof (induction n)
  case (Suc n)
  then show ?case
    using parse_value_advances [of s n uf] parse_members_advances [of s n uf] parse_elements_advances [of s n uf]
    by blast
qed simp


subsection \<open>The JSON grammar\<close>

text \<open>
  The texts of a value, in the grammar of RFC 8259 (and with leading zeros and raw control characters besides): the
  specification of the parser. White space may stand around every value, key and separator. A number text is a
  sign, digits, a fraction and an exponent; it denotes the nearest double of its decimal value, which must be zero or
  in the range of the normal doubles, for which \<open>std::stod\<close> is defined without reservation. A \<open>\u\<close> escape is
  read as the letter and its four digits: this is what the code does, and not what the escape means. Of equal keys the
  first one counts.
\<close>

definition hex_digit :: "char \<Rightarrow> bool" where
  "hex_digit c \<longleftrightarrow> c \<in> set ''0123456789abcdefABCDEF''"

inductive spells_chars :: "string \<Rightarrow> string \<Rightarrow> bool" where
  done_chars: "spells_chars [] []"
| plain: "c \<notin> {CHR 0x22, CHR 0x5C, nul} \<Longrightarrow> spells_chars cs out \<Longrightarrow> spells_chars (c # cs) (c # out)"
| escaped: "e \<in> set (CHR 0x22 # CHR 0x5C # ''/ntrbf'') \<Longrightarrow> spells_chars cs out \<Longrightarrow>
    spells_chars (CHR 0x5C # e # cs) (unescape e # out)"
| u_escape: "length hs = 4 \<Longrightarrow> list_all hex_digit hs \<Longrightarrow> spells_chars cs out \<Longrightarrow>
    spells_chars (CHR 0x5C # CHR ''u'' # hs @ cs) (CHR ''u'' # hs @ out)"

definition number_text :: "bool \<Rightarrow> string \<Rightarrow> string \<Rightarrow> (char \<times> string \<times> string) option \<Rightarrow> string" where
  "number_text neg ds fs ex =
     (if neg then ''-'' else []) @ ds @ (if fs = [] then [] else CHR ''.'' # fs)
     @ (case ex of None \<Rightarrow> [] | Some (e, sg, es) \<Rightarrow> e # sg @ es)"

definition number_parts :: "string \<Rightarrow> string \<Rightarrow> (char \<times> string \<times> string) option \<Rightarrow> bool" where
  "number_parts ds fs ex \<longleftrightarrow> ds \<noteq> [] \<and> list_all is_digit (ds @ fs)
     \<and> (case ex of None \<Rightarrow> True | Some (e, sg, es) \<Rightarrow>
          e \<in> set ''eE'' \<and> (sg = [] \<or> sg = ''-'' \<or> sg = ''+'') \<and> es \<noteq> [] \<and> list_all is_digit es)"

definition number_value :: "bool \<Rightarrow> string \<Rightarrow> string \<Rightarrow> (char \<times> string \<times> string) option \<Rightarrow> rat" where
  "number_value neg ds fs ex =
     (let e = (case ex of None \<Rightarrow> 0 | Some (e, sg, es) \<Rightarrow> (if sg = ''-'' then -1 else 1) * int (digits_value es))
      in (if neg then -1 else 1) * of_nat (digits_value (ds @ fs)) * 10 powi (e - int (length fs)))"

definition normal_range :: "rat \<Rightarrow> bool" where
  "normal_range x \<longleftrightarrow> x = 0 \<or> 2 powi (- 1022) \<le> \<bar>x\<bar> \<and> \<bar>b64_round x\<bar> < 2 ^ 1024"

definition json_number :: "string \<Rightarrow> rat \<Rightarrow> bool" where
  "json_number t x \<longleftrightarrow>
     (\<exists>neg ds fs ex. number_parts ds fs ex \<and> t = number_text neg ds fs ex \<and> x = number_value neg ds fs ex)"

definition blank :: "string \<Rightarrow> bool" where
  "blank w \<longleftrightarrow> list_all is_ws w"

text \<open>The members of an object: of repeated keys the first one.\<close>

fun first_of_keys :: "(string \<times> json) list \<Rightarrow> (string \<times> json) list" where
  "first_of_keys [] = []"
| "first_of_keys ((k, v) # kvs) = (k, v) # filter (\<lambda>(k', v'). k' \<noteq> k) (first_of_keys kvs)"

definition object_of :: "(string \<times> json) list \<Rightarrow> json" where
  "object_of kvs = JObject (first_of_keys kvs)"

lemma emplace_all:
  "foldl (\<lambda>obj (k, v). emplace k v obj) obj kvs = obj @ filter (\<lambda>(k, v). map_of obj k = None) (first_of_keys kvs)"
proof (induction kvs arbitrary: obj)
  case (Cons kv kvs)
  obtain k v where kv: "kv = (k, v)"
    by (cases kv)
  show ?case
  proof (cases "map_of obj k = None")
    case True
    have rest: "filter (\<lambda>(k', v'). map_of (obj @ [(k, v)]) k' = None) kvs'
        = filter (\<lambda>(k', v'). map_of obj k' = None) (filter (\<lambda>(k', v'). k' \<noteq> k) kvs')" for kvs'
      by (induction kvs') (auto simp: map_of_eq_None_iff)
    have "emplace k v obj = obj @ [(k, v)]"
      using True by (simp add: emplace_def)
    then have "foldl (\<lambda>obj (k, v). emplace k v obj) obj (kv # kvs)
        = (obj @ [(k, v)]) @ filter (\<lambda>(k', v'). map_of obj k' = None) (filter (\<lambda>(k', v'). k' \<noteq> k) (first_of_keys kvs))"
      unfolding kv by (simp only: foldl.simps prod.case Cons.IH rest)
    with True show ?thesis
      by (simp add: kv)
  next
    case False
    then have rest: "filter (\<lambda>(k', v'). map_of obj k' = None) (filter (\<lambda>(k', v'). k' \<noteq> k) kvs')
        = filter (\<lambda>(k', v'). map_of obj k' = None) kvs'" for kvs'
      by (induction kvs') auto
    have "emplace k v obj = obj"
      using False by (simp add: emplace_def)
    then have "foldl (\<lambda>obj (k, v). emplace k v obj) obj (kv # kvs)
        = obj @ filter (\<lambda>(k', v'). map_of obj k' = None) (filter (\<lambda>(k', v'). k' \<noteq> k) (first_of_keys kvs))"
      unfolding kv by (simp only: foldl.simps prod.case Cons.IH rest)
    with False show ?thesis
      by (simp add: kv)
  qed
qed simp

lemma object_of_emplace: "object_of kvs = JObject (foldl (\<lambda>obj (k, v). emplace k v obj) [] kvs)"
  by (simp add: object_of_def emplace_all)

inductive spells :: "string \<Rightarrow> json \<Rightarrow> bool"
  and spells_members :: "string \<Rightarrow> (string \<times> json) list \<Rightarrow> bool"
  and spells_elements :: "string \<Rightarrow> json list \<Rightarrow> bool"
  where
  null: "spells ''null'' JNull"
| true_text: "spells ''true'' (JBool True)"
| false_text: "spells ''false'' (JBool False)"
| number: "json_number t x \<Longrightarrow> normal_range x \<Longrightarrow> spells t (JNumber (b64_round x))"
| string_text: "spells_chars cs out \<Longrightarrow> spells (CHR 0x22 # cs @ [CHR 0x22]) (JString out)"
| no_elements: "blank w \<Longrightarrow> spells (CHR ''['' # w @ '']'') (JArray [])"
| elements: "spells_elements cs vs \<Longrightarrow> spells (CHR ''['' # cs @ '']'') (JArray vs)"
| no_members: "blank w \<Longrightarrow> spells (CHR ''{'' # w @ ''}'') (JObject [])"
| members: "spells_members cs kvs \<Longrightarrow> spells (CHR ''{'' # cs @ ''}'') (object_of kvs)"
| last_element: "blank w \<Longrightarrow> spells cs v \<Longrightarrow> blank w' \<Longrightarrow> spells_elements (w @ cs @ w') [v]"
| more_elements: "blank w \<Longrightarrow> spells cs v \<Longrightarrow> blank w' \<Longrightarrow> spells_elements cs' vs \<Longrightarrow>
    spells_elements (w @ cs @ w' @ CHR '','' # cs') (v # vs)"
| last_member: "blank w \<Longrightarrow> spells_chars ks key \<Longrightarrow> blank w1 \<Longrightarrow> blank w2 \<Longrightarrow> spells cs v \<Longrightarrow> blank w' \<Longrightarrow>
    spells_members (w @ CHR 0x22 # ks @ CHR 0x22 # w1 @ CHR '':'' # w2 @ cs @ w') [(key, v)]"
| more_members: "blank w \<Longrightarrow> spells_chars ks key \<Longrightarrow> blank w1 \<Longrightarrow> blank w2 \<Longrightarrow> spells cs v \<Longrightarrow> blank w' \<Longrightarrow>
    spells_members cs' kvs \<Longrightarrow>
    spells_members (w @ CHR 0x22 # ks @ CHR 0x22 # w1 @ CHR '':'' # w2 @ cs @ w' @ CHR '','' # cs') ((key, v) # kvs)"


text \<open>The rest of the text from an index on.\<close>

definition rest_at :: "string \<Rightarrow> nat \<Rightarrow> string \<Rightarrow> bool" where
  "rest_at s i cs \<longleftrightarrow> i \<le> length s \<and> drop i s = cs"

lemma rest_at_Cons:
  assumes "rest_at s i (c # cs)"
  shows "i < length s" "peek s i = c" "get s i = (c, Suc i)" "s ! i = c" "rest_at s (Suc i) cs"
proof -
  have d: "drop i s = c # cs"
    using assms by (simp add: rest_at_def)
  show i: "i < length s"
    using d by (cases "i < length s") simp_all
  have "s ! i = c \<and> drop (Suc i) s = cs"
    using d Cons_nth_drop_Suc [OF i] by simp
  then show "s ! i = c" "rest_at s (Suc i) cs" "peek s i = c" "get s i = (c, Suc i)"
    using i by (simp_all add: rest_at_def peek_def get_def)
qed

lemma rest_at_append: "rest_at s i (cs @ post) \<Longrightarrow> rest_at s (i + length cs) post"
proof (induction cs arbitrary: i)
  case (Cons c cs)
  then show ?case
    using rest_at_Cons(5) [of s i c "cs @ post"] Cons.IH [of "Suc i"] by simp
qed simp

lemma rest_at_Nil: "rest_at s i [] \<longleftrightarrow> i = length s"
  by (auto simp: rest_at_def)

lemma rest_at_length: "rest_at s i cs \<Longrightarrow> length s - i = length cs"
  by (auto simp: rest_at_def)

definition solid :: "string \<Rightarrow> bool" where
  "solid cs \<longleftrightarrow> (case cs of [] \<Rightarrow> True | c # _ \<Rightarrow> \<not> is_ws c)"

lemma skip_ws_at: "rest_at s i (w @ cs) \<Longrightarrow> blank w \<Longrightarrow> solid cs \<Longrightarrow> skip_ws s i = i + length w"
proof (induction w arbitrary: i)
  case Nil
  then show ?case
    using rest_at_Cons(4) [of s i]
    by (cases cs) (auto simp: skip_ws.simps [of s i] solid_def rest_at_def)
next
  case (Cons c w)
  then have c: "rest_at s i (c # w @ cs)"
    by simp
  then show ?case
    using rest_at_Cons [OF c] Cons.IH [of "Suc i"] Cons.prems(2,3) by (simp add: skip_ws.simps [of s i] blank_def)
qed

definition ends_number :: "string \<Rightarrow> bool" where
  "ends_number cs \<longleftrightarrow> (case cs of [] \<Rightarrow> True | c # _ \<Rightarrow> \<not> number_char c)"

lemma number_loop_at:
  "rest_at s i (t @ post) \<Longrightarrow> list_all number_char t \<Longrightarrow> ends_number post \<Longrightarrow> number_loop s i = i + length t"
proof (induction t arbitrary: i)
  case Nil
  then show ?case
    using rest_at_Cons(4) [of s i]
    by (cases post) (auto simp: number_loop.simps [of s i] ends_number_def rest_at_def)
next
  case (Cons c t)
  then have c: "rest_at s i (c # t @ post)"
    by simp
  then show ?case
    using rest_at_Cons [OF c] Cons.IH [of "Suc i"] Cons.prems(2,3) by (simp add: number_loop.simps [of s i])
qed

text \<open>Characters that stand for themselves.\<close>

lemma string_loop_plain:
  "list_all (\<lambda>c. c \<notin> {CHR 0x22, CHR 0x5C, nul}) hs \<Longrightarrow> rest_at s i (hs @ post) \<Longrightarrow>
   string_loop s i acc = string_loop s (i + length hs) (acc @ hs)"
proof (induction hs arbitrary: i acc)
  case (Cons c hs)
  then have c: "get s i = (c, Suc i)" "rest_at s (Suc i) (hs @ post)"
    using rest_at_Cons [of s i c "hs @ post"] by simp_all
  then show ?case
    using Cons.IH [of "Suc i" "acc @ [c]"] Cons.prems(1) by (simp add: string_loop.simps [of s i])
qed simp

lemma hex_digit_plain: "hex_digit c \<Longrightarrow> c \<notin> {CHR 0x22, CHR 0x5C, nul}"
  by (auto simp: hex_digit_def nul_def)

lemma string_loop_at:
  "spells_chars cs out \<Longrightarrow> rest_at s i (cs @ CHR 0x22 # post) \<Longrightarrow>
   string_loop s i acc = Some (Inr (acc @ out, Suc (i + length cs)))"
proof (induction arbitrary: i acc rule: spells_chars.induct)
  case done_chars
  then show ?case
    using rest_at_Cons [of s i "CHR 0x22" post] by (simp add: string_loop.simps [of s i] nul_def)
next
  case (plain c cs out)
  then show ?case
    using rest_at_Cons [of s i c "cs @ CHR 0x22 # post"] by (simp add: string_loop.simps [of s i])
next
  case (escaped e cs out)
  then show ?case
    using rest_at_Cons [of s i "CHR 0x5C" "e # cs @ CHR 0x22 # post"] rest_at_Cons [of s "Suc i" e "cs @ CHR 0x22 # post"]
    by (simp add: string_loop.simps [of s i] nul_def)
next
  case (u_escape hs cs out)
  have u: "rest_at s i (CHR 0x5C # CHR ''u'' # hs @ cs @ CHR 0x22 # post)"
    using u_escape.prems by simp
  then have rest: "rest_at s (Suc (Suc i)) (hs @ cs @ CHR 0x22 # post)"
    using rest_at_Cons(5) by blast
  have "string_loop s i acc = string_loop s (Suc (Suc i)) (acc @ ''u'')"
    using rest_at_Cons [OF u] rest_at_Cons [OF rest_at_Cons(5) [OF u]]
    by (simp add: string_loop.simps [of s i] nul_def unescape_def)
  also have "\<dots> = string_loop s (Suc (Suc i) + length hs) ((acc @ ''u'') @ hs)"
    using string_loop_plain [OF _ rest, of "acc @ ''u''"] u_escape.hyps(2) hex_digit_plain by (simp add: list_all_iff)
  also have "\<dots> = Some (Inr (((acc @ ''u'') @ hs) @ out, Suc (Suc (Suc i) + length hs + length cs)))"
    using rest_at_append [OF rest] by (rule u_escape.IH)
  finally show ?case
    by simp
qed

lemma parse_string_at:
  "spells_chars cs out \<Longrightarrow> rest_at s i (CHR 0x22 # cs @ CHR 0x22 # post) \<Longrightarrow>
   parse_string s i = Some (Inr (out, i + length cs + 2))"
  using rest_at_Cons [of s i "CHR 0x22" "cs @ CHR 0x22 # post"] string_loop_at [of cs out s "Suc i" post "[]"]
  by (simp add: parse_string_def)

lemma digit_number_char: "is_digit c \<Longrightarrow> number_char c"
  by (simp add: number_char_def)

lemma digits_number_chars: "list_all is_digit ds \<Longrightarrow> list_all number_char ds"
  by (auto simp: list_all_iff digit_number_char)

lemma json_number_chars:
  assumes "json_number t x"
  shows "list_all number_char t" "t \<noteq> []" "\<And>c r. t = c # r \<Longrightarrow> c = CHR ''-'' \<or> is_digit c"
    "\<And>r. t = CHR ''-'' # r \<Longrightarrow> r \<noteq> []"
proof -
  obtain neg ds fs ex where t: "t = number_text neg ds fs ex" "ds \<noteq> []" "list_all is_digit (ds @ fs)"
    "case ex of None \<Rightarrow> True | Some (e, sg, es) \<Rightarrow>
          e \<in> set ''eE'' \<and> (sg = [] \<or> sg = ''-'' \<or> sg = ''+'') \<and> es \<noteq> [] \<and> list_all is_digit es"
    using assms unfolding json_number_def number_parts_def by blast
  have sign: "number_char (CHR ''-'')" "number_char (CHR ''.'')" "number_char (CHR ''e'')" "number_char (CHR ''E'')"
    "number_char (CHR ''+'')"
    by (simp_all add: number_char_def)
  show "list_all number_char t"
    using t sign digits_number_chars [of ds] digits_number_chars [of fs]
    by (auto simp: number_text_def digits_number_chars split: option.splits)
  show "t \<noteq> []" "\<And>c r. t = c # r \<Longrightarrow> c = CHR ''-'' \<or> is_digit c" "\<And>r. t = CHR ''-'' # r \<Longrightarrow> r \<noteq> []"
    using t(1-3) by (auto simp: number_text_def neq_Nil_conv is_digit_def less_eq_char_def split: if_splits)
qed

text \<open>What \<^const>\<open>stod\<close> makes of a number text.\<close>

lemma digits_split:
  assumes "list_all is_digit ds" "\<And>c r. cs = c # r \<Longrightarrow> \<not> is_digit c"
  shows "takeWhile is_digit (ds @ cs) = ds" "dropWhile is_digit (ds @ cs) = cs"
  using assms by (induction ds) (cases cs; simp)+

lemma takeWhile_digits: "list_all is_digit ds \<Longrightarrow> takeWhile is_digit ds = ds"
  by (simp add: list_all_iff)

lemma not_digits [simp]: "\<not> is_digit (CHR ''-'')" "\<not> is_digit (CHR ''+'')" "\<not> is_digit (CHR ''.'')" "\<not> is_digit (CHR ''e'')"
  "\<not> is_digit (CHR ''E'')"
  by (simp_all add: is_digit_def less_eq_char_def)

lemma opt_sign_digits: "list_all is_digit ds \<Longrightarrow> ds \<noteq> [] \<Longrightarrow> opt_sign (ds @ cs) = (False, ds @ cs)"
  by (cases ds) (auto simp: opt_sign_def)

lemma opt_exponent_text:
  assumes "case ex of None \<Rightarrow> True | Some (e, sg, es) \<Rightarrow>
      e \<in> set ''eE'' \<and> (sg = [] \<or> sg = ''-'' \<or> sg = ''+'') \<and> es \<noteq> [] \<and> list_all is_digit es"
  shows "opt_exponent (case ex of None \<Rightarrow> [] | Some (e, sg, es) \<Rightarrow> e # sg @ es)
    = (case ex of None \<Rightarrow> 0 | Some (e, sg, es) \<Rightarrow> (if sg = ''-'' then -1 else 1) * int (digits_value es))"
proof (cases ex)
  case (Some p)
  obtain e sg es where p: "p = (e, sg, es)"
    by (cases p)
  have "opt_sign es = (False, es)"
    using assms Some p opt_sign_digits [of es "[]"] by simp
  moreover have "opt_sign (''-'' @ es) = (True, es)" "opt_sign (''+'' @ es) = (False, es)"
    by (simp_all add: opt_sign_def)
  ultimately show ?thesis
    using assms Some p by (auto simp: opt_exponent_def takeWhile_digits)
qed (simp add: opt_exponent_def)

lemma decimal_prefix_number:
  assumes "number_parts ds fs ex"
  shows "decimal_prefix (number_text neg ds fs ex) = Some (number_value neg ds fs ex)"
proof -
  let ?ex = "case ex of None \<Rightarrow> [] | Some (e, sg, es) \<Rightarrow> e # sg @ es"
  let ?rest = "(if fs = [] then [] else CHR ''.'' # fs) @ ?ex"
  have parts: "ds \<noteq> []" "list_all is_digit ds" "list_all is_digit fs" and exp: "case ex of None \<Rightarrow> True | Some (e, sg, es) \<Rightarrow>
      e \<in> set ''eE'' \<and> (sg = [] \<or> sg = ''-'' \<or> sg = ''+'') \<and> es \<noteq> [] \<and> list_all is_digit es"
    using assms by (simp_all add: number_parts_def)
  have ex: "\<not> is_digit c" "c \<noteq> CHR ''.''" if "?ex = c # r" for c r
    using exp that by (auto split: option.splits)
  have rest: "\<not> is_digit c" if "?rest = c # r" for c r
    using ex(1) [of c r] that by (cases fs) auto
  have sign: "opt_sign (number_text neg ds fs ex) = (neg, ds @ ?rest)"
  proof (cases neg)
    case True
    then show ?thesis
      by (simp add: number_text_def opt_sign_def)
  next
    case False
    then have "number_text neg ds fs ex = ds @ ?rest"
      by (simp add: number_text_def)
    then show ?thesis
      using opt_sign_digits [OF parts(2,1), of ?rest] False by (simp only:)
  qed
  have frac: "opt_fraction ?rest = (fs, ?ex)"
  proof (cases "fs = []")
    case True
    then show ?thesis
      using ex(2) by (cases ?ex) (simp_all add: opt_fraction_def)
  next
    case False
    then show ?thesis
      using digits_split [OF parts(3) ex(1)] by (simp add: opt_fraction_def)
  qed
  show ?thesis
    unfolding decimal_prefix_def sign
    using digits_split [OF parts(2) rest] frac opt_exponent_text [OF exp] parts(1)
    by (simp add: number_value_def Let_def)
qed

lemma stod_json_number: "json_number t x \<Longrightarrow> normal_range x \<Longrightarrow> stod uf t = Some (b64_round x)"
  using decimal_prefix_number by (auto simp: json_number_def stod_def normal_range_def)

lemma parse_number_at:
  assumes "json_number t y" "stod uf t = Some x" "rest_at s i (t @ post)" "ends_number post"
  shows "parse_number uf s i = Some (Inr (JNumber x, i + length t))"
proof -
  note chars = json_number_chars [OF assms(1)]
  obtain c r where t: "t = c # r"
    using chars(2) by (cases t) auto
  have c: "peek s i = c" "get s i = (c, Suc i)" "rest_at s (Suc i) (r @ post)"
    using rest_at_Cons [of s i c "r @ post"] assms(3) t by simp_all
  have tok: "take (length t) (drop i s) = t"
    using assms(3) by (simp add: rest_at_def)
  have loops: "number_loop s i = i + length t" "number_loop s (Suc i) = Suc i + length r"
    using number_loop_at [OF assms(3) chars(1) assms(4)] number_loop_at [OF c(3) _ assms(4)] chars(1) t by simp_all
  show ?thesis
  proof (cases "c = CHR ''-''")
    case True
    then have "r \<noteq> []"
      using chars(4) t by blast
    then show ?thesis
      using True c loops assms(2) tok t by (simp add: parse_number_def)
  next
    case False
    then have "is_digit c"
      using chars(3) t by blast
    then have "c \<noteq> CHR ''+''"
      by (auto simp: is_digit_def less_eq_char_def)
    then show ?thesis
      using False c loops assms(2) tok t by (simp add: parse_number_def)
  qed
qed


text \<open>Where the texts begin.\<close>

lemma blank_append_solid: "blank w \<Longrightarrow> blank w' \<Longrightarrow> blank (w @ w')"
  by (simp add: blank_def)

definition value_start :: "char \<Rightarrow> bool" where
  "value_start c \<longleftrightarrow> c \<noteq> CHR '']'' \<and> c \<noteq> CHR ''}'' \<and> \<not> is_ws c"

lemma digit_value_start: "is_digit c \<Longrightarrow> value_start c"
  by (auto simp: value_start_def is_ws_def is_digit_def less_eq_char_def)

lemma spells_start: "spells cs v \<Longrightarrow> \<exists>c r. cs = c # r \<and> value_start c"
proof (induction rule: spells_spells_members_spells_elements.inducts(1) [where ?P2.0 = "\<lambda>_ _. True" and ?P3.0 = "\<lambda>_ _. True"])
  case (number t x)
  then show ?case
    using json_number_chars(2,3) [of t] digit_value_start
    by (cases t) (auto simp: value_start_def is_ws_def)
qed (simp_all add: value_start_def is_ws_def)

lemma spells_solid:
  assumes "spells cs v"
  shows "solid (cs @ post)"
  using spells_start [OF assms] by (auto simp: solid_def value_start_def)

lemma spells_elements_start: "spells_elements cs vs \<Longrightarrow> \<exists>w c r. cs = w @ c # r \<and> blank w \<and> value_start c"
  by (cases rule: spells_elements.cases) (use spells_start in \<open>fastforce+\<close>)

lemma spells_members_start: "spells_members cs kvs \<Longrightarrow> \<exists>w r. cs = w @ CHR 0x22 # r \<and> blank w"
  by (cases rule: spells_members.cases) auto

lemma blank_ends_number: "blank w \<Longrightarrow> ends_number cs \<Longrightarrow> ends_number (w @ cs)"
  by (cases w) (auto simp: blank_def ends_number_def is_ws_def number_char_def is_digit_def less_eq_char_def)

lemma punctuation [simp]:
  "ends_number (CHR '','' # cs)" "ends_number (CHR '']'' # cs)" "ends_number (CHR ''}'' # cs)"
  "solid (CHR '','' # cs)" "solid (CHR '']'' # cs)" "solid (CHR ''}'' # cs)" "solid (CHR '':'' # cs)"
  "solid (CHR 0x22 # cs)" "solid []" "ends_number []"
  by (simp_all add: ends_number_def number_char_def is_digit_def less_eq_char_def solid_def is_ws_def)

text \<open>A separator after white space.\<close>

lemma separator_at:
  assumes "rest_at s i (w @ c # post)" "blank w" "solid (c # post)"
  shows "get s (skip_ws s i) = (c, i + length w + 1)" "rest_at s (i + length w + 1) post"
  using skip_ws_at [OF assms] rest_at_Cons [OF rest_at_append [OF assms(1)]] by simp_all

definition value_at :: "(rat \<Rightarrow> rat option) \<Rightarrow> string \<Rightarrow> json \<Rightarrow> bool" where
  "value_at uf cs v \<longleftrightarrow> (\<forall>s i w post n. rest_at s i (w @ cs @ post) \<longrightarrow> blank w \<longrightarrow> ends_number post \<longrightarrow>
     2 * length (w @ cs @ post) + 2 \<le> n \<longrightarrow> parse_value uf n s i = Some (Inr (v, i + length w + length cs)))"

lemma value_atI:
  assumes "\<And>s i post n. rest_at s i (cs @ post) \<Longrightarrow> ends_number post \<Longrightarrow> 2 * length (cs @ post) + 1 \<le> n \<Longrightarrow>
      parse_value uf (Suc n) s i = Some (Inr (v, i + length cs))"
    and "\<exists>c r. cs = c # r \<and> value_start c"
  shows "value_at uf cs v"
  unfolding value_at_def
proof (intro allI impI)
  fix s i w post n
  assume a: "rest_at s i (w @ cs @ post)" "blank w" "ends_number post" "2 * length (w @ cs @ post) + 2 \<le> n"
  then obtain m where m: "n = Suc m"
    by (cases n) auto
  have solid: "solid (cs @ post)"
    using assms(2) by (auto simp: solid_def value_start_def)
  let ?j = "i + length w"
  have j: "skip_ws s i = ?j" "skip_ws s ?j = ?j"
    using skip_ws_at [OF a(1,2) solid] skip_ws_at [of s ?j "[]" "cs @ post"] rest_at_append [OF a(1)] solid
    by (simp_all add: blank_def)
  then have "parse_value uf (Suc m) s i = parse_value uf (Suc m) s ?j"
    by (simp only: parse_value.simps)
  also have "\<dots> = Some (Inr (v, ?j + length cs))"
    using rest_at_append [OF a(1)] a(3,4) m by (intro assms(1)) auto
  finally show "parse_value uf n s i = Some (Inr (v, i + length w + length cs))"
    by (simp add: m)
qed


definition elements_at :: "(rat \<Rightarrow> rat option) \<Rightarrow> string \<Rightarrow> json list \<Rightarrow> bool" where
  "elements_at uf cs vs \<longleftrightarrow> (\<forall>s i post n arr. rest_at s i (cs @ CHR '']'' # post) \<longrightarrow>
     2 * length (cs @ CHR '']'' # post) + 3 \<le> n \<longrightarrow>
     parse_elements uf n s i arr = Some (Inr (JArray (arr @ vs), i + length cs + 1)))"

definition members_at :: "(rat \<Rightarrow> rat option) \<Rightarrow> string \<Rightarrow> (string \<times> json) list \<Rightarrow> bool" where
  "members_at uf cs kvs \<longleftrightarrow> (\<forall>s i post n obj. rest_at s i (cs @ CHR ''}'' # post) \<longrightarrow>
     2 * length (cs @ CHR ''}'' # post) + 1 \<le> n \<longrightarrow>
     parse_members uf n s i obj = Some (Inr (JObject (foldl (\<lambda>obj (k, v). emplace k v obj) obj kvs), i + length cs + 1)))"

lemma skip_ws_idem [simp]: "skip_ws s (skip_ws s i) = skip_ws s i"
  by (induction s i rule: skip_ws.induct) (metis skip_ws.simps)

lemma parse_skip_ws:
  "parse_value uf n s (skip_ws s i) = parse_value uf n s i"
  "parse_members uf n s (skip_ws s i) obj = parse_members uf n s i obj"
  "parse_elements uf n s (skip_ws s i) arr = parse_elements uf n s i arr"
proof -
  show *: "parse_value uf n s (skip_ws s i) = parse_value uf n s i" for n
    by (cases n) (simp_all only: parse_value.simps skip_ws_idem)
  show "parse_members uf n s (skip_ws s i) obj = parse_members uf n s i obj"
    by (cases n) (simp_all only: parse_members.simps skip_ws_idem)
  show "parse_elements uf n s (skip_ws s i) arr = parse_elements uf n s i arr"
    by (cases n) (simp_all only: parse_elements.simps *)
qed

lemma value_atD:
  "value_at uf cs v \<Longrightarrow> rest_at s i (w @ cs @ post) \<Longrightarrow> blank w \<Longrightarrow> ends_number post \<Longrightarrow>
   2 * length (w @ cs @ post) + 2 \<le> n \<Longrightarrow> parse_value uf n s i = Some (Inr (v, i + length w + length cs))"
  unfolding value_at_def by blast

lemma elements_atD:
  "elements_at uf cs vs \<Longrightarrow> rest_at s i (cs @ CHR '']'' # post) \<Longrightarrow> 2 * length (cs @ CHR '']'' # post) + 3 \<le> n \<Longrightarrow>
   parse_elements uf n s i arr = Some (Inr (JArray (arr @ vs), i + length cs + 1))"
  unfolding elements_at_def by blast

lemma members_atD:
  "members_at uf cs kvs \<Longrightarrow> rest_at s i (cs @ CHR ''}'' # post) \<Longrightarrow> 2 * length (cs @ CHR ''}'' # post) + 1 \<le> n \<Longrightarrow>
   parse_members uf n s i obj = Some (Inr (JObject (foldl (\<lambda>obj (k, v). emplace k v obj) obj kvs), i + length cs + 1))"
  unfolding members_at_def by blast

lemma literal_at: "rest_at s i (cs @ post) \<Longrightarrow> length cs = k \<Longrightarrow> take k (drop i s) = cs"
  by (auto simp: rest_at_def)

text \<open>A bracketed value: the empty one, and one with contents.\<close>

lemma empty_brackets_at:
  assumes "rest_at s i (a # w @ [c] @ post)" "blank w" "solid (c # post)" "a = CHR ''['' \<or> a = CHR ''{''"
  shows "skip_ws s i = i" "peek s i = a" "get s i = (a, Suc i)"
    "peek s (skip_ws s (Suc i)) = c" "get s (skip_ws s (Suc i)) = (c, i + length w + 2)"
proof -
  note a = rest_at_Cons [OF assms(1)]
  show "peek s i = a" "get s i = (a, Suc i)"
    using a by simp_all
  show "skip_ws s i = i"
    using a(4) assms(4) by (subst skip_ws.simps) (auto simp: is_ws_def)
  have "rest_at s (Suc i) (w @ c # post)"
    using a(5) by simp
  from separator_at(1) [OF this assms(2,3)] rest_at_Cons(2) [OF rest_at_append [OF this]]
    skip_ws_at [OF this assms(2,3)]
  show "peek s (skip_ws s (Suc i)) = c" "get s (skip_ws s (Suc i)) = (c, i + length w + 2)"
    by simp_all
qed

lemma open_bracket_at:
  assumes "rest_at s i (a # w @ c # r)" "blank w" "\<not> is_ws c" "a = CHR ''['' \<or> a = CHR ''{''"
  shows "skip_ws s i = i" "peek s i = a" "get s i = (a, Suc i)" "peek s (skip_ws s (Suc i)) = c"
    "rest_at s (Suc i) (w @ c # r)"
proof -
  have solid: "solid (c # r)"
    using assms(3) by (simp add: solid_def)
  show "skip_ws s i = i" "peek s i = a" "get s i = (a, Suc i)" "peek s (skip_ws s (Suc i)) = c"
    using empty_brackets_at [of s i a w c r] assms(1,2,4) solid by simp_all
  show "rest_at s (Suc i) (w @ c # r)"
    using rest_at_Cons [OF assms(1)] by simp
qed

lemma array_at:
  assumes "elements_at uf cs vs" "spells_elements cs vs"
  shows "value_at uf (CHR ''['' # cs @ '']'') (JArray vs)"
proof (rule value_atI)
  fix s i post n
  assume a: "rest_at s i ((CHR ''['' # cs @ '']'') @ post)" "2 * length ((CHR ''['' # cs @ '']'') @ post) + 1 \<le> n"
  obtain w c r where cs: "cs = w @ c # r" "blank w" "value_start c"
    using spells_elements_start [OF assms(2)] by blast
  have "rest_at s i (CHR ''['' # w @ c # r @ CHR '']'' # post)"
    using a(1) cs(1) by simp
  note ob = open_bracket_at [OF this cs(2)]
  have "rest_at s (Suc i) (cs @ CHR '']'' # post)"
    using ob(5) cs by (simp add: value_start_def)
  from elements_atD [OF assms(1) this, of n "[]"] a(2)
  show "parse_value uf (Suc n) s i = Some (Inr (JArray vs, i + length (CHR ''['' # cs @ '']'')))"
    using ob(1-4) cs(3) by (simp add: value_start_def parse_skip_ws)
qed (simp add: value_start_def is_ws_def)

lemma object_at:
  assumes "members_at uf cs kvs" "spells_members cs kvs"
  shows "value_at uf (CHR ''{'' # cs @ ''}'') (object_of kvs)"
proof (rule value_atI)
  fix s i post n
  assume a: "rest_at s i ((CHR ''{'' # cs @ ''}'') @ post)" "2 * length ((CHR ''{'' # cs @ ''}'') @ post) + 1 \<le> n"
  obtain w r where cs: "cs = w @ CHR 0x22 # r" "blank w"
    using spells_members_start [OF assms(2)] by blast
  have "rest_at s i (CHR ''{'' # w @ CHR 0x22 # r @ CHR ''}'' # post)"
    using a(1) cs(1) by simp
  note ob = open_bracket_at [OF this cs(2)]
  have "rest_at s (Suc i) (cs @ CHR ''}'' # post)"
    using ob(5) cs by (simp add: is_ws_def)
  from members_atD [OF assms(1) this, of n "[]"] a(2)
  show "parse_value uf (Suc n) s i = Some (Inr (object_of kvs, i + length (CHR ''{'' # cs @ ''}'')))"
    using ob(1-4) by (simp add: is_ws_def parse_skip_ws object_of_emplace)
qed (simp add: value_start_def is_ws_def)

text \<open>One element and one member, up to the character after it.\<close>

lemma element_at:
  assumes "value_at uf cs v" "rest_at s i (w @ cs @ w' @ c # post)" "blank w" "blank w'" "c = CHR '','' \<or> c = CHR '']''"
    and "2 * length (w @ cs @ w' @ c # post) + 3 \<le> Suc n"
  shows "parse_elements uf (Suc n) s i arr =
      (if c = CHR '','' then parse_elements uf n s (i + length (w @ cs @ w') + 1) (arr @ [v])
       else Some (Inr (JArray (arr @ [v]), i + length (w @ cs @ w') + 1)))"
    and "rest_at s (i + length (w @ cs @ w') + 1) post"
proof -
  have "ends_number (w' @ c # post)"
    using assms(4,5) by (auto intro!: blank_ends_number)
  from value_atD [OF assms(1,2,3) this, of n] assms(6)
  have v: "parse_value uf n s i = Some (Inr (v, i + length (w @ cs)))"
    by (simp add: add.assoc)
  have "rest_at s (i + length (w @ cs)) (w' @ c # post)"
    using rest_at_append [of s i "w @ cs" "w' @ c # post"] assms(2) by simp
  from separator_at [OF this assms(4)] assms(5)
  have g: "get s (skip_ws s (i + length (w @ cs))) = (c, i + length (w @ cs @ w') + 1)"
    "rest_at s (i + length (w @ cs @ w') + 1) post"
    by (auto simp: add.assoc)
  then show "rest_at s (i + length (w @ cs @ w') + 1) post"
    by simp
  show "parse_elements uf (Suc n) s i arr =
      (if c = CHR '','' then parse_elements uf n s (i + length (w @ cs @ w') + 1) (arr @ [v])
       else Some (Inr (JArray (arr @ [v]), i + length (w @ cs @ w') + 1)))"
    using v g(1) assms(5) by auto
qed

abbreviation member_text :: "string \<Rightarrow> string \<Rightarrow> string \<Rightarrow> string \<Rightarrow> string \<Rightarrow> string \<Rightarrow> string" where
  "member_text w ks w1 w2 cs w' \<equiv> w @ CHR 0x22 # ks @ CHR 0x22 # w1 @ CHR '':'' # w2 @ cs @ w'"

lemma key_at:
  assumes "rest_at s i (w @ CHR 0x22 # ks @ CHR 0x22 # w1 @ CHR '':'' # post)" "spells_chars ks key" "blank w" "blank w1"
  shows "peek s (skip_ws s i) = CHR 0x22"
    "parse_string s (skip_ws s i) = Some (Inr (key, i + length w + length ks + 2))"
    "get s (skip_ws s (i + length w + length ks + 2)) = (CHR '':'', i + length (w @ CHR 0x22 # ks @ CHR 0x22 # w1 @ '':''))"
    "rest_at s (i + length (w @ CHR 0x22 # ks @ CHR 0x22 # w1 @ '':'')) post"
proof -
  have skip: "skip_ws s i = i + length w"
    using skip_ws_at [OF assms(1,3)] by simp
  have q: "rest_at s (i + length w) (CHR 0x22 # ks @ CHR 0x22 # w1 @ CHR '':'' # post)"
    using rest_at_append [OF assms(1)] .
  show "peek s (skip_ws s i) = CHR 0x22"
    using rest_at_Cons(2) [OF q] skip by simp
  show "parse_string s (skip_ws s i) = Some (Inr (key, i + length w + length ks + 2))"
    using parse_string_at [OF assms(2) q] skip by simp
  have "rest_at s (i + length w + length ks + 2) (w1 @ CHR '':'' # post)"
    using rest_at_append [of s "i + length w" "CHR 0x22 # ks @ [CHR 0x22]" "w1 @ CHR '':'' # post"] q by (simp add: add.assoc)
  from separator_at [OF this assms(4)]
  show "get s (skip_ws s (i + length w + length ks + 2)) = (CHR '':'', i + length (w @ CHR 0x22 # ks @ CHR 0x22 # w1 @ '':''))"
    "rest_at s (i + length (w @ CHR 0x22 # ks @ CHR 0x22 # w1 @ '':'')) post"
    by (simp_all add: algebra_simps)
qed

lemma member_at:
  assumes "value_at uf cs v" "spells_chars ks key" "rest_at s i (member_text w ks w1 w2 cs w' @ c # post)"
    and "blank w" "blank w1" "blank w2" "blank w'" "c = CHR '','' \<or> c = CHR ''}''"
    and "2 * length (member_text w ks w1 w2 cs w' @ c # post) + 1 \<le> Suc n"
  shows "parse_members uf (Suc n) s i obj =
      (if c = CHR '','' then parse_members uf n s (i + length (member_text w ks w1 w2 cs w') + 1) (emplace key v obj)
       else Some (Inr (JObject (emplace key v obj), i + length (member_text w ks w1 w2 cs w') + 1)))"
    and "rest_at s (i + length (member_text w ks w1 w2 cs w') + 1) post"
proof -
  have "rest_at s i (w @ CHR 0x22 # ks @ CHR 0x22 # w1 @ CHR '':'' # w2 @ cs @ w' @ c # post)"
    using assms(3) by simp
  note key = key_at [OF this assms(2,4,5)]
  let ?j = "i + length (w @ CHR 0x22 # ks @ CHR 0x22 # w1 @ '':'')"
  have "ends_number (w' @ c # post)"
    using assms(7,8) by (auto intro!: blank_ends_number)
  from value_atD [OF assms(1) key(4) assms(6) this, of n] assms(9)
  have v: "parse_value uf n s ?j = Some (Inr (v, ?j + length (w2 @ cs)))"
    by (simp add: add.assoc)
  have "rest_at s (?j + length (w2 @ cs)) (w' @ c # post)"
    using rest_at_append [of s ?j "w2 @ cs" "w' @ c # post"] key(4) by simp
  from separator_at [OF this assms(7)] assms(8)
  have g: "get s (skip_ws s (?j + length (w2 @ cs))) = (c, i + length (member_text w ks w1 w2 cs w') + 1)"
    "rest_at s (i + length (member_text w ks w1 w2 cs w') + 1) post"
    by (auto simp: algebra_simps)
  then show "rest_at s (i + length (member_text w ks w1 w2 cs w') + 1) post"
    by simp
  show "parse_members uf (Suc n) s i obj =
      (if c = CHR '','' then parse_members uf n s (i + length (member_text w ks w1 w2 cs w') + 1) (emplace key v obj)
       else Some (Inr (JObject (emplace key v obj), i + length (member_text w ks w1 w2 cs w') + 1)))"
    by (simp only: parse_members.simps Let_def key(1-3) v g(1) and_then_simps prod.case if_False simp_thms not_not)
      (use assms(8) in auto)
qed

lemma literal_start:
  assumes "rest_at s i (cs @ post)" "cs = ''null'' \<or> cs = ''true'' \<or> cs = ''false''"
  shows "skip_ws s i = i" "peek s i = hd cs" "length cs = k \<Longrightarrow> take k (drop i s) = cs"
proof -
  obtain r where cs: "cs = hd cs # r" "\<not> is_ws (hd cs)"
    using assms(2) by (auto simp: is_ws_def)
  then have a: "rest_at s i (hd cs # r @ post)"
    using assms(1) by (metis append_Cons)
  show "peek s i = hd cs"
    using rest_at_Cons(2) [OF a] .
  show "skip_ws s i = i"
    using skip_ws_at [of s i "[]"] a cs(2) by (simp add: blank_def solid_def)
  show "length cs = k \<Longrightarrow> take k (drop i s) = cs"
    using assms(1) by (auto simp: rest_at_def)
qed

lemma literal_value_at:
  "value_at uf ''null'' JNull" "value_at uf ''true'' (JBool True)" "value_at uf ''false'' (JBool False)"
proof -
  note defs = parse_value.simps Let_def parse_null_def parse_bool_def
  have "parse_value uf (Suc n) s i = Some (Inr (JNull, i + length ''null''))" if "rest_at s i (''null'' @ post)" for s i post n
    using literal_start(1,2) [OF that] literal_start(3) [OF that, of 4] by (simp add: defs)
  then show "value_at uf ''null'' JNull"
    by (intro value_atI) (auto simp: value_start_def is_ws_def)
  have "parse_value uf (Suc n) s i = Some (Inr (JBool True, i + length ''true''))" if "rest_at s i (''true'' @ post)" for s i post n
    using literal_start(1,2) [OF that] literal_start(3) [OF that, of 4] by (simp add: defs)
  then show "value_at uf ''true'' (JBool True)"
    by (intro value_atI) (auto simp: value_start_def is_ws_def)
  have "parse_value uf (Suc n) s i = Some (Inr (JBool False, i + length ''false''))" if "rest_at s i (''false'' @ post)" for s i post n
  proof -
    have "take 4 (drop i s) = ''fals''"
      using that by (simp add: rest_at_def)
    then show ?thesis
      using literal_start(1,2) [OF that] literal_start(3) [OF that, of 5] by (simp add: defs)
  qed
  then show "value_at uf ''false'' (JBool False)"
    by (intro value_atI) (auto simp: value_start_def is_ws_def)
qed

lemma number_at:
  assumes "json_number t y" "normal_range y"
  shows "value_at uf t (JNumber (b64_round y))"
proof (rule value_atI)
  obtain c r where t: "t = c # r" "c = CHR ''-'' \<or> is_digit c"
    using json_number_chars [OF assms(1)] by (cases t) auto
  then have c: "c \<noteq> CHR ''{''" "c \<noteq> CHR ''[''" "c \<noteq> CHR 0x22" "c \<noteq> CHR ''t''" "c \<noteq> CHR ''f''" "c \<noteq> CHR ''n''" "\<not> is_ws c"
    by (auto simp: is_digit_def less_eq_char_def is_ws_def)
  show "\<exists>c r. t = c # r \<and> value_start c"
    using t digit_value_start by (auto simp: value_start_def is_ws_def)
  fix s i post n
  assume a: "rest_at s i (t @ post)" "ends_number post"
  have "skip_ws s i = i"
    using skip_ws_at [of s i "[]" "t @ post"] a(1) t c(7) by (simp add: blank_def solid_def)
  moreover have "peek s i = c"
    using rest_at_Cons(2) [of s i c "r @ post"] a(1) t by simp
  ultimately show "parse_value uf (Suc n) s i = Some (Inr (JNumber (b64_round y), i + length t))"
    using parse_number_at [OF assms(1) stod_json_number [OF assms] a] c by simp
qed

lemma string_at:
  assumes "spells_chars cs out"
  shows "value_at uf (CHR 0x22 # cs @ [CHR 0x22]) (JString out)"
proof (rule value_atI)
  fix s i post n
  assume "rest_at s i ((CHR 0x22 # cs @ [CHR 0x22]) @ post)"
  then have a: "rest_at s i (CHR 0x22 # cs @ CHR 0x22 # post)"
    by simp
  then have "skip_ws s i = i"
    using skip_ws_at [of s i "[]"] by (simp add: blank_def solid_def is_ws_def)
  then show "parse_value uf (Suc n) s i = Some (Inr (JString out, i + length (CHR 0x22 # cs @ [CHR 0x22])))"
    using parse_string_at [OF assms a] rest_at_Cons(2) [OF a] by simp
qed (simp add: value_start_def is_ws_def)

lemma spells_parsed:
  "spells cs v \<Longrightarrow> value_at uf cs v"
  "spells_members ms kvs \<Longrightarrow> members_at uf ms kvs \<and> spells_members ms kvs"
  "spells_elements es vs \<Longrightarrow> elements_at uf es vs \<and> spells_elements es vs"
proof (induction rule: spells_spells_members_spells_elements.inducts)
  case null
  show ?case
    by (rule literal_value_at(1))
next
  case true_text
  show ?case
    by (rule literal_value_at(2))
next
  case false_text
  show ?case
    by (rule literal_value_at(3))
next
  case (number t x)
  then show ?case
    by (rule number_at)
next
  case (string_text cs out)
  then show ?case
    by (rule string_at)
next
  case (no_elements w)
  show ?case
  proof (rule value_atI)
    fix s i post n
    assume "rest_at s i ((CHR ''['' # w @ '']'') @ post)"
    then have "rest_at s i (CHR ''['' # w @ '']'' @ post)"
      by simp
    from empty_brackets_at [OF this no_elements] show "parse_value uf (Suc n) s i = Some (Inr (JArray [], i + length (CHR ''['' # w @ '']'')))"
      by simp
  qed (simp add: value_start_def is_ws_def)
next
  case (elements cs vs)
  then show ?case
    by (intro array_at) simp_all
next
  case (no_members w)
  show ?case
  proof (rule value_atI)
    fix s i post n
    assume "rest_at s i ((CHR ''{'' # w @ ''}'') @ post)"
    then have "rest_at s i (CHR ''{'' # w @ ''}'' @ post)"
      by simp
    from empty_brackets_at [OF this no_members] show "parse_value uf (Suc n) s i = Some (Inr (JObject [], i + length (CHR ''{'' # w @ ''}'')))"
      by simp
  qed (simp add: value_start_def is_ws_def)
next
  case (members cs kvs)
  then show ?case
    by (intro object_at) simp_all
next
  case (last_element w cs v w')
  have "elements_at uf (w @ cs @ w') [v]"
    unfolding elements_at_def
  proof (intro allI impI)
    fix s i post n and arr :: "json list"
    assume a: "rest_at s i ((w @ cs @ w') @ CHR '']'' # post)" "2 * length ((w @ cs @ w') @ CHR '']'' # post) + 3 \<le> n"
    then obtain m where m: "n = Suc m"
      by (cases n) auto
    have "rest_at s i (w @ cs @ w' @ CHR '']'' # post)"
      using a(1) by simp
    from element_at(1) [OF \<open>value_at uf cs v\<close> this \<open>blank w\<close> \<open>blank w'\<close>, of m arr] a(2) m
    show "parse_elements uf n s i arr = Some (Inr (JArray (arr @ [v]), i + length (w @ cs @ w') + 1))"
      by simp
  qed
  with last_element show ?case
    by (auto intro: spells_spells_members_spells_elements.last_element)
next
  case (more_elements w cs v w' cs' vs)
  have "elements_at uf (w @ cs @ w' @ CHR '','' # cs') (v # vs)"
    unfolding elements_at_def
  proof (intro allI impI)
    fix s i post n and arr :: "json list"
    assume a: "rest_at s i ((w @ cs @ w' @ CHR '','' # cs') @ CHR '']'' # post)"
      "2 * length ((w @ cs @ w' @ CHR '','' # cs') @ CHR '']'' # post) + 3 \<le> n"
    then obtain m where m: "n = Suc m"
      by (cases n) auto
    have "rest_at s i (w @ cs @ w' @ CHR '','' # cs' @ CHR '']'' # post)"
      using a(1) by simp
    note one = element_at [OF \<open>value_at uf cs v\<close> this \<open>blank w\<close> \<open>blank w'\<close>]
    have "rest_at s (i + length (w @ cs @ w') + 1) (cs' @ CHR '']'' # post)"
      using one(2) [of m] a(2) m by simp
    from elements_atD [OF conjunct1 [OF \<open>elements_at uf cs' vs \<and> spells_elements cs' vs\<close>] this, of m "arr @ [v]"] one(1) [of m arr] a(2) m
    show "parse_elements uf n s i arr
        = Some (Inr (JArray (arr @ v # vs), i + length (w @ cs @ w' @ CHR '','' # cs') + 1))"
      by (simp add: algebra_simps)
  qed
  with more_elements show ?case
    by (auto intro: spells_spells_members_spells_elements.more_elements)
next
  case (last_member w ks key w1 w2 cs v w')
  have "members_at uf (member_text w ks w1 w2 cs w') [(key, v)]"
    unfolding members_at_def
  proof (intro allI impI)
    fix s i post n and obj :: "(string \<times> json) list"
    assume a: "rest_at s i (member_text w ks w1 w2 cs w' @ CHR ''}'' # post)"
      "2 * length (member_text w ks w1 w2 cs w' @ CHR ''}'' # post) + 1 \<le> n"
    then obtain m where m: "n = Suc m"
      by (cases n) auto
    from member_at(1) [OF \<open>value_at uf cs v\<close> \<open>spells_chars ks key\<close> a(1) \<open>blank w\<close> \<open>blank w1\<close> \<open>blank w2\<close> \<open>blank w'\<close>, of m obj] a(2) m
    show "parse_members uf n s i obj = Some (Inr (JObject (foldl (\<lambda>obj (k, v). emplace k v obj) obj [(key, v)]),
        i + length (member_text w ks w1 w2 cs w') + 1))"
      by simp
  qed
  with last_member show ?case
    by (auto intro: spells_spells_members_spells_elements.last_member)
next
  case (more_members w ks key w1 w2 cs v w' cs' kvs)
  have "members_at uf (w @ CHR 0x22 # ks @ CHR 0x22 # w1 @ CHR '':'' # w2 @ cs @ w' @ CHR '','' # cs') ((key, v) # kvs)"
    unfolding members_at_def
  proof (intro allI impI)
    fix s i post n and obj :: "(string \<times> json) list"
    let ?t = "w @ CHR 0x22 # ks @ CHR 0x22 # w1 @ CHR '':'' # w2 @ cs @ w' @ CHR '','' # cs'"
    assume a: "rest_at s i (?t @ CHR ''}'' # post)" "2 * length (?t @ CHR ''}'' # post) + 1 \<le> n"
    then obtain m where m: "n = Suc m"
      by (cases n) auto
    have "rest_at s i (member_text w ks w1 w2 cs w' @ CHR '','' # cs' @ CHR ''}'' # post)"
      using a(1) by simp
    note one = member_at [OF \<open>value_at uf cs v\<close> \<open>spells_chars ks key\<close> this \<open>blank w\<close> \<open>blank w1\<close> \<open>blank w2\<close> \<open>blank w'\<close>]
    have "rest_at s (i + length (member_text w ks w1 w2 cs w') + 1) (cs' @ CHR ''}'' # post)"
      using one(2) [of m] a(2) m by simp
    from members_atD [OF conjunct1 [OF \<open>members_at uf cs' kvs \<and> spells_members cs' kvs\<close>] this, of m "emplace key v obj"] one(1) [of m obj] a(2) m
    show "parse_members uf n s i obj = Some (Inr (JObject (foldl (\<lambda>obj (k, v). emplace k v obj) obj ((key, v) # kvs)),
        i + length ?t + 1))"
      by (simp add: algebra_simps)
  qed
  with more_members show ?case
    by (auto intro: spells_spells_members_spells_elements.more_members)
qed


subsection \<open>The dotted path\<close>

fun follow :: "json \<Rightarrow> string list \<Rightarrow> json option" where
  "follow v [] = Some v"
| "follow (JObject obj) (k # ks) = (case map_of obj k of None \<Rightarrow> None | Some v \<Rightarrow> follow v ks)"
| "follow v (k # ks) = None"

lemma find_from_follow: "start \<le> length dotted \<Longrightarrow>
    find_from cur dotted start = follow cur (split_on (CHR ''.'') (drop start dotted))"
proof (induction cur dotted start rule: find_from.induct)
  case (1 cur dotted start)
  let ?rest = "drop start dotted"
  let ?h = "takeWhile (\<lambda>d. d \<noteq> CHR ''.'') ?rest"
  have h: "length ?h \<le> length ?rest" "take (length ?h) ?rest = ?h"
    using length_takeWhile_le takeWhile_eq_take by metis+
  show ?case
  proof (cases "length ?h < length ?rest")
    case True
    then have dot: "find_char (CHR ''.'') dotted start = Some (start + length ?h)"
      by (simp add: find_char_def Let_def)
    have next_start: "start + length ?h + 1 \<le> length dotted"
      using True by simp
    have drop: "drop (start + length ?h + 1) dotted = drop (length ?h + 1) ?rest"
      by (simp add: drop_drop ac_simps)
    show ?thesis
    proof (cases cur)
      case (JObject obj)
      have "find_from v dotted (start + length ?h + 1)
          = follow v (split_on (CHR ''.'') (drop (length ?h + 1) ?rest))" if "map_of obj ?h = Some v" for v
        unfolding drop [symmetric]
        using 1(1) [OF 1(2) dot [symmetric] refl JObject _ refl next_start] that h(2) by simp
      then show ?thesis
        using JObject 1(2) True dot h(2)
        by (subst find_from.simps, subst split_on_takeWhile) (simp add: Let_def split: option.splits)
    qed (use 1(2) True dot in \<open>(subst find_from.simps, subst split_on_takeWhile, simp add: Let_def)+\<close>)
  next
    case False
    then have all: "?h = ?rest"
      using h by simp
    have dot: "find_char (CHR ''.'') dotted start = None"
      using False by (simp add: find_char_def Let_def)
    have "split_on (CHR ''.'') ?rest = [?rest]"
      by (subst split_on_takeWhile) (simp only: all Let_def less_irrefl if_False)
    with 1(2) dot show ?thesis
      by (subst find_from.simps) (cases cur; simp add: Let_def split: option.splits)
  qed
qed


declare parse_value.simps [simp del] parse_members.simps [simp del] parse_elements.simps [simp del]

lemma parse_document_ends:
  "(\<exists>e. parse_document uf s = Some (Inl e)) \<or>
   (\<exists>v i. parse_document uf s = Some (Inr v) \<and> skip_ws s i = length s
      \<and> parse_value uf (2 * length s + 2) s (skip_ws s 0) = Some (Inr (v, i)))"
proof -
  have b: "skip_ws s 0 \<le> length s"
    using skip_ws_bounds [of 0 s] by simp
  then have "advances s (skip_ws s 0) (parse_value uf (2 * length s + 2) s (skip_ws s 0))"
    using parse_advances [of s "2 * length s + 2" uf] by simp
  then consider e where "parse_value uf (2 * length s + 2) s (skip_ws s 0) = Some (Inl e)"
    | v i where "parse_value uf (2 * length s + 2) s (skip_ws s 0) = Some (Inr (v, i))"
    by (auto simp: advances_def split: option.splits sum.splits)
  then show ?thesis
    by cases (auto simp: parse_document_def Let_def parse_fail_def)
qed

subsection \<open>Properties\<close>

text \<open>
  C31. The configuration parser always returns: on any byte string it ends with a value or with an error of
  the code's own, never out of fuel, and a value is returned only after the whole text was read.
\<close>

theorem json_parser_returns:
  "(\<exists>e. parse_document uf s = Some (Inl e)) \<or>
   (\<exists>v i. parse_document uf s = Some (Inr v) \<and> skip_ws s i = length s
      \<and> parse_value uf (2 * length s + 2) s (skip_ws s 0) = Some (Inr (v, i)))"
  by (rule parse_document_ends)

text \<open>
  C30. The parser implements the JSON grammar: a text of the grammar whose numbers are zero or in the range of the
  normal doubles, with any white space around it, is accepted and yields the value it spells, every number
  correctly rounded; of repeated keys the first one counts, and a \<open>\u\<close> escape is read as its five characters.
\<close>

theorem json_grammar_parsed:
  fixes uf :: "rat \<Rightarrow> rat option"
  assumes "spells cs v" "blank w" "blank w'"
  shows "parse_document uf (w @ cs @ w') = Some (Inr v)"
proof -
  let ?s = "w @ cs @ w'"
  have at0: "rest_at ?s 0 ?s"
    by (simp add: rest_at_def)
  have "ends_number w'"
    using blank_ends_number [OF assms(3), of "[]"] by simp
  from value_atD [OF spells_parsed(1) [OF assms(1)] at0 assms(2) this]
  have val: "parse_value uf (2 * length ?s + 2) ?s (skip_ws ?s 0) = Some (Inr (v, length (w @ cs)))"
    by (simp add: parse_skip_ws)
  have "rest_at ?s (length (w @ cs)) (w' @ [])"
    using rest_at_append [of ?s 0 "w @ cs" w'] at0 by simp
  from skip_ws_at [OF this assms(3)] have "skip_ws ?s (length (w @ cs)) = length ?s"
    by simp
  with val show ?thesis
    unfolding parse_document_def by (simp only: and_then_simps prod.case Let_def) simp
qed

text \<open>A file with white space, a nested array and a repeated key.\<close>

definition demo_json :: string where
  "demo_json = [CHR ''{'', CHR '' '', CHR 0x22, CHR ''a'', CHR 0x22, CHR '':'', CHR ''['', CHR ''7'', CHR '','', CHR '' ''] @ ''true''
     @ [CHR '']'', CHR '','', CHR 0x22, CHR ''a'', CHR 0x22, CHR '':''] @ ''null'' @ ''}''"

lemma json_number_7: "json_number ''7'' 7" "normal_range 7" "b64_round 7 = 7"
proof -
  show "b64_round 7 = 7"
    using b64_round_nat [of 7] by simp
  then show "normal_range 7"
    by (simp add: normal_range_def power_int_minus)
  have "''7'' = number_text False ''7'' [] None" "number_parts ''7'' [] None" "7 = number_value False ''7'' [] None"
    by (simp_all add: number_text_def number_parts_def number_value_def digits_value_def digit_value_def is_digit_def less_eq_char_def)
  then show "json_number ''7'' 7"
    unfolding json_number_def by blast
qed

lemma demo_json_spelled: "spells demo_json (JObject [(''a'', JArray [JNumber 7, JBool True])])"
proof -
  have num: "spells ''7'' (JNumber 7)"
    using number [OF json_number_7(1,2)] by (simp only: json_number_7(3))
  have key: "spells_chars ''a'' ''a''"
    by (intro plain done_chars) (simp add: nul_def)
  have blanks: "blank []" "blank '' ''"
    by (simp_all add: blank_def is_ws_def)
  have "spells_elements ([] @ ''7'' @ [] @ CHR '','' # ('' '' @ ''true'' @ [])) [JNumber 7, JBool True]"
    by (intro more_elements last_element num true_text blanks)
  then have arr: "spells (CHR ''['' # ''7, true'' @ '']'') (JArray [JNumber 7, JBool True])"
    by (intro elements) simp
  have last: "spells_members (member_text [] ''a'' [] [] ''null'' []) [(''a'', JNull)]"
    by (intro last_member key null blanks)
  have "spells (CHR ''{'' # ('' '' @ CHR 0x22 # ''a'' @ CHR 0x22 # [] @ CHR '':'' # [] @ (CHR ''['' # ''7, true'' @ '']'') @ []
      @ CHR '','' # (member_text [] ''a'' [] [] ''null'' [])) @ ''}'') (object_of [(''a'', JArray [JNumber 7, JBool True]), (''a'', JNull)])"
    by (intro members more_members [OF blanks(2) key blanks(1) blanks(1) arr blanks(1) last])
  then show ?thesis
    by (simp add: demo_json_def object_of_def)
qed

theorem json_grammar_parsed_witness:
  "parse_document (\<lambda>_. None) (CHR 0x0A # demo_json @ [CHR 0x0A])
     = Some (Inr (JObject [(''a'', JArray [JNumber 7, JBool True])]))"
  using json_grammar_parsed [OF demo_json_spelled, of "[CHR 0x0A]" "[CHR 0x0A]" "\<lambda>_. None"]
  by (simp add: blank_def is_ws_def)

text \<open>
  The dotted lookup walks the segments of the path: it returns what following the keys between the dots
  from object to object returns, empty segments included, and nothing as soon as a key is missing or
  a value on the way is not an object.
\<close>

theorem json_find_follows_path:
  "json_find v path = follow v (split_on (CHR ''.'') path)"
  unfolding json_find_def by (subst find_from_follow) simp_all

text \<open>
  What the parser accepts beyond the grammar: the rest of a malformed number is ignored, and an incomplete \<open>\u\<close>
  escape loses its backslash like a complete one.
\<close>

lemma json_malformed_number: "parse_document uf ''7-5'' = Some (Inr (JNumber 7))"
proof -
  have ws: "skip_ws ''7-5'' 0 = 0" "skip_ws ''7-5'' 3 = 3"
    by (simp_all add: skip_ws.simps is_ws_def)
  have "number_loop ''7-5'' 0 = 3"
    by (simp add: number_loop.simps number_char_def is_digit_def less_eq_char_def)
  moreover have "stod uf ''7-5'' = Some 7"
    using b64_round_nat [of 7]
    by (simp add: stod_def decimal_prefix_def opt_sign_def opt_fraction_def opt_exponent_def is_digit_def less_eq_char_def
        digits_value_def digit_value_def power_int_minus)
  ultimately have "parse_number uf ''7-5'' 0 = Some (Inr (JNumber 7, 3))"
    by (simp add: parse_number_def peek_def)
  then have "parse_value uf (Suc n) ''7-5'' 0 = Some (Inr (JNumber 7, 3))" for n
    by (simp add: parse_value.simps ws(1) peek_def)
  from this [of 7] show ?thesis
    unfolding parse_document_def ws(1) by (simp add: ws(2))
qed

lemma json_u_escape:
  "parse_document uf [CHR 0x22, CHR 0x5C, CHR ''u'', CHR ''4'', CHR ''1'', CHR 0x22] = Some (Inr (JString ''u41''))"
proof -
  let ?s = "[CHR 0x22, CHR 0x5C, CHR ''u'', CHR ''4'', CHR ''1'', CHR 0x22]"
  have ws: "skip_ws ?s 0 = 0" "skip_ws ?s 6 = 6"
    by (simp_all add: skip_ws.simps is_ws_def)
  have "parse_string ?s 0 = Some (Inr (''u41'', 6))"
    by (simp add: parse_string_def string_loop.simps get_def unescape_def nul_def)
  then have "parse_value uf (Suc n) ?s 0 = Some (Inr (JString ''u41'', 6))" for n
    by (simp add: parse_value.simps ws(1) peek_def)
  from this [of 13] show ?thesis
    unfolding parse_document_def ws(1) by (simp add: ws(2))
qed

end
