(* ===== verification/Programs.thy ===== *)
theory Programs
  imports JsonConfig LatencyReport
begin

text \<open>
  The two programs that wire an exchange: \<open>tools/exchange_sim.cpp\<close>, the exchange alone, and
  \<open>tools/latency_report.cpp\<close>, the engine and the exchange in one process. Both are modelled from the command
  line to the constructed objects; the ports the sockets are bound to are arguments, \<^const>\<open>None\<close> is the uncaught
  exception of a bad address, and \<^const>\<open>Inl\<close> an exit status. What runs then is \<^const>\<open>sx_run\<close> and \<^const>\<open>sys_step\<close>.
\<close>

subsection \<open>The exchange alone\<close>

definition symbol_bytes :: "string \<Rightarrow> u8 list" where
  "symbol_bytes s = map of_char s"

definition arg_string :: "string list \<Rightarrow> string \<Rightarrow> string \<Rightarrow> string" where
  "arg_string argv key def = (case arg_str argv key (Some def) of None \<Rightarrow> def | Some s \<Rightarrow> s)"

record sim_setup =
  ss_feed_dst :: endpoint
  ss_fill_dst :: endpoint
  ss_order_port :: u16
  ss_config :: sx_config
  ss_duration_ms :: i64
  ss_cpu :: i32

definition sim_setup_of :: "(string \<Rightarrow> u32 option) \<Rightarrow> string list \<Rightarrow> sim_setup option" where
  "sim_setup_of pton argv =
     (let feed_host = arg_string argv ''--feed-host'' ''127.0.0.1'';
          feed_port = ucast (arg_long argv ''--feed-port'' 31337) :: u16;
          order_port = ucast (arg_long argv ''--order-port'' 31338) :: u16;
          fill_host = arg_string argv ''--fill-host'' ''127.0.0.1'';
          fill_port = ucast (arg_long argv ''--fill-port'' 31339) :: u16;
          symbol = arg_string argv ''--symbol'' ''TST'';
          rate = arg_long argv ''--rate'' 1000000;
          batch = arg_long argv ''--batch'' 1;
          duration_ms = arg_long argv ''--duration-ms'' 0;
          cpu = ucast (arg_long argv ''--cpu'' (- 1)) :: i32
      in case endpoint_v4 pton feed_host feed_port of
           None \<Rightarrow> None
         | Some feed_dst \<Rightarrow>
             map_option (\<lambda>fill_dst.
               \<lparr>ss_feed_dst = feed_dst, ss_fill_dst = fill_dst, ss_order_port = order_port,
                ss_config = \<lparr>cf_symbol = pack_symbol (symbol_bytes symbol), cf_rate = rate, cf_batch = batch,
                             cf_seed = 0x5EED, cf_base_price = price_from_double 100, cf_tick = i64_div kPriceScale 100\<rparr>,
                ss_duration_ms = duration_ms, ss_cpu = cpu\<rparr>)
               (endpoint_v4 pton fill_host fill_port))"


subsection \<open>The engine and the exchange in one process\<close>

text \<open>\<open>arg_long\<close> of this program is its own loop, not a use of \<open>arg_str\<close>.\<close>

fun report_arg_loop :: "string list \<Rightarrow> string \<Rightarrow> i64 \<Rightarrow> i64" where
  "report_arg_loop (a # b # argv) key def = (if a = key then strtol10 b else report_arg_loop (b # argv) key def)"
| "report_arg_loop argv key def = def"

definition report_arg_long :: "string list \<Rightarrow> string \<Rightarrow> i64 \<Rightarrow> i64" where
  "report_arg_long argv key def = report_arg_loop (tl argv) key def"

definition report_wait_policy :: "string list \<Rightarrow> int + wait_policy" where
  "report_wait_policy argv =
     (let wait_name = arg_string argv ''--wait'' ''adaptive'' in
      if wait_name = ''spin'' then Inr kSpin
      else if wait_name = ''yield'' then Inr kYield
      else if wait_name \<noteq> ''adaptive'' then Inl 2
      else Inr kAdaptive)"

definition report_engine_config ::
    "(string \<Rightarrow> u32 option) \<Rightarrow> string list \<Rightarrow> wait_policy \<Rightarrow> engine_config option" where
  "report_engine_config pton argv wait_policy =
     (case engine_config_default pton of
        None \<Rightarrow> None
      | Some ecfg \<Rightarrow>
          map_option (\<lambda>dst. ecfg
            \<lparr>ec_wait_policy := wait_policy,
             ec_feed_core := ucast (report_arg_long argv ''--feed-core'' (- 1)),
             ec_strategy_core := ucast (report_arg_long argv ''--strat-core'' (- 1)),
             ec_gateway_core := ucast (report_arg_long argv ''--gw-core'' (- 1)),
             ec_feed_port := 0, ec_fill_port := 0, ec_feed_bind := ''127.0.0.1'', ec_fill_bind := ''127.0.0.1'',
             ec_order_dst := dst\<rparr>)
            (endpoint_v4 pton ''127.0.0.1'' 1))"

definition report_exchange_config :: "string list \<Rightarrow> sx_config" where
  "report_exchange_config argv =
     \<lparr>cf_symbol = pack_symbol (symbol_bytes ''TST''),
      cf_rate = report_arg_long argv ''--rate'' 500000, cf_batch = report_arg_long argv ''--batch'' 8,
      cf_seed = 0x5EED, cf_base_price = price_from_double 100, cf_tick = i64_div kPriceScale 100\<rparr>"

record report_setup =
  rs_engine :: engine
  rs_exchange :: exchange
  rs_feed_dst :: endpoint
  rs_fill_dst :: endpoint

text \<open>
  The objects, and the ports crossed over: orders go to the exchange's port, the feed and the fills to the
  engine's. The exchange's first destinations are the placeholder its configuration holds.
\<close>

definition report_setup_of ::
    "(string \<Rightarrow> u32 option) \<Rightarrow> tsc_calibration \<Rightarrow> string list \<Rightarrow> u16 \<Rightarrow> u16 \<Rightarrow> u16 \<Rightarrow> (int + report_setup) option" where
  "report_setup_of pton cal argv feed_local fill_local order_local =
     (case report_wait_policy argv of
        Inl status \<Rightarrow> Some (Inl status)
      | Inr wait_policy \<Rightarrow>
          (case report_engine_config pton argv wait_policy of
             None \<Rightarrow> None
           | Some ecfg \<Rightarrow>
               (let en = engine_init kEngineSizes (cycles_per_ns cal) ecfg;
                    exch = exchange_init (cycles_per_ns cal) (report_exchange_config argv)
                in case (endpoint_v4 pton ''127.0.0.1'' order_local, endpoint_v4 pton ''127.0.0.1'' feed_local,
                         endpoint_v4 pton ''127.0.0.1'' fill_local) of
                     (Some order_dst, Some feed_dst, Some fill_dst) \<Rightarrow>
                       Some (Inr \<lparr>rs_engine = set_order_destination order_dst en, rs_exchange = exch,
                                  rs_feed_dst = feed_dst, rs_fill_dst = fill_dst\<rparr>)
                   | _ \<Rightarrow> None)))"

lemma report_arg_loop_str:
  "report_arg_loop argv key def = (case arg_loop argv key None of None \<Rightarrow> def | Some s \<Rightarrow> strtol10 s)"
  by (induction argv key def rule: report_arg_loop.induct) simp_all

text \<open>So the two programs read their numbers alike.\<close>

lemma report_arg_long: "report_arg_long argv key def = arg_long argv key def"
  by (simp add: report_arg_long_def report_arg_loop_str arg_long_def arg_str_def)


subsection \<open>The harness as a system\<close>

lemma kEngineSizes_ok: "sizes_ok kEngineSizes"
  by (simp add: sizes_ok_def kEngineSizes_def capacity_ok_def kInFlightCapacity_def)

lemma default_values:
  "price_from_double 100 = 1000000" "price_from_double 80 = 800000" "i64_div kPriceScale 100 = 100"
  using price_from_whole [of 100] price_from_whole [of 80] by (simp_all add: i64_div_def kPriceScale_def sdiv_nonneg)

lemma report_engine_config_values:
  assumes "report_engine_config pton argv w = Some ecfg"
  shows "ec_base_price ecfg = 800000" "ec_tick ecfg = 100" "limits_admit ecfg"
    "lim_max_position (ec_risk ecfg) = 1000" "ec_order_size ecfg = 100"
  using assms by (auto simp: report_engine_config_def engine_config_default_def endpoint_v4_def default_values limits_admit_def
      split: option.splits)

lemma report_exchange_config_fits:
  "cfg_fits (report_exchange_config argv)" "window_ok (report_exchange_config argv) 4096 2000"
  by (simp_all add: report_exchange_config_def cfg_fits_def window_ok_def default_values in_i64_def)

lemma report_window:
  "window_book (report_exchange_config argv) 4096 2000 = book_init 4096 800000 100"
  by (simp add: window_book_def grid_def report_exchange_config_def default_values)

lemma report_setup_cases:
  assumes "report_setup_of pton cal argv feed_local fill_local order_local = Some (Inr r)"
  obtains w ecfg dst where "report_engine_config pton argv w = Some ecfg"
    "rs_engine r = set_order_destination dst (engine_init kEngineSizes (cycles_per_ns cal) ecfg)"
    "rs_exchange r = exchange_init (cycles_per_ns cal) (report_exchange_config argv)"
  using assms by (auto simp: report_setup_of_def Let_def split: sum.splits option.splits)

definition report_system :: "report_setup \<Rightarrow> system" where
  "report_system r = \<lparr>sy_en = rs_engine r, sy_ev = None, sy_orders = [], sy_fills = []\<rparr>"

lemma report_system_init:
  assumes "rs_engine r = set_order_destination dst (engine_init kEngineSizes cpn ecfg)"
  shows "report_system r = (system_init kEngineSizes cpn ecfg)
    \<lparr>sy_en := set_order_destination dst (sy_en (system_init kEngineSizes cpn ecfg))\<rparr>"
  using assms by (simp add: report_system_def system_init_def)

lemma set_order_destination_phase [simp]:
  "in_phase z ph (s\<lparr>sy_en := set_order_destination dst (sy_en s)\<rparr>) = in_phase z ph s"
  "gate_open z (s\<lparr>sy_en := set_order_destination dst (sy_en s)\<rparr>) = gate_open z s"
  by (simp_all add: in_phase_simps queues_ok_def gate_open_def set_order_destination_def)


lemma engine_book:
  "st_book (sr_strat (en_strat (set_order_destination dst (engine_init sz cpn cfg))))
     = book_init (es_ticks sz) (ec_base_price cfg) (ec_tick cfg)"
  by (simp add: set_order_destination_def engine_init_def strategy_runner_init_def strategy_init_def engine_strategy_params_def)

lemma kEngineSizes_ticks: "es_ticks kEngineSizes = 4096"
  by (simp add: kEngineSizes_def)


text \<open>A demonstration: no options, and a clock that counts and wraps around.\<close>

lemma counting_clock_passes: "clock_passes (\<lambda>k. of_nat k)"
proof -
  have "(of_nat (k * 2 ^ 64 + unat v) :: u64) = v" for k v
    using unat_lt_u64 [of v] by (simp only: word_unat_eq_iff unat_of_nat) simp
  moreover have "k \<le> k * 2 ^ 64 + unat (v :: u64)" for k v
    by (simp add: trans_le_add1)
  ultimately show ?thesis
    unfolding clock_passes_def by (metis order_refl)
qed

lemma demo_setup:
  "\<exists>r. report_setup_of (\<lambda>_. Some 0) demo_calibration [''latency_report''] 5 6 7 = Some (Inr r)"
  by (simp add: report_setup_of_def report_wait_policy_def arg_string_def arg_str_def report_engine_config_def
      engine_config_default_def endpoint_v4_def Let_def)

lemma report_not_killed:
  "report_setup_of pton cal argv feed_local fill_local order_local = Some (Inr r) \<Longrightarrow> \<not> en_kill (sy_en (report_system r))"
  by (erule report_setup_cases) (simp add: report_system_def set_order_destination_def engine_init_def)


subsection \<open>Property\<close>

text \<open>
  The latency harness is wired soundly, for every command line it accepts: the exchange's run returns and
  an engine that receives all of its feed shows exactly the exchange's quotes, so its prices stay inside the
  engine's book window; and with the default limits the risk gate rejects no order unless the kill switch is
  tripped. A command line with an unknown waiting policy exits with status 2.
\<close>

theorem latency_harness_wired:
  assumes "report_setup_of pton cal argv feed_local fill_local order_local = Some (Inr r)"
    and "sends_on clock (rs_exchange r)"
    and "sys_runs cal (report_system r) s" "length (sy_orders s) < 2 ^ 64" "\<not> en_kill (sy_en s)"
  shows "(\<exists>out fills sx. sx_run clock inboxes (rs_exchange r) = Some (out, fills, sx)
      \<and> (let b = fold apply_msg (received out) (st_book (sr_strat (en_strat (rs_engine r)))) in
          two_sided b \<and> best_bid_price b = sx_best_bid sx \<and> best_bid_size b = sx_bid_sz sx
          \<and> best_ask_price b = sx_best_ask sx \<and> best_ask_size b = sx_ask_sz sx))
    \<and> gw_risk_rejected (en_gw (sy_en s)) = 0"
proof -
  obtain w ecfg dst where cfg: "report_engine_config pton argv w = Some ecfg"
    and en: "rs_engine r = set_order_destination dst (engine_init kEngineSizes (cycles_per_ns cal) ecfg)"
    and exch: "rs_exchange r = exchange_init (cycles_per_ns cal) (report_exchange_config argv)"
    using report_setup_cases [OF assms(1)] .
  note v = report_engine_config_values [OF cfg]
  have book: "st_book (sr_strat (en_strat (rs_engine r))) = window_book (report_exchange_config argv) 4096 2000"
    unfolding report_window en engine_book kEngineSizes_ticks v by (rule refl)
  have "gate_open (ec_order_size ecfg) (report_system r)" "in_phase (ec_order_size ecfg) Idle (report_system r)"
    unfolding report_system_init [OF en] set_order_destination_phase
    by (rule init_gate_open [OF v(3)], rule system_init_phase [OF kEngineSizes_ok])
  then have "gate_open (ec_order_size ecfg) s"
    by (rule runs_gate_open [OF assms(3) _ _ assms(4)])
  with assms(5) have "gw_risk_rejected (en_gw (sy_en s)) = 0"
    by (simp add: gate_open_def Let_def)
  moreover obtain out fills sx where "sx_run clock inboxes (rs_exchange r) = Some (out, fills, sx)"
    "let b = fold apply_msg (received out) (window_book (report_exchange_config argv) 4096 2000) in
      two_sided b \<and> best_bid_price b = sx_best_bid sx \<and> best_bid_size b = sx_bid_sz sx
      \<and> best_ask_price b = sx_best_ask sx \<and> best_ask_size b = sx_ask_sz sx"
    using run_shows_quotes [OF report_exchange_config_fits assms(2) [unfolded exch], of inboxes] unfolding exch by blast
  ultimately show ?thesis
    unfolding book by blast
qed

theorem latency_harness_wired_witness:
  "\<exists>r out fills sx. report_setup_of (\<lambda>_. Some 0) demo_calibration [''latency_report''] 5 6 7 = Some (Inr r)
     \<and> sx_run (\<lambda>k. of_nat k) [[], []] (rs_exchange r) = Some (out, fills, sx)
     \<and> two_sided (fold apply_msg (received out) (st_book (sr_strat (en_strat (rs_engine r)))))"
proof -
  obtain r where r: "report_setup_of (\<lambda>_. Some 0) demo_calibration [''latency_report''] 5 6 7 = Some (Inr r)"
    using demo_setup by blast
  have "sends_on (\<lambda>k. of_nat k) (rs_exchange r)"
    using counting_clock_passes by (simp add: sends_on_def)
  moreover have "length (sy_orders (report_system r)) < 2 ^ 64"
    by (simp add: report_system_def)
  ultimately show ?thesis
    using latency_harness_wired [OF r _ sys_runs_refl _ report_not_killed [OF r], of "\<lambda>k. of_nat k" "[[], []]"] r
    by (auto simp: Let_def)
qed

end
