(* ===== verification/Construction.thy ===== *)
theory Construction
  imports EngineModel
begin

text \<open>
  What the constructors of the stages, the engine and the exchange do with sockets (\<open>feed_handler.hpp\<close>,
  \<open>order_gateway.hpp\<close>, \<open>engine.hpp\<close>, \<open>sim_exchange.hpp\<close>), and the two calls on the hot path, \<open>send_to\<close> and \<open>try_recv\<close>
  of \<open>net.hpp\<close>.

  Every constructor may throw half-way; C++ then destroys the members constructed so far, in reverse order.
  \<open>sock_then\<close> is that rule. The locale \<open>scoped_object\<close> is the contract of a class that owns descriptors: a constructor that
  throws leaves none open, and the destructor closes those of a constructor that returns. The classes
  interpret it, each from its members' contracts. The operating system's answers are the record \<open>os_calls\<close>.
\<close>

record os_calls =
  os_socket :: "nat \<Rightarrow> int"
  os_bind :: "int \<Rightarrow> sockaddr_in \<Rightarrow> int"
  os_getfl :: "int \<Rightarrow> int"
  os_setfl :: "int \<Rightarrow> int \<Rightarrow> int"
  os_nonblock :: int
  os_pton :: "string \<Rightarrow> u32 option"

subsection \<open>Constructors that may throw\<close>

text \<open>Run the first constructor and then the rest; when the rest throws, what the first made is destroyed.\<close>

definition sock_then :: "'a sock_result \<Rightarrow> ('a \<Rightarrow> fd_call list) \<Rightarrow> ('a \<Rightarrow> 'b sock_result) \<Rightarrow> 'b sock_result" where
  "sock_then r destroy f =
     (case r of
        (calls, Inl e) \<Rightarrow> (calls, Inl e)
      | (calls, Inr x) \<Rightarrow>
          (case f x of
             (calls', Inl e) \<Rightarrow> (calls @ calls' @ destroy x, Inl e)
           | (calls', Inr y) \<Rightarrow> (calls @ calls', Inr y)))"

text \<open>A call that may throw and opens nothing.\<close>

definition sock_call :: "sock_error + 'b \<Rightarrow> 'a \<Rightarrow> 'a sock_result" where
  "sock_call r x = ([], case r of Inl e \<Rightarrow> Inl e | Inr _ \<Rightarrow> Inr x)"

definition nonblocking :: "os_calls \<Rightarrow> int \<Rightarrow> sock_error + int" where
  "nonblocking os fd = udp_set_nonblocking (os_nonblock os) True (os_getfl os fd) (os_setfl os fd)"

text \<open>The \<open>k\<close>-th socket of the process, plain or bound.\<close>

definition make_socket :: "os_calls \<Rightarrow> nat \<Rightarrow> int sock_result" where
  "make_socket os k = udp_construct (os_socket os k)"

definition make_bound :: "os_calls \<Rightarrow> u16 \<Rightarrow> string \<Rightarrow> nat \<Rightarrow> int sock_result" where
  "make_bound os port addr k = udp_bound (os_pton os) (os_socket os k) (os_bind os (os_socket os k)) port addr"

definition feed_handler_sockets :: "os_calls \<Rightarrow> u16 \<Rightarrow> string \<Rightarrow> nat \<Rightarrow> int sock_result" where
  "feed_handler_sockets os port addr k =
     sock_then (make_bound os port addr k) udp_destroy (\<lambda>rx. sock_call (nonblocking os rx) rx)"

text \<open>\<open>order_tx_\<close> is declared, and so constructed, before \<open>fill_rx_\<close>.\<close>

definition gateway_sockets :: "os_calls \<Rightarrow> u16 \<Rightarrow> string \<Rightarrow> nat \<Rightarrow> (int \<times> int) sock_result" where
  "gateway_sockets os port addr k =
     sock_then (make_socket os k) udp_destroy (\<lambda>tx.
     sock_then (make_bound os port addr (k + 1)) udp_destroy (\<lambda>rx.
       sock_call (nonblocking os rx) (tx, rx)))"

definition gateway_close :: "int \<times> int \<Rightarrow> fd_call list" where
  "gateway_close s = udp_destroy (snd s) @ udp_destroy (fst s)"

definition engine_sockets :: "os_calls \<Rightarrow> engine_config \<Rightarrow> nat \<Rightarrow> (int \<times> int \<times> int) sock_result" where
  "engine_sockets os cfg k =
     sock_then (feed_handler_sockets os (ec_feed_port cfg) (ec_feed_bind cfg) k) udp_destroy (\<lambda>feed_rx.
     sock_then (gateway_sockets os (ec_fill_port cfg) (ec_fill_bind cfg) (k + 1)) gateway_close (\<lambda>gw.
       ([], Inr (feed_rx, gw))))"

definition engine_close :: "int \<times> int \<times> int \<Rightarrow> fd_call list" where
  "engine_close s = gateway_close (snd s) @ udp_destroy (fst s)"

text \<open>\<open>feed_tx_\<close>, \<open>fill_tx_\<close>, \<open>order_rx_\<close>.\<close>

definition exchange_sockets :: "os_calls \<Rightarrow> u16 \<Rightarrow> nat \<Rightarrow> (int \<times> int \<times> int) sock_result" where
  "exchange_sockets os order_port k =
     sock_then (make_socket os k) udp_destroy (\<lambda>feed_tx.
     sock_then (make_socket os (k + 1)) udp_destroy (\<lambda>fill_tx.
     sock_then (make_bound os order_port ''0.0.0.0'' (k + 2)) udp_destroy (\<lambda>order_rx.
       sock_call (nonblocking os order_rx) (feed_tx, fill_tx, order_rx))))"

definition exchange_close :: "int \<times> int \<times> int \<Rightarrow> fd_call list" where
  "exchange_close s = udp_destroy (snd (snd s)) @ udp_destroy (fst (snd s)) @ udp_destroy (fst s)"


subsection \<open>The contract of an owner\<close>

text \<open>
  \<open>opens x\<close> are the descriptors of the object, the last opened first. Whatever else is open stays open.
\<close>

definition owner_ok :: "('a \<Rightarrow> int list) \<Rightarrow> 'a sock_result \<Rightarrow> bool" where
  "owner_ok opens r \<longleftrightarrow>
     (\<forall>fs. open_fds fs (fst r) = Some ((case snd r of Inl e \<Rightarrow> [] | Inr x \<Rightarrow> opens x) @ fs))"

locale scoped_object =
  fixes make :: "'k \<Rightarrow> 'a sock_result"
    and destroy :: "'a \<Rightarrow> fd_call list"
    and opens :: "'a \<Rightarrow> int list"
  assumes make_ok: "owner_ok opens (make k)"
    and destroy_ok: "snd (make k) = Inr x \<Longrightarrow> open_fds (opens x @ fs) (destroy x) = Some fs"
begin

lemma throws_clean: "make k = (calls, Inl e) \<Longrightarrow> open_fds fs calls = Some fs"
  using make_ok [of k] by (simp add: owner_ok_def)

lemma returns_open: "make k = (calls, Inr x) \<Longrightarrow> open_fds fs calls = Some (opens x @ fs)"
  using make_ok [of k] by (simp add: owner_ok_def)

text \<open>So an object's whole life leaves the descriptors as they were.\<close>

lemma lifetime_neutral:
  "make k = (calls, r) \<Longrightarrow> open_fds fs (calls @ (case r of Inl e \<Rightarrow> [] | Inr x \<Rightarrow> destroy x)) = Some fs"
  using throws_clean [of k calls _ fs] returns_open [of k calls _ fs] destroy_ok [of k _ fs]
  by (cases r) (simp_all add: open_fds_append)

text \<open>An object as the first member of another: the rest is constructed on top of it.\<close>

lemma then_ok:
  assumes "\<And>x. snd (make k) = Inr x \<Longrightarrow> owner_ok (rest x) (f x)"
    and "\<And>x y. snd (make k) = Inr x \<Longrightarrow> snd (f x) = Inr y \<Longrightarrow> opens' y = rest x y @ opens x"
  shows "owner_ok opens' (sock_then (make k) destroy f)"
proof -
  obtain calls r where mk: "make k = (calls, r)"
    by (rule prod.exhaust)
  show ?thesis
  proof (cases r)
    case (Inl e)
    then show ?thesis
      using mk throws_clean by (simp add: sock_then_def owner_ok_def)
  next
    case (Inr x)
    obtain calls' r' where f: "f x = (calls', r')"
      by (rule prod.exhaust)
    have "open_fds fs calls = Some (opens x @ fs)" for fs
      using mk Inr returns_open by simp
    moreover have "open_fds fs calls' = Some ((case r' of Inl e \<Rightarrow> [] | Inr y \<Rightarrow> rest x y) @ fs)" for fs
      using assms(1) [of x] mk Inr f by (simp add: owner_ok_def)
    ultimately show ?thesis
      using mk f Inr destroy_ok [of k x] assms(2) [of x]
      by (cases r') (simp_all add: sock_then_def owner_ok_def open_fds_append)
  qed
qed

end

lemma owner_ok_call [simp]: "owner_ok (\<lambda>_. []) (sock_call r x)"
  by (auto simp: owner_ok_def sock_call_def split: sum.split)

lemma sock_call_result [simp]: "snd (sock_call r x) = Inr y \<longleftrightarrow> x = y \<and> (\<exists>v. r = Inr v)"
  by (auto simp: sock_call_def split: sum.split)

abbreviation one_fd :: "int \<Rightarrow> int list" where
  "one_fd fd \<equiv> [fd]"

interpretation plain_socket: scoped_object "make_socket os" udp_destroy one_fd for os
  by unfold_locales (auto simp: make_socket_def udp_construct_def udp_destroy_def owner_ok_def split: if_splits)

interpretation bound_socket: scoped_object "make_bound os port addr" udp_destroy one_fd for os port addr
proof unfold_locales
  show "owner_ok one_fd (make_bound os port addr k)" for k
    by (auto simp: make_bound_def udp_bound_def udp_construct_def udp_destroy_def owner_ok_def split: option.splits)
  show "snd (make_bound os port addr k) = Inr x \<Longrightarrow> open_fds (one_fd x @ fs) (udp_destroy x) = Some fs" for k x fs
    by (auto simp: make_bound_def udp_bound_def udp_construct_def udp_destroy_def split: option.splits if_splits)
qed


lemma snd_sock_then:
  "snd (sock_then r destroy f) = Inr y \<longleftrightarrow> (\<exists>x. snd r = Inr x \<and> snd (f x) = Inr y)"
  by (auto simp: sock_then_def split: prod.splits sum.splits)

interpretation feed_sockets: scoped_object "feed_handler_sockets os port addr" udp_destroy one_fd for os port addr
proof unfold_locales
  show "owner_ok one_fd (feed_handler_sockets os port addr k)" for k
    unfolding feed_handler_sockets_def by (rule bound_socket.then_ok [where rest = "\<lambda>_ _. []"]) auto
  show "snd (feed_handler_sockets os port addr k) = Inr x \<Longrightarrow> open_fds (one_fd x @ fs) (udp_destroy x) = Some fs" for k x fs
    using bound_socket.destroy_ok [of os port addr k x fs] by (auto simp: feed_handler_sockets_def snd_sock_then)
qed

abbreviation gateway_fds :: "int \<times> int \<Rightarrow> int list" where
  "gateway_fds s \<equiv> [snd s, fst s]"

interpretation gateway_owner: scoped_object "gateway_sockets os port addr" gateway_close gateway_fds for os port addr
proof unfold_locales
  show "owner_ok gateway_fds (gateway_sockets os port addr k)" for k
    unfolding gateway_sockets_def
    by (rule plain_socket.then_ok [where rest = "\<lambda>_ y. [snd y]"], rule bound_socket.then_ok [where rest = "\<lambda>_ _. []"])
      (auto simp: snd_sock_then)
  show "snd (gateway_sockets os port addr k) = Inr x \<Longrightarrow> open_fds (gateway_fds x @ fs) (gateway_close x) = Some fs" for k x fs
    using plain_socket.destroy_ok [of os k "fst x" fs] bound_socket.destroy_ok [of os port addr "k + 1" "snd x" "fst x # fs"]
    by (auto simp: gateway_sockets_def snd_sock_then gateway_close_def open_fds_append)
qed

abbreviation engine_fds :: "int \<times> int \<times> int \<Rightarrow> int list" where
  "engine_fds s \<equiv> gateway_fds (snd s) @ [fst s]"

interpretation engine_owner: scoped_object "engine_sockets os cfg" engine_close engine_fds for os cfg
proof unfold_locales
  show "owner_ok engine_fds (engine_sockets os cfg k)" for k
    unfolding engine_sockets_def
    by (rule feed_sockets.then_ok [where rest = "\<lambda>_ y. gateway_fds (snd y)"],
        rule gateway_owner.then_ok [where rest = "\<lambda>_ _. []"]) (auto simp: snd_sock_then owner_ok_def)
  show "snd (engine_sockets os cfg k) = Inr x \<Longrightarrow> open_fds (engine_fds x @ fs) (engine_close x) = Some fs" for k x fs
    using feed_sockets.destroy_ok [of os _ _ k "fst x" fs] gateway_owner.destroy_ok [of os _ _ "k + 1" "snd x" "fst x # fs"]
    by (auto simp: engine_sockets_def snd_sock_then engine_close_def open_fds_append)
qed

abbreviation exchange_fds :: "int \<times> int \<times> int \<Rightarrow> int list" where
  "exchange_fds s \<equiv> [snd (snd s), fst (snd s), fst s]"

interpretation exchange_owner: scoped_object "exchange_sockets os port" exchange_close exchange_fds for os port
proof unfold_locales
  show "owner_ok exchange_fds (exchange_sockets os port k)" for k
    unfolding exchange_sockets_def
    by (rule plain_socket.then_ok [where rest = "\<lambda>_ y. [snd (snd y), fst (snd y)]"],
        rule plain_socket.then_ok [where rest = "\<lambda>_ y. [snd (snd y)]"],
        rule bound_socket.then_ok [where rest = "\<lambda>_ _. []"]) (auto simp: snd_sock_then)
  show "snd (exchange_sockets os port k) = Inr x \<Longrightarrow> open_fds (exchange_fds x @ fs) (exchange_close x) = Some fs" for k x fs
    using plain_socket.destroy_ok [of os k "fst x" fs] plain_socket.destroy_ok [of os "k + 1" "fst (snd x)" "fst x # fs"]
      bound_socket.destroy_ok [of os port "''0.0.0.0''" "k + 2" "snd (snd x)" "[fst (snd x), fst x] @ fs"]
    by (auto simp: exchange_sockets_def snd_sock_then exchange_close_def open_fds_append)
qed


subsection \<open>Which descriptors they are\<close>

lemma make_socket_result: "snd (make_socket os k) = Inr fd \<longleftrightarrow> fd = os_socket os k \<and> 0 \<le> fd"
  by (auto simp: make_socket_def udp_construct_def)

lemma make_bound_result: "snd (make_bound os port addr k) = Inr fd \<Longrightarrow> fd = os_socket os k \<and> 0 \<le> fd"
  by (auto simp: make_bound_def udp_bound_def udp_construct_def split: option.splits if_splits)

lemmas constructed = snd_sock_then make_socket_result

lemma engine_sockets_result:
  assumes "snd (engine_sockets os cfg k) = Inr (feed_rx, order_tx, fill_rx)"
  shows "feed_rx = os_socket os k \<and> order_tx = os_socket os (k + 1) \<and> fill_rx = os_socket os (k + 2)
    \<and> 0 \<le> feed_rx \<and> 0 \<le> order_tx \<and> 0 \<le> fill_rx
    \<and> (\<exists>flags. nonblocking os feed_rx = Inr flags) \<and> (\<exists>flags. nonblocking os fill_rx = Inr flags)"
  using assms
  by (auto simp: engine_sockets_def feed_handler_sockets_def gateway_sockets_def constructed dest!: make_bound_result)

lemma exchange_sockets_result:
  assumes "snd (exchange_sockets os port k) = Inr (feed_tx, fill_tx, order_rx)"
  shows "feed_tx = os_socket os k \<and> fill_tx = os_socket os (k + 1) \<and> order_rx = os_socket os (k + 2)
    \<and> 0 \<le> feed_tx \<and> 0 \<le> fill_tx \<and> 0 \<le> order_rx \<and> (\<exists>flags. nonblocking os order_rx = Inr flags)"
  using assms by (auto simp: exchange_sockets_def constructed dest!: make_bound_result)


subsection \<open>Sending and receiving\<close>

text \<open>What the polls of the stages take as bytes is what \<open>try_recv\<close> returns and stores.\<close>

lemma try_recv_in_buffer:
  "udp_try_recv len inbox = (n, stored, rest) \<Longrightarrow> length stored \<le> len \<and> (n = - 1 \<or> n = int (length stored))"
  by (cases inbox) (auto simp: udp_try_recv_def)

text \<open>The two receiving loops, with the call as the source has it.\<close>

lemma drain_fills_recv:
  "drain_fills cal clock (Suc d) inbox st =
     (case udp_try_recv kExecSize inbox of (n, stored, rest) \<Rightarrow>
        if n \<noteq> int kExecSize then Some (rest, st)
        else (case handle_fill cal (clock d) (parse_exec stored) st of
                None \<Rightarrow> None
              | Some st' \<Rightarrow> drain_fills cal clock d rest st'))"
  by (cases inbox) (auto simp: udp_try_recv_def kExecSize_def split: option.split)

lemma service_orders_recv:
  "service_orders (Suc d) inbox sx =
     (case udp_try_recv kOrderSize inbox of (n, stored, rest) \<Rightarrow>
        if n \<noteq> int kOrderSize then (rest, [], sx)
        else
          let ord = parse_order stored;
              sx = sx\<lparr>sx_order_count := sx_order_count sx + 1, sx_fill_count := sx_fill_count sx + 1\<rparr>
          in case service_orders d rest sx of (left, fills, sx) \<Rightarrow> (left, encode_exec (fill_of ord) # fills, sx))"
  by (cases inbox) (auto simp: udp_try_recv_def kOrderSize_def Let_def split: prod.split)

text \<open>The feed handler's receive: nothing and an empty datagram are the same to it.\<close>

definition feed_recv :: "u8 list list \<Rightarrow> u8 list option \<times> u8 list list" where
  "feed_recv inbox = (case udp_try_recv kBufBytes inbox of (n, stored, rest) \<Rightarrow> (if n \<le> 0 then None else Some stored, rest))"

lemma feed_recv_in_buffer: "feed_recv inbox = (Some bs, rest) \<Longrightarrow> bs \<noteq> [] \<and> length bs \<le> kBufBytes"
  using try_recv_in_buffer [of kBufBytes inbox] by (auto simp: feed_recv_def split: prod.splits if_splits)


subsection \<open>Property\<close>

text \<open>
  C36. Construction is exception safe: whichever of the calls fails - a socket, a bind address, a bind, a switch to
  non-blocking mode - the constructor of the engine and that of the exchange close every descriptor they opened and
  touch no other; when one returns, its three descriptors are open, distinct, and those it receives on are
  non-blocking, and its destructor closes exactly them.
\<close>

theorem construction_exception_safe:
  fixes os :: os_calls and cfg :: engine_config
  assumes "\<And>i j. 0 \<le> os_socket os i \<Longrightarrow> os_socket os i = os_socket os j \<Longrightarrow> i = j"
  shows "(case engine_sockets os cfg k of
        (calls, Inl e) \<Rightarrow> open_fds fs calls = Some fs
      | (calls, Inr (feed_rx, order_tx, fill_rx)) \<Rightarrow>
          open_fds fs calls = Some ([fill_rx, order_tx, feed_rx] @ fs) \<and> distinct [fill_rx, order_tx, feed_rx]
          \<and> (\<exists>flags. nonblocking os feed_rx = Inr flags) \<and> (\<exists>flags. nonblocking os fill_rx = Inr flags)
          \<and> open_fds fs (calls @ engine_close (feed_rx, order_tx, fill_rx)) = Some fs)
    \<and> (case exchange_sockets os port k of
        (calls, Inl e) \<Rightarrow> open_fds fs calls = Some fs
      | (calls, Inr (feed_tx, fill_tx, order_rx)) \<Rightarrow>
          open_fds fs calls = Some ([order_rx, fill_tx, feed_tx] @ fs) \<and> distinct [order_rx, fill_tx, feed_tx]
          \<and> (\<exists>flags. nonblocking os order_rx = Inr flags)
          \<and> open_fds fs (calls @ exchange_close (feed_tx, fill_tx, order_rx)) = Some fs)"
proof (intro conjI)
  have fresh: "0 \<le> os_socket os i \<Longrightarrow> i \<noteq> j \<Longrightarrow> os_socket os i \<noteq> os_socket os j" for i j
    using assms by blast
  show "case engine_sockets os cfg k of
        (calls, Inl e) \<Rightarrow> open_fds fs calls = Some fs
      | (calls, Inr (feed_rx, order_tx, fill_rx)) \<Rightarrow>
          open_fds fs calls = Some ([fill_rx, order_tx, feed_rx] @ fs) \<and> distinct [fill_rx, order_tx, feed_rx]
          \<and> (\<exists>flags. nonblocking os feed_rx = Inr flags) \<and> (\<exists>flags. nonblocking os fill_rx = Inr flags)
          \<and> open_fds fs (calls @ engine_close (feed_rx, order_tx, fill_rx)) = Some fs"
    using engine_owner.throws_clean [of os cfg k] engine_owner.returns_open [of os cfg k]
      engine_owner.lifetime_neutral [of os cfg k] engine_sockets_result [of os cfg k] fresh
    by (auto split: sum.split)
  show "case exchange_sockets os port k of
        (calls, Inl e) \<Rightarrow> open_fds fs calls = Some fs
      | (calls, Inr (feed_tx, fill_tx, order_rx)) \<Rightarrow>
          open_fds fs calls = Some ([order_rx, fill_tx, feed_tx] @ fs) \<and> distinct [order_rx, fill_tx, feed_tx]
          \<and> (\<exists>flags. nonblocking os order_rx = Inr flags)
          \<and> open_fds fs (calls @ exchange_close (feed_tx, fill_tx, order_rx)) = Some fs"
    using exchange_owner.throws_clean [of os port k] exchange_owner.returns_open [of os port k]
      exchange_owner.lifetime_neutral [of os port k] exchange_sockets_result [of os port k] fresh
    by (auto split: sum.split)
qed

text \<open>A system that grants everything, and one where the second bind fails.\<close>

definition demo_os :: "(int \<Rightarrow> int) \<Rightarrow> os_calls" where
  "demo_os bind_rc = \<lparr>os_socket = (\<lambda>k. int k + 3), os_bind = (\<lambda>fd sa. bind_rc fd), os_getfl = (\<lambda>fd. 2),
     os_setfl = (\<lambda>fd flags. 0), os_nonblock = 2048, os_pton = (\<lambda>_. Some 0)\<rparr>"

theorem construction_exception_safe_witness:
  "open_fds [0, 1, 2] (fst (engine_sockets (demo_os (\<lambda>fd. if fd = 5 then - 1 else 0)) demo_cfg 0)) = Some [0, 1, 2]"
proof -
  let ?os = "demo_os (\<lambda>fd. if fd = 5 then - 1 else 0)"
  have "snd (engine_sockets ?os demo_cfg 0) = Inl (Errno ''bind'')"
    by (simp add: engine_sockets_def feed_handler_sockets_def gateway_sockets_def sock_then_def sock_call_def make_socket_def
        make_bound_def udp_bound_def udp_construct_def nonblocking_def udp_set_nonblocking_def demo_os_def Let_def)
  moreover have "0 \<le> os_socket ?os i \<Longrightarrow> os_socket ?os i = os_socket ?os j \<Longrightarrow> i = j" for i j
    by (simp add: demo_os_def)
  ultimately show ?thesis
    using construction_exception_safe [where os = ?os and cfg = demo_cfg and k = 0 and fs = "[0, 1, 2]" and port = 0] by (auto split: prod.splits)
qed

end
