(* ===== verification/HarnessRun.thy ===== *)
theory HarnessRun
  imports Ledger Programs Construction
begin

text \<open>
  The engine and the exchange in one process, as \<open>tools/latency_report.cpp\<close> runs them: four threads, the
  two loopback links between them and the main thread that starts and stops them. To the turns of \<open>EngineRun\<close>
  come those of the exchange's thread, whose \<open>run\<close> (\<open>sim_exchange.hpp\<close>) is a state machine here: it opens with two
  quotes, then alternates between a step of the walk and a round of order service until it is told to stop,
  and flushes what is left. A turn that receives market data names a datagram among those the exchange has
  published, so the feed link may lose, repeat and reorder as well.

  Three invariants, one for each side and one for what passes between them, are kept by every turn: \<open>governed\<close> (the
  engine), \<open>published\<close> (the exchange) and \<open>learned\<close> (what the strategy's book knows of the feed).
\<close>

subsection \<open>The threads\<close>

datatype exchange_pc = Opening | Stepping | Serving | Finished

record harness =
  hs_machine :: machine
  hs_pc :: exchange_pc
  hs_publishing :: bool
  hs_reads :: nat
  hs_feed :: "u8 list list"
  hs_got :: "nat list"

text \<open>\<open>hs_reads\<close> counts the clock readings of the exchange, \<open>hs_got\<close> lists the datagrams of the feed that were received.\<close>

definition publish :: "exchange_pc \<Rightarrow> harness \<Rightarrow> u8 list list \<times> nat \<times> exchange \<Rightarrow> harness" where
  "publish pc h r = (case r of (out, k, sx) \<Rightarrow>
     h\<lparr>hs_machine := (hs_machine h)\<lparr>mc_exchange := sx\<rparr>, hs_pc := pc, hs_reads := k, hs_feed := hs_feed h @ out\<rparr>)"

definition exchange_thread :: "(nat \<Rightarrow> u64) \<Rightarrow> nat list \<Rightarrow> harness \<Rightarrow> harness option" where
  "exchange_thread clock pick h =
     (let sx = mc_exchange (hs_machine h); k = hs_reads h in
      case hs_pc h of
        Opening \<Rightarrow> map_option (publish Stepping h) (sx_open clock (k, sx))
      | Stepping \<Rightarrow>
          (if hs_publishing h then map_option (publish Serving h) (sx_step clock (k, sx))
           else case sx_flush sx of (out, sx) \<Rightarrow> Some (publish Finished h (out, k, sx)))
      | Serving \<Rightarrow> Some (h\<lparr>hs_machine := exchange_turn pick (hs_machine h), hs_pc := Stepping\<rparr>)
      | Finished \<Rightarrow> Some h)"

datatype harness_action =
    ReceiveTurn "nat option" u64 "nat \<Rightarrow> u64"
  | DecideTurn u64 u64
  | RouteTurn poll_env "nat list"
  | ExchangeThread "nat list"
  | HaltExchange

text \<open>What waits on the feed socket at a poll: nothing, or one of the datagrams published so far.\<close>

definition picked :: "nat option \<Rightarrow> 'a list \<Rightarrow> nat list" where
  "picked i sent = (case i of None \<Rightarrow> [] | Some i \<Rightarrow> if i < length sent then [i] else [])"

definition stage_turn :: "tsc_calibration \<Rightarrow> turn \<Rightarrow> harness \<Rightarrow> harness option" where
  "stage_turn cal t h = map_option (\<lambda>mc. h\<lparr>hs_machine := mc\<rparr>) (engine_turn cal t (hs_machine h))"

primrec harness_turn :: "tsc_calibration \<Rightarrow> (nat \<Rightarrow> u64) \<Rightarrow> harness_action \<Rightarrow> harness \<Rightarrow> harness option" where
  "harness_turn cal clock (ReceiveTurn i arrival stamps) h =
     (let got = picked i (hs_feed h); recv = fst (feed_recv (map ((!) (hs_feed h)) got)) in
      map_option (\<lambda>h. h\<lparr>hs_got := hs_got h @ got\<rparr>) (stage_turn cal (FeedTurn recv arrival stamps) h))"
| "harness_turn cal clock (DecideTurn t0 t1) h = stage_turn cal (StrategyTurn t0 t1) h"
| "harness_turn cal clock (RouteTurn env pick) h = stage_turn cal (GatewayTurn env pick) h"
| "harness_turn cal clock (ExchangeThread pick) h = exchange_thread clock pick h"
| "harness_turn cal clock HaltExchange h = Some (h\<lparr>hs_publishing := False\<rparr>)"

primrec harness_run :: "tsc_calibration \<Rightarrow> (nat \<Rightarrow> u64) \<Rightarrow> harness_action list \<Rightarrow> harness \<Rightarrow> harness option" where
  "harness_run cal clock [] h = Some h"
| "harness_run cal clock (t # ts) h = Option.bind (harness_turn cal clock t h) (harness_run cal clock ts)"

text \<open>
  The main thread: the stages are started, then the exchange; after the sleep the exchange is told to stop and
  joined, and then the engine. \<^const>\<open>None\<close> is also a join that does not return within the schedule.
\<close>

definition harness_start :: "threads \<Rightarrow> report_setup \<Rightarrow> harness" where
  "harness_start th r =
     \<lparr>hs_machine = \<lparr>mc_sys = (report_system r)\<lparr>sy_en := engine_start (rs_engine r)\<rparr>, mc_exchange = rs_exchange r,
                    mc_threads = th, mc_idles = []\<rparr>,
      hs_pc = Opening, hs_publishing = True, hs_reads = 0, hs_feed = [], hs_got = []\<rparr>"

definition harness_main ::
    "tsc_calibration \<Rightarrow> (nat \<Rightarrow> u64) \<Rightarrow> harness_action list \<Rightarrow> harness_action list \<Rightarrow> threads \<Rightarrow> report_setup \<Rightarrow> harness option" where
  "harness_main cal clock asleep joining th r =
     Option.bind (harness_run cal clock asleep (harness_start th r)) (\<lambda>h.
     Option.bind (harness_run cal clock (HaltExchange # joining) h) (\<lambda>h.
       if hs_pc h = Finished then stage_turn cal StopTurn h else None))"


subsection \<open>The exchange's side\<close>

text \<open>
  Everything published so far, with what is still encoded in the open datagram, leads a book to the exchange's
  quotes.
\<close>

definition published :: "(i64 \<Rightarrow> nat option) \<Rightarrow> rat \<Rightarrow> sx_config \<Rightarrow> harness \<Rightarrow> bool" where
  "published index cpn cf h \<longleftrightarrow>
     (let sx = mc_exchange (hs_machine h); log = received (hs_feed h) @ pending sx in
      (\<forall>d \<in> set (hs_feed h). datagram_ok d) \<and> sx_feed_count sx = of_nat (length log) \<and>
      (if hs_pc h = Opening then sx = exchange_init cpn cf \<and> hs_feed h = []
       else tracks index cf sx (fold (ref_apply index) log (\<lambda>_ _. 0))) \<and>
      (hs_pc h = Finished \<longrightarrow> pending sx = []))"

lemma tracks_ok: "tracks index cf sx lv \<Longrightarrow> sx_ok sx"
  by (simp add: tracks_def)

lemma tracks_service:
  assumes "service_orders d inbox sx = (left, fills, sx')"
  shows "tracks index cf sx' lv = tracks index cf sx lv"
  using service_orders_frame [OF assms] walk_ok_quotes [of sx' sx cf] shows_quotes_frame [of sx' sx index lv]
  by (simp add: tracks_def)

lemma tracks_flush:
  assumes "sx_flush sx = (out, sx')" "tracks index cf sx lv"
  shows "tracks index cf sx' lv"
proof -
  have "quotes sx' = quotes sx"
    using sx_flush_spec(3) [OF assms(1)] by (simp add: quotes_eq)
  then show ?thesis
    using assms(2) sx_flush_spec(4) [OF assms(1)] walk_ok_quotes [of sx' sx cf] shows_quotes_frame [of sx' sx index lv]
    by (simp add: tracks_def)
qed

text \<open>Publishing what the exchange has emitted.\<close>

lemma publish_published:
  assumes "published index cpn cf h" "emits n (mc_exchange (hs_machine h)) out sx" "pc \<noteq> Opening"
    and "tracks index cf sx (fold (ref_apply index) (received (hs_feed h) @ received out @ pending sx) (\<lambda>_ _. 0))"
    and "pc = Finished \<Longrightarrow> pending sx = []"
  shows "published index cpn cf (publish pc h (out, k, sx))"
proof -
  let ?sx = "mc_exchange (hs_machine h)"
  have "length (received (hs_feed h) @ received out @ pending sx) = length (received (hs_feed h) @ pending ?sx) + n"
    using assms(2) by (simp add: emits_def)
  then have "sx_feed_count sx = of_nat (length (received (hs_feed h) @ received out @ pending sx))"
    using assms(1,2) by (simp only: published_def emits_def Let_def of_nat_add)
  then show ?thesis
    using assms(1-3,5) assms(4) by (auto simp: published_def publish_def emits_def Let_def)
qed

lemma exchange_thread_published:
  assumes "exchange_thread clock pick h = Some h'" "published index cpn cf h" "sees_band index cf j" "cfg_fits cf"
  shows "published index cpn cf h'"
proof (cases "hs_pc h")
  case Opening
  with assms(1) obtain out k sx where
    op: "sx_open clock (hs_reads h, mc_exchange (hs_machine h)) = Some (out, k, sx)"
    and h': "h' = publish Stepping h (out, k, sx)"
    by (auto simp: exchange_thread_def Let_def)
  have init: "mc_exchange (hs_machine h) = exchange_init cpn cf" "hs_feed h = []"
    using assms(2) Opening by (simp_all add: published_def Let_def)
  have "tracks index cf sx (fold (ref_apply index) (received out @ pending sx) (\<lambda>_ _. 0))"
    using open_tracks [OF op [unfolded init(1)] assms(3)] by blast
  moreover have "emits 2 (mc_exchange (hs_machine h)) out sx"
    using emits_open [OF op] sx_ok_init(1) by (simp add: init)
  ultimately show ?thesis
    unfolding h' by (intro publish_published [OF assms(2)]) (simp_all add: init)
next
  case Stepping
  let ?sx = "mc_exchange (hs_machine h)"
  let ?lv = "fold (ref_apply index) (received (hs_feed h) @ pending ?sx) (\<lambda>_ _. 0)"
  have tr: "tracks index cf ?sx ?lv"
    using assms(2) Stepping by (simp add: published_def Let_def)
  show ?thesis
  proof (cases "hs_publishing h")
    case True
    with assms(1) Stepping obtain out k sx where
      step: "sx_step clock (hs_reads h, ?sx) = Some (out, k, sx)" and h': "h' = publish Serving h (out, k, sx)"
      by (auto simp: exchange_thread_def Let_def)
    obtain ms where "received out @ pending sx = pending ?sx @ ms" "tracks index cf sx (fold (ref_apply index) ms ?lv)"
      using step_tracks [OF step tr assms(3,4)] by blast
    then show ?thesis
      unfolding h' using emits_step [OF step tracks_ok [OF tr]] by (intro publish_published [OF assms(2)]) simp_all
  next
    case False
    obtain out sx where fl: "sx_flush ?sx = (out, sx)"
      by (rule prod.exhaust)
    with assms(1) Stepping False have h': "h' = publish Finished h (out, hs_reads h, sx)"
      by (simp add: exchange_thread_def Let_def)
    show ?thesis
      unfolding h' using emits_flush [OF fl tracks_ok [OF tr]] sx_flush_spec(1,2) [OF fl] tracks_flush [OF fl tr]
      by (intro publish_published [OF assms(2)]) simp_all
  qed
next
  case Serving
  obtain left fills sx where
    serve: "service_orders 32 (delivered pick (sy_orders (mc_sys (hs_machine h)))) (mc_exchange (hs_machine h)) = (left, fills, sx)"
    by (rule prod_cases3)
  then show ?thesis
    using assms(1,2) Serving service_orders_frame(2,4) [OF serve] tracks_service [OF serve]
    by (auto simp: exchange_thread_def exchange_turn_def published_def Let_def)
next
  case Finished
  then show ?thesis
    using assms(1,2) by (simp add: exchange_thread_def Let_def)
qed


subsection \<open>The engine's side\<close>

text \<open>Between turns, with \<open>k\<close> order numbers to spare, orders of size \<open>z\<close>, and neither stopped nor killed.\<close>

definition governed :: "u32 \<Rightarrow> nat \<Rightarrow> machine \<Rightarrow> bool" where
  "governed z k mc \<longleftrightarrow>
     (\<exists>ph. in_phase z ph (mc_sys mc)) \<and> gate_open z (mc_sys mc) \<and> books_balance (mc_sys mc)
     \<and> sy_ev (mc_sys mc) = None \<and> length (sy_orders (mc_sys mc)) + k < 2 ^ 64
     \<and> en_running (sy_en (mc_sys mc)) \<and> \<not> en_kill (sy_en (mc_sys mc))"

primrec is_stage :: "turn \<Rightarrow> bool" where
  "is_stage (FeedTurn recv arrival stamps) = True"
| "is_stage (StrategyTurn t0 t1) = True"
| "is_stage (GatewayTurn env pick) = True"
| "is_stage (ExchangeTurn pick) = False"
| "is_stage KillTurn = False"
| "is_stage StopTurn = False"

text \<open>A stage does not touch the flags, nor the exchange.\<close>

lemma stage_frame:
  assumes "engine_turn cal t mc = Some mc'" "is_stage t"
  shows "en_running (sy_en (mc_sys mc')) = en_running (sy_en (mc_sys mc))" "en_kill (sy_en (mc_sys mc')) = en_kill (sy_en (mc_sys mc))"
    "mc_exchange mc' = mc_exchange mc"
  using assms
  by (cases t; auto simp: feed_turn_def strategy_turn_def gateway_turn_def Let_def split: if_splits option.splits prod.splits)+

lemma governed_runs:
  assumes "governed z k mc" "sys_runs cal (mc_sys mc) s" "sy_ev s = None"
    and "length (sy_orders s) \<le> Suc (length (sy_orders (mc_sys mc)))" "0 < k"
    and "en_running (sy_en s)" "\<not> en_kill (sy_en s)" "mc_sys mc' = s"
  shows "governed z (k - 1) mc'"
proof -
  obtain ph where ph: "in_phase z ph (mc_sys mc)"
    using assms(1) by (auto simp: governed_def)
  have "length (sy_orders (mc_sys mc)) + k < 2 ^ 64"
    using assms(1) by (simp only: governed_def)
  then have spare: "length (sy_orders s) + (k - 1) < 2 ^ 64"
    using assms(4,5) by linarith
  then have len: "length (sy_orders s) < 2 ^ 64"
    by linarith
  have "gate_open z (mc_sys mc)" "books_balance (mc_sys mc)"
    using assms(1) by (simp_all add: governed_def)
  then have "gate_open z s" "books_balance s"
    using runs_gate_open [OF assms(2) _ ph len] runs_balance [OF assms(2) _ ph len] by blast+
  then show ?thesis
    unfolding governed_def assms(8) using assms(3,6,7) spare sys_runs_phase [OF assms(2) ph len] by blast
qed

lemma governed_stage:
  assumes "governed z (Suc k) mc" "is_stage t"
  obtains mc' where "engine_turn cal t mc = Some mc'" "governed z k mc'" "mc_exchange mc' = mc_exchange mc"
proof -
  obtain ph where "in_phase z ph (mc_sys mc)"
    using assms(1) by (auto simp: governed_def)
  then obtain mc' where mc': "engine_turn cal t mc = Some mc'"
    using engine_turn_returns by blast
  have g: "sy_ev (mc_sys mc) = None" "en_running (sy_en (mc_sys mc))" "\<not> en_kill (sy_en (mc_sys mc))"
    using assms(1) by (simp_all add: governed_def)
  have "governed z (Suc k - 1) mc'"
    using engine_turn_runs [OF mc' g(1)] stage_frame(1,2) [OF mc' assms(2)] g(2,3)
    by (intro governed_runs [OF assms(1)]) auto
  then show thesis
    using that [OF mc'] stage_frame(3) [OF mc' assms(2)] by simp
qed

lemma governed_exchange: "governed z (Suc k) mc \<Longrightarrow> governed z k (exchange_turn pick mc)"
  using governed_runs [of z "Suc k" mc _ "mc_sys (exchange_turn pick mc)" "exchange_turn pick mc"] exchange_turn_runs [of _ mc pick]
  by (auto simp: governed_def) (auto simp: exchange_turn_def Let_def split: prod.splits)


subsection \<open>What the strategy's book knows\<close>

text \<open>
  Every message received was processed, waits in the queue or was dropped; and as long as none was dropped, the book,
  once it has taken what waits, is the book of all the messages received.
\<close>

definition learned :: "book \<Rightarrow> harness \<Rightarrow> bool" where
  "learned b0 h \<longleftrightarrow>
     (let en = sy_en (mc_sys (hs_machine h)); log = received (map ((!) (hs_feed h)) (hs_got h));
          queued = map ev_msg (spsc_contents (en_feed_q en))
      in set (hs_got h) \<subseteq> {..<length (hs_feed h)} \<and>
         (\<exists>popped lost. sr_processed (en_strat en) = of_nat popped \<and> fh_dropped (en_feed en) = of_nat lost \<and>
            popped + length queued + lost = length log \<and>
            (lost = 0 \<longrightarrow> fold apply_msg queued (st_book (sr_strat (en_strat en))) = fold apply_msg log b0)))"

text \<open>What does not touch the feed's queue and its two ends changes nothing.\<close>

lemma learned_frame:
  assumes "learned b0 h" "hs_feed h' = hs_feed h @ out" "hs_got h' = hs_got h"
  defines "en \<equiv> sy_en (mc_sys (hs_machine h))" and "en' \<equiv> sy_en (mc_sys (hs_machine h'))"
  assumes "en_feed en' = en_feed en" "spsc_contents (en_feed_q en') = spsc_contents (en_feed_q en)" "en_strat en' = en_strat en"
  shows "learned b0 h'"
proof -
  have "set (hs_got h) \<subseteq> {..<length (hs_feed h)}"
    using assms(1) by (simp add: learned_def Let_def)
  then have "map ((!) (hs_feed h @ out)) (hs_got h) = map ((!) (hs_feed h)) (hs_got h)"
    "set (hs_got h) \<subseteq> {..<length (hs_feed h @ out)}"
    by (auto simp: nth_append)
  then show ?thesis
    using assms(1) unfolding learned_def Let_def assms(2,3) assms(6-8) [unfolded en_def en'_def] by (simp only: simp_thms)
qed

lemma feed_recv_datagram: "datagram_ok d \<Longrightarrow> feed_recv [d] = (Some d, [])"
  by (auto simp: feed_recv_def udp_try_recv_def datagram_ok_def kBufBytes_def kMaxMsgsPerDatagram_def kMsgSize_def Let_def)

lemma feed_turn_receives:
  assumes "engine_turn cal (FeedTurn (Some bs) arrival stamps) mc = Some mc'" "en_running (sy_en (mc_sys mc))"
    and "spsc_inv (en_feed_q (sy_en (mc_sys mc)))"
  defines "en \<equiv> sy_en (mc_sys mc)" and "en' \<equiv> sy_en (mc_sys mc')" and "ms \<equiv> map parse_message (frames kMsgSize bs)"
  obtains put where "put \<le> length ms" "put = min (queue_room (en_feed_q en)) (length ms)" "en_strat en' = en_strat en"
    "map ev_msg (spsc_contents (en_feed_q en')) = map ev_msg (spsc_contents (en_feed_q en)) @ take put ms"
    "fh_dropped (en_feed en') = fh_dropped (en_feed en) + of_nat (length ms - put)"
proof -
  define put where "put = min (queue_room (en_feed_q en)) (length ms)"
  obtain fh q where poll: "feed_poll_once cal (Some bs) arrival stamps (en_feed en, en_feed_q en) = Some (put, fh, q)"
    and q: "spsc_contents q = spsc_contents (en_feed_q en) @ take put (map (stamp_event arrival) ms)"
    "fh_dropped fh = fh_dropped (en_feed en) + of_nat (length ms - put)"
    using feed_poll_spec [OF assms(3), where cal = cal and bs = bs and arrival = arrival and clock = stamps and fh = "en_feed en"]
    unfolding ms_def put_def en_def by blast
  have "en_feed en' = fh" "en_feed_q en' = q" "en_strat en' = en_strat en"
    using assms(1,2) poll unfolding en_def en'_def by (auto simp: feed_turn_def Let_def split: prod.splits)
  with q show thesis
    by (intro that [of put]) (simp_all add: put_def take_map comp_def)
qed

lemma strategy_turn_learns:
  assumes "engine_turn cal (StrategyTurn t0 t1) mc = Some mc'" "en_running (sy_en (mc_sys mc))" "queues_ok (sy_en (mc_sys mc))"
  defines "en \<equiv> sy_en (mc_sys mc)" and "en' \<equiv> sy_en (mc_sys mc')"
  shows "en_feed en' = en_feed en"
    and "spsc_contents (en_feed_q en') = tl (spsc_contents (en_feed_q en))"
    and "sr_processed (en_strat en') = sr_processed (en_strat en) + (if spsc_contents (en_feed_q en) = [] then 0 else 1)"
    and "st_book (sr_strat (en_strat en')) =
      fold apply_msg (take 1 (map ev_msg (spsc_contents (en_feed_q en)))) (st_book (sr_strat (en_strat en)))"
proof -
  have inv: "spsc_inv (en_feed_q en)" "spsc_inv (en_order_q en)" "spsc_inv (en_fill_q en)"
    using assms(3) by (simp_all add: queues_ok_def en_def)
  obtain worked sr feed orders fills where
    poll: "strategy_poll cal t0 t1 (en_strat en, en_feed_q en, en_order_q en, Some (en_fill_q en))
      = Some (worked, sr, feed, orders, Some fills)"
    using assms(1,2) unfolding en_def by (auto simp: strategy_turn_def Let_def split: option.splits)
  have en': "en_feed en' = en_feed en" "en_feed_q en' = feed" "en_strat en' = sr"
    using assms(1,2) poll unfolding en_def en'_def by (auto simp: strategy_turn_def Let_def split: prod.splits)
  note spec = strategy_poll_spec [OF inv, where cal = cal and ?t0.0 = t0 and ?t1.0 = t1 and sr = "en_strat en", unfolded poll]
  show "en_feed en' = en_feed en" "spsc_contents (en_feed_q en') = tl (spsc_contents (en_feed_q en))"
    using spec en' by auto
  show "sr_processed (en_strat en') = sr_processed (en_strat en) + (if spsc_contents (en_feed_q en) = [] then 0 else 1)"
    using spec en' by (auto simp: Let_def)
  show "st_book (sr_strat (en_strat en')) =
      fold apply_msg (take 1 (map ev_msg (spsc_contents (en_feed_q en)))) (st_book (sr_strat (en_strat en)))"
    using spec en' by (cases "spsc_contents (en_feed_q en)") (auto simp: Let_def on_md_book on_fills_book)
qed

lemma picked_cases:
  obtains "picked i sent = []" | n where "picked i sent = [n]" "n < length sent"
  unfolding picked_def by (cases i; cases "the i < length sent") auto

lemma receive_turn_datagram:
  assumes "harness_turn cal clock (ReceiveTurn i arrival stamps) h = Some h'" "picked i (hs_feed h) = [n]"
    and "datagram_ok (hs_feed h ! n)"
  obtains mc' where "engine_turn cal (FeedTurn (Some (hs_feed h ! n)) arrival stamps) (hs_machine h) = Some mc'"
    "h' = h\<lparr>hs_machine := mc', hs_got := hs_got h @ [n]\<rparr>"
proof -
  have "map_option (\<lambda>mc. h\<lparr>hs_machine := mc, hs_got := hs_got h @ [n]\<rparr>)
      (engine_turn cal (FeedTurn (Some (hs_feed h ! n)) arrival stamps) (hs_machine h)) = Some h'"
    using assms(1,2) feed_recv_datagram [OF assms(3)]
    by (simp add: stage_turn_def Let_def option.map_comp comp_def del: engine_turn.simps)
  then show thesis
    using that by (auto simp del: engine_turn.simps)
qed

lemma learned_receive:
  assumes "harness_turn cal clock (ReceiveTurn i arrival stamps) h = Some h'" "learned b0 h"
    and "\<forall>d \<in> set (hs_feed h). datagram_ok d"
    and "en_running (sy_en (mc_sys (hs_machine h)))" "spsc_inv (en_feed_q (sy_en (mc_sys (hs_machine h))))"
  shows "learned b0 h'"
proof (cases rule: picked_cases [of i "hs_feed h"])
  case 1
  then have "fst (feed_recv (map ((!) (hs_feed h)) (picked i (hs_feed h)))) = None"
    by (simp add: feed_recv_def udp_try_recv_def)
  with assms(1,4) 1 show ?thesis
    by (intro learned_frame [OF assms(2), of h' "[]"])
      (auto simp: stage_turn_def feed_turn_def feed_poll_once_def Let_def split: prod.splits)
next
  case (2 n)
  let ?d = "hs_feed h ! n" and ?en = "sy_en (mc_sys (hs_machine h))"
  obtain mc' where turn: "engine_turn cal (FeedTurn (Some ?d) arrival stamps) (hs_machine h) = Some mc'"
    and h': "h' = h\<lparr>hs_machine := mc', hs_got := hs_got h @ [n]\<rparr>"
    using receive_turn_datagram [OF assms(1) 2(1)] assms(3) 2(2) by auto
  define ms where "ms = map parse_message (frames kMsgSize ?d)"
  obtain put where put: "put \<le> length ms" "en_strat (sy_en (mc_sys mc')) = en_strat ?en"
    "map ev_msg (spsc_contents (en_feed_q (sy_en (mc_sys mc')))) = map ev_msg (spsc_contents (en_feed_q ?en)) @ take put ms"
    "fh_dropped (en_feed (sy_en (mc_sys mc'))) = fh_dropped (en_feed ?en) + of_nat (length ms - put)"
    using feed_turn_receives [OF turn assms(4,5)] unfolding ms_def by metis
  define log where "log = received (map ((!) (hs_feed h)) (hs_got h))"
  have log': "received (map ((!) (hs_feed h')) (hs_got h')) = log @ ms"
    by (simp add: h' log_def ms_def)
  obtain popped lost where old: "set (hs_got h) \<subseteq> {..<length (hs_feed h)}"
    "sr_processed (en_strat ?en) = of_nat popped" "fh_dropped (en_feed ?en) = of_nat lost"
    "popped + length (spsc_contents (en_feed_q ?en)) + lost = length log"
    "lost = 0 \<longrightarrow> fold apply_msg (map ev_msg (spsc_contents (en_feed_q ?en))) (st_book (sr_strat (en_strat ?en))) = fold apply_msg log b0"
    using assms(2) by (auto simp: learned_def Let_def log_def)
  have len: "length (spsc_contents (en_feed_q (sy_en (mc_sys mc')))) = length (spsc_contents (en_feed_q ?en)) + put"
    using arg_cong [OF put(3), of length] put(1) by simp
  have "lost + (length ms - put) = 0 \<longrightarrow> fold apply_msg (map ev_msg (spsc_contents (en_feed_q (sy_en (mc_sys (hs_machine h'))))))
      (st_book (sr_strat (en_strat (sy_en (mc_sys (hs_machine h')))))) = fold apply_msg (log @ ms) b0"
    using old(5) put(1) by (simp add: h' put(2,3))
  moreover have "set (hs_got h') \<subseteq> {..<length (hs_feed h')}"
    using old(1) 2(2) by (simp add: h')
  ultimately show ?thesis
    unfolding learned_def Let_def log'
    by (intro conjI exI [of _ popped] exI [of _ "lost + (length ms - put)"]) (use old put(1,2,4) len in \<open>simp_all add: h'\<close>)
qed

lemma learned_decide:
  assumes "harness_turn cal clock (DecideTurn t0 t1) h = Some h'" "learned b0 h"
    and "en_running (sy_en (mc_sys (hs_machine h)))" "queues_ok (sy_en (mc_sys (hs_machine h)))"
  shows "learned b0 h'"
proof -
  let ?en = "sy_en (mc_sys (hs_machine h))" and ?en' = "sy_en (mc_sys (hs_machine h'))"
  obtain mc' where turn: "engine_turn cal (StrategyTurn t0 t1) (hs_machine h) = Some mc'" and h': "h' = h\<lparr>hs_machine := mc'\<rparr>"
    using assms(1) by (auto simp: stage_turn_def)
  note eff = strategy_turn_learns [OF turn assms(3,4)]
  define log where "log = received (map ((!) (hs_feed h)) (hs_got h))"
  obtain popped lost where old: "set (hs_got h) \<subseteq> {..<length (hs_feed h)}"
    "sr_processed (en_strat ?en) = of_nat popped" "fh_dropped (en_feed ?en) = of_nat lost"
    "popped + length (spsc_contents (en_feed_q ?en)) + lost = length log"
    "lost = 0 \<longrightarrow> fold apply_msg (map ev_msg (spsc_contents (en_feed_q ?en))) (st_book (sr_strat (en_strat ?en))) = fold apply_msg log b0"
    using assms(2) by (auto simp: learned_def Let_def log_def)
  let ?n = "length (take 1 (spsc_contents (en_feed_q ?en)))"
  have "sr_processed (en_strat ?en') = of_nat (popped + ?n)" "fh_dropped (en_feed ?en') = of_nat lost"
    "popped + ?n + length (map ev_msg (spsc_contents (en_feed_q ?en'))) + lost = length log"
    "lost = 0 \<longrightarrow> fold apply_msg (map ev_msg (spsc_contents (en_feed_q ?en'))) (st_book (sr_strat (en_strat ?en'))) = fold apply_msg log b0"
    using old(2-5) eff by (cases "spsc_contents (en_feed_q ?en)"; simp add: h')+
  with old(1) show ?thesis
    unfolding learned_def Let_def h' log_def
    by (intro conjI exI [of _ "popped + ?n"] exI [of _ lost]) (simp_all add: h')
qed

lemma learned_route:
  assumes "harness_turn cal clock (RouteTurn env pick) h = Some h'" "learned b0 h"
  shows "learned b0 h'"
  using assms(1)
  by (intro learned_frame [OF assms(2), of h' "[]"])
    (auto simp: stage_turn_def gateway_turn_def Let_def split: if_splits option.splits prod.splits)

lemma learned_exchange:
  assumes "exchange_thread clock pick h = Some h'" "learned b0 h"
  shows "learned b0 h'"
proof -
  obtain out where "hs_feed h' = hs_feed h @ out"
    using assms(1) by (auto simp: exchange_thread_def publish_def Let_def split: exchange_pc.splits if_splits prod.splits)
  then show ?thesis
    using assms(1) by (intro learned_frame [OF assms(2), of h' out])
      (auto simp: exchange_thread_def exchange_turn_def publish_def Let_def split: exchange_pc.splits if_splits prod.splits)
qed


subsection \<open>Every turn returns\<close>

definition harness_ok ::
    "book \<Rightarrow> (i64 \<Rightarrow> nat option) \<Rightarrow> rat \<Rightarrow> sx_config \<Rightarrow> u32 \<Rightarrow> (nat \<Rightarrow> u64) \<Rightarrow> nat \<Rightarrow> harness \<Rightarrow> bool" where
  "harness_ok b0 index cpn cf z clock k h \<longleftrightarrow> governed z k (hs_machine h) \<and> published index cpn cf h \<and> learned b0 h
     \<and> sends_on clock (mc_exchange (hs_machine h))"

lemma governed_less: "governed z (Suc k) mc \<Longrightarrow> governed z k mc"
  by (auto simp: governed_def)

lemma published_frame:
  "published index cpn cf h \<Longrightarrow> mc_exchange (hs_machine h') = mc_exchange (hs_machine h) \<Longrightarrow> hs_pc h' = hs_pc h \<Longrightarrow>
   hs_feed h' = hs_feed h \<Longrightarrow> published index cpn cf h'"
  by (simp only: published_def)

lemma told_to_stop [simp]:
  "learned b0 (h\<lparr>hs_publishing := b\<rparr>) = learned b0 h"
  "published index cpn cf (h\<lparr>hs_publishing := b\<rparr>) = published index cpn cf h"
  by (simp_all add: learned_def published_def)

lemma exchange_thread_returns:
  assumes "sends_on clock (mc_exchange (hs_machine h))"
  shows "\<exists>h'. exchange_thread clock pick h = Some h' \<and> sends_on clock (mc_exchange (hs_machine h'))
    \<and> (mc_sys (hs_machine h') = mc_sys (hs_machine h) \<or> hs_machine h' = exchange_turn pick (hs_machine h))"
proof (cases "hs_pc h")
  case Opening
  then show ?thesis
    using sx_open_returns [OF assms, of "hs_reads h"] by (auto simp: exchange_thread_def publish_def Let_def)
next
  case Stepping
  obtain out sx where "sx_flush (mc_exchange (hs_machine h)) = (out, sx)"
    by (rule prod.exhaust)
  then show ?thesis
    using Stepping assms sx_step_returns [OF assms, of "hs_reads h"] sx_flush_pacing [of "mc_exchange (hs_machine h)" out sx]
    by (auto simp: exchange_thread_def publish_def sends_on_def Let_def)
next
  case Serving
  obtain left fills sx where
    "service_orders 32 (delivered pick (sy_orders (mc_sys (hs_machine h)))) (mc_exchange (hs_machine h)) = (left, fills, sx)"
    by (rule prod_cases3)
  then show ?thesis
    using Serving assms service_orders_frame(5) by (auto simp: exchange_thread_def exchange_turn_def sends_on_def Let_def)
qed (use assms in \<open>simp add: exchange_thread_def Let_def\<close>)

lemma governed_exchange_thread:
  assumes "governed z (Suc k) (hs_machine h)"
    and "mc_sys (hs_machine h') = mc_sys (hs_machine h) \<or> hs_machine h' = exchange_turn pick (hs_machine h)"
  shows "governed z k (hs_machine h')"
  using assms(2)
proof
  assume "mc_sys (hs_machine h') = mc_sys (hs_machine h)"
  with governed_less [OF assms(1)] show ?thesis
    by (simp add: governed_def)
qed (use governed_exchange [OF assms(1)] in simp)

text \<open>What the other parts need of the engine.\<close>

lemma harness_ok_engine:
  assumes "harness_ok b0 index cpn cf z clock k h"
  shows "en_running (sy_en (mc_sys (hs_machine h)))" "queues_ok (sy_en (mc_sys (hs_machine h)))"
    "spsc_inv (en_feed_q (sy_en (mc_sys (hs_machine h))))" "\<forall>d \<in> set (hs_feed h). datagram_ok d"
    "learned b0 h"
  using assms by (auto simp: harness_ok_def governed_def in_phase_simps queues_ok_def published_def)

text \<open>A stage's turn, with the datagrams it received; what the book learns is left to the stage.\<close>

lemma stage_turn_ok:
  assumes "harness_ok b0 index cpn cf z clock (Suc k) h" "is_stage t"
    and "\<And>h'. stage_turn cal t h = Some h' \<Longrightarrow> learned b0 (h'\<lparr>hs_got := hs_got h' @ got\<rparr>)"
  shows "\<exists>h'. map_option (\<lambda>h. h\<lparr>hs_got := hs_got h @ got\<rparr>) (stage_turn cal t h) = Some h'
    \<and> harness_ok b0 index cpn cf z clock k h'"
proof -
  obtain mc' where mc': "engine_turn cal t (hs_machine h) = Some mc'" "governed z k mc'" "mc_exchange mc' = mc_exchange (hs_machine h)"
    using governed_stage [of z k "hs_machine h" t] assms(1,2) by (auto simp: harness_ok_def)
  define h1 where "h1 = h\<lparr>hs_machine := mc'\<rparr>"
  have turn: "stage_turn cal t h = Some h1"
    using mc'(1) by (simp add: stage_turn_def h1_def)
  have "published index cpn cf (h1\<lparr>hs_got := hs_got h1 @ got\<rparr>)"
  proof (rule published_frame [where h = h])
    show "published index cpn cf h"
      using assms(1) by (simp add: harness_ok_def)
  qed (simp_all add: h1_def mc'(3))
  then show ?thesis
    using turn mc'(2,3) assms(1) assms(3) [OF turn] by (auto simp: harness_ok_def h1_def)
qed

lemma harness_turn_ok:
  assumes "harness_ok b0 index cpn cf z clock (Suc k) h" "sees_band index cf j" "cfg_fits cf"
  shows "\<exists>h'. harness_turn cal clock t h = Some h' \<and> harness_ok b0 index cpn cf z clock k h'"
proof (cases t)
  case (ReceiveTurn i arrival stamps)
  let ?t = "FeedTurn (fst (feed_recv (map ((!) (hs_feed h)) (picked i (hs_feed h))))) arrival stamps"
  have "learned b0 (h'\<lparr>hs_got := hs_got h' @ picked i (hs_feed h)\<rparr>)" if "stage_turn cal ?t h = Some h'" for h'
  proof (rule learned_receive [OF _ harness_ok_engine(5,4,1,3) [OF assms(1)]])
    show "harness_turn cal clock (ReceiveTurn i arrival stamps) h = Some (h'\<lparr>hs_got := hs_got h' @ picked i (hs_feed h)\<rparr>)"
      using that by (simp add: Let_def)
  qed
  from stage_turn_ok [OF assms(1) _ this] show ?thesis
    by (simp add: ReceiveTurn Let_def)
next
  case (DecideTurn t0 t1)
  have "learned b0 (h'\<lparr>hs_got := hs_got h' @ []\<rparr>)" if "stage_turn cal (StrategyTurn t0 t1) h = Some h'" for h'
    using learned_decide [OF _ harness_ok_engine(5,1,2) [OF assms(1)], of cal clock t0 t1 h'] that by simp
  from stage_turn_ok [OF assms(1) _ this] show ?thesis
    by (simp add: DecideTurn option.map_ident)
next
  case (RouteTurn env pick)
  have "learned b0 (h'\<lparr>hs_got := hs_got h' @ []\<rparr>)" if "stage_turn cal (GatewayTurn env pick) h = Some h'" for h'
    using learned_route [OF _ harness_ok_engine(5) [OF assms(1)], of cal clock env pick h'] that by simp
  from stage_turn_ok [OF assms(1) _ this] show ?thesis
    by (simp add: RouteTurn option.map_ident)
next
  case (ExchangeThread pick)
  obtain h' where h': "exchange_thread clock pick h = Some h'" "sends_on clock (mc_exchange (hs_machine h'))"
    "mc_sys (hs_machine h') = mc_sys (hs_machine h) \<or> hs_machine h' = exchange_turn pick (hs_machine h)"
    using exchange_thread_returns [of clock h pick] assms(1) by (auto simp: harness_ok_def)
  then show ?thesis
    using assms ExchangeThread learned_exchange [OF h'(1)] exchange_thread_published [OF h'(1)]
      governed_exchange_thread [OF _ h'(3)] by (auto simp: harness_ok_def)
next
  case HaltExchange
  then show ?thesis
    using assms(1) HaltExchange governed_less by (auto simp: harness_ok_def)
qed

lemma harness_run_ok:
  assumes "harness_ok b0 index cpn cf z clock (length ts + k) h" "sees_band index cf j" "cfg_fits cf"
  obtains h' where "harness_run cal clock ts h = Some h'" "harness_ok b0 index cpn cf z clock k h'"
proof -
  have "\<exists>h'. harness_run cal clock ts h = Some h' \<and> harness_ok b0 index cpn cf z clock k h'"
    using assms(1)
  proof (induction ts arbitrary: h)
    case (Cons t ts)
    then obtain h1 where "harness_turn cal clock t h = Some h1" "harness_ok b0 index cpn cf z clock (length ts + k) h1"
      using harness_turn_ok [OF _ assms(2,3), of b0 cpn z clock "length ts + k" h cal t] by auto
    with Cons.IH show ?case
      by simp
  qed simp
  then show thesis
    using that by blast
qed


subsection \<open>The exchange stops\<close>

primrec turns_left :: "exchange_pc \<Rightarrow> nat" where
  "turns_left Opening = 2"
| "turns_left Stepping = 1"
| "turns_left Serving = 2"
| "turns_left Finished = 0"

primrec is_exchange :: "harness_action \<Rightarrow> bool" where
  "is_exchange (ReceiveTurn i arrival stamps) = False"
| "is_exchange (DecideTurn t0 t1) = False"
| "is_exchange (RouteTurn env pick) = False"
| "is_exchange (ExchangeThread pick) = True"
| "is_exchange HaltExchange = False"

lemma turns_left_0: "turns_left pc = 0 \<longleftrightarrow> pc = Finished"
  by (cases pc) simp_all

text \<open>Once told to stop, the exchange's thread is done after two of its turns; the other threads do not hold it up.\<close>

lemma harness_turn_stops:
  assumes "harness_turn cal clock t h = Some h'" "\<not> hs_publishing h"
  shows "\<not> hs_publishing h' \<and> turns_left (hs_pc h') \<le> turns_left (hs_pc h) - of_bool (is_exchange t)"
  using assms
  by (cases t) (auto simp: stage_turn_def exchange_thread_def publish_def Let_def split: exchange_pc.splits prod.splits
      simp del: engine_turn.simps)

lemma harness_run_stops:
  assumes "harness_run cal clock ts h = Some h'" "\<not> hs_publishing h" "turns_left (hs_pc h) \<le> length (filter is_exchange ts)"
  shows "hs_pc h' = Finished"
  using assms
proof (induction ts arbitrary: h)
  case (Cons t ts)
  obtain h1 where h1: "harness_turn cal clock t h = Some h1" "harness_run cal clock ts h1 = Some h'"
    using Cons.prems(1) by (auto split: bind_splits)
  show ?case
    using Cons.IH [OF h1(2)] harness_turn_stops [OF h1(1) Cons.prems(2)] Cons.prems(3) by (cases "is_exchange t") auto
qed (simp add: turns_left_0)

lemma turns_left_2: "turns_left pc \<le> 2"
  by (cases pc) simp_all


subsection \<open>The start\<close>

lemma start_ok:
  assumes "report_setup_of pton cal argv feed_local fill_local order_local = Some (Inr r)" "sends_on clock (rs_exchange r)"
    and "k < 2 ^ 64"
  defines "cf \<equiv> report_exchange_config argv"
  shows "\<exists>z. harness_ok (window_book cf 4096 2000) (window_index (window_book cf 4096 2000)) (cycles_per_ns cal) cf z clock k
    (harness_start th r)"
proof -
  obtain w ecfg dst where cfg: "report_engine_config pton argv w = Some ecfg"
    and en: "rs_engine r = set_order_destination dst (engine_init kEngineSizes (cycles_per_ns cal) ecfg)"
    and exch: "rs_exchange r = exchange_init (cycles_per_ns cal) cf"
    using report_setup_cases [OF assms(1)] unfolding cf_def .
  note v = report_engine_config_values [OF cfg]
  let ?s = "report_system r"
  have init: "gate_open (ec_order_size ecfg) ?s" "in_phase (ec_order_size ecfg) Idle ?s"
    unfolding report_system_init [OF en] set_order_destination_phase
    by (rule init_gate_open [OF v(3)], rule system_init_phase [OF kEngineSizes_ok])
  have "books_balance ?s"
    using system_init_balance [OF kEngineSizes_ok, of "cycles_per_ns cal" ecfg] unfolding report_system_init [OF en]
    by (simp add: books_balance_def filled_orders_def open_orders_def set_order_destination_def Let_def)
  then have "books_balance (?s\<lparr>sy_en := engine_start (sy_en ?s)\<rparr>)" "gate_open (ec_order_size ecfg) (?s\<lparr>sy_en := engine_start (sy_en ?s)\<rparr>)"
    using init(1) by (simp_all add: books_balance_def filled_orders_def open_orders_def gate_open_def engine_start_def Let_def)
  moreover have "in_phase (ec_order_size ecfg) Idle (?s\<lparr>sy_en := engine_start (sy_en ?s)\<rparr>)"
    using init(2) by simp
  moreover have "sy_en ?s = rs_engine r" "sy_ev ?s = None" "sy_orders ?s = []"
    by (simp_all add: report_system_def)
  moreover have "en_running (engine_start (rs_engine r))" "\<not> en_kill (engine_start (rs_engine r))"
    by (simp_all add: en engine_start_def set_order_destination_def engine_init_def)
  ultimately have "governed (ec_order_size ecfg) k (hs_machine (harness_start th r))"
    using assms(3) by (auto simp: governed_def harness_start_def)
  moreover have "published (window_index (window_book cf 4096 2000)) (cycles_per_ns cal) cf (harness_start th r)"
    using sx_ok_init(2) by (simp add: published_def harness_start_def exch Let_def) (simp add: exchange_init_def)
  moreover have "st_book (sr_strat (en_strat (rs_engine r))) = window_book cf 4096 2000"
    unfolding cf_def report_window en engine_book kEngineSizes_ticks v by (rule refl)
  then have "learned (window_book cf 4096 2000) (harness_start th r)"
    by (simp add: learned_def harness_start_def Let_def engine_start_def)
      (simp add: en set_order_destination_def engine_init_def strategy_runner_init_def feed_handler_init_def kEngineSizes_def capacity_ok_pos)
  ultimately show ?thesis
    using assms(2) by (auto simp: harness_ok_def harness_start_def)
qed


subsection \<open>Property\<close>

text \<open>What the reports print of a state the invariants hold in.\<close>

lemma governed_report:
  assumes "governed z k mc"
  defines "en \<equiv> sy_en (mc_sys mc)" and "n \<equiv> length (sy_orders (mc_sys mc))"
  obtains m where "m \<le> n" "n \<le> m + 1" "gw_sent (en_gw en) = of_nat n" "gw_fills_matched (en_gw en) = of_nat m"
    "gw_risk_rejected (en_gw en) = 0"
proof -
  obtain ph where ph: "in_phase z ph (mc_sys mc)" and balance: "books_balance (mc_sys mc)"
    and "gate_open z (mc_sys mc)" "\<not> en_kill (sy_en (mc_sys mc))"
    using assms(1) by (auto simp: governed_def)
  then have "gw_risk_rejected (en_gw en) = 0"
    by (simp add: gate_open_def en_def Let_def)
  then show thesis
    using balanced_counts [OF balance ph] that unfolding en_def n_def by blast
qed

lemma learned_all:
  assumes "learned b0 h" "hs_got h = [0..<length (hs_feed h)]" "length (received (hs_feed h)) < 2 ^ 64"
  defines "en \<equiv> sy_en (mc_sys (hs_machine h))"
  assumes "fh_dropped (en_feed en) = 0" "spsc_contents (en_feed_q en) = []"
  shows "sr_processed (en_strat en) = of_nat (length (received (hs_feed h)))"
    "st_book (sr_strat (en_strat en)) = fold apply_msg (received (hs_feed h)) b0"
proof -
  have "map ((!) (hs_feed h)) (hs_got h) = hs_feed h"
    by (simp add: assms(2) map_nth)
  then obtain popped lost where pl: "sr_processed (en_strat en) = of_nat popped" "fh_dropped (en_feed en) = of_nat lost"
    "popped + lost = length (received (hs_feed h))"
    "lost = 0 \<longrightarrow> st_book (sr_strat (en_strat en)) = fold apply_msg (received (hs_feed h)) b0"
    using assms(1,6) unfolding en_def by (auto simp: learned_def Let_def)
  have "lost = 0"
    using pl(2,3) assms(3,5) of_nat_u64_inj [of lost 0] by simp
  with pl show "sr_processed (en_strat en) = of_nat (length (received (hs_feed h)))"
    "st_book (sr_strat (en_strat en)) = fold apply_msg (received (hs_feed h)) b0"
    by simp_all
qed

lemma harness_main_ends:
  assumes "report_setup_of pton cal argv feed_local fill_local order_local = Some (Inr r)" "sends_on clock (rs_exchange r)"
    and "length asleep + length joining + 1 < 2 ^ 64" "2 \<le> length (filter is_exchange joining)"
  shows "\<exists>h. harness_main cal clock asleep joining th r = Some h \<and>
    (let en = sy_en (mc_sys (hs_machine h)); sx = mc_exchange (hs_machine h); b = st_book (sr_strat (en_strat en));
         n = length (sy_orders (mc_sys (hs_machine h))) in
      \<not> en_running en \<and> sx_feed_count sx = of_nat (length (received (hs_feed h)))
      \<and> gw_risk_rejected (en_gw en) = 0 \<and> gw_sent (en_gw en) = of_nat n
      \<and> (\<exists>m. m \<le> n \<and> n \<le> m + 1 \<and> gw_fills_matched (en_gw en) = of_nat m)
      \<and> (hs_got h = [0..<length (hs_feed h)] \<and> length (received (hs_feed h)) < 2 ^ 64
          \<and> fh_dropped (en_feed en) = 0 \<and> spsc_contents (en_feed_q en) = []
         \<longrightarrow> sr_processed (en_strat en) = sx_feed_count sx \<and> two_sided b
             \<and> best_bid_price b = sx_best_bid sx \<and> best_bid_size b = sx_bid_sz sx
             \<and> best_ask_price b = sx_best_ask sx \<and> best_ask_size b = sx_ask_sz sx))"
proof -
  define cf where "cf = report_exchange_config argv"
  let ?b0 = "window_book cf 4096 2000"
  let ?ok = "\<lambda>z. harness_ok ?b0 (window_index ?b0) (cycles_per_ns cal) cf z clock"
  have fits: "cfg_fits cf" "window_ok cf 4096 2000"
    unfolding cf_def by (rule report_exchange_config_fits)+
  note seen = window_sees_band [OF fits] fits(1)
  obtain z where "?ok z (length asleep + (length (HaltExchange # joining) + 0)) (harness_start th r)"
    using start_ok [OF assms(1,2), where th = th] assms(3) unfolding cf_def by fastforce
  then obtain h1 where h1: "harness_run cal clock asleep (harness_start th r) = Some h1"
    "?ok z (length (HaltExchange # joining) + 0) h1"
    using seen by (rule harness_run_ok)
  from h1(2) seen obtain h2 where h2: "harness_run cal clock (HaltExchange # joining) h1 = Some h2" "?ok z 0 h2"
    by (rule harness_run_ok)
  have pc: "hs_pc h2 = Finished"
    using harness_run_stops [of cal clock joining "h1\<lparr>hs_publishing := False\<rparr>" h2] h2(1) turns_left_2 [of "hs_pc h1"] assms(4)
    by simp
  define h where "h = h2\<lparr>hs_machine := (hs_machine h2)\<lparr>mc_sys := (mc_sys (hs_machine h2))
    \<lparr>sy_en := engine_stop (sy_en (mc_sys (hs_machine h2)))\<rparr>\<rparr>\<rparr>"
  have main: "harness_main cal clock asleep joining th r = Some h"
    using h1(1) h2(1) pc by (simp add: harness_main_def stage_turn_def h_def)
  let ?sx = "mc_exchange (hs_machine h2)" and ?en = "sy_en (mc_sys (hs_machine h2))"
  have parts: "governed z 0 (hs_machine h2)" "published (window_index ?b0) (cycles_per_ns cal) cf h2" "learned ?b0 h2"
    using h2(2) by (simp_all add: harness_ok_def)
  obtain m where m: "m \<le> length (sy_orders (mc_sys (hs_machine h2)))" "length (sy_orders (mc_sys (hs_machine h2))) \<le> m + 1"
    "gw_sent (en_gw ?en) = of_nat (length (sy_orders (mc_sys (hs_machine h2))))" "gw_fills_matched (en_gw ?en) = of_nat m"
    "gw_risk_rejected (en_gw ?en) = 0"
    using governed_report [OF parts(1)] .
  have pub: "sx_feed_count ?sx = of_nat (length (received (hs_feed h2)))"
    "tracks (window_index ?b0) cf ?sx (fold (ref_apply (window_index ?b0)) (received (hs_feed h2)) (\<lambda>_ _. 0))"
    using parts(2) pc by (auto simp: published_def Let_def)
  note quotes_shown = book_shows_exchange [OF fits pub(2)]
  have same: "mc_exchange (hs_machine h) = ?sx" "hs_feed h = hs_feed h2" "hs_got h = hs_got h2"
    "sy_orders (mc_sys (hs_machine h)) = sy_orders (mc_sys (hs_machine h2))" "sy_en (mc_sys (hs_machine h)) = engine_stop ?en"
    by (simp_all add: h_def)
  show ?thesis
    unfolding Let_def
    by (intro exI [of _ h] conjI impI main exI [of _ m])
      (use m pub(1) quotes_shown learned_all [OF parts(3)] in \<open>auto simp: same engine_stop_def\<close>)
qed


text \<open>
  C38. The latency harness as a whole, for every command line it accepts, every schedule of its threads and every
  behaviour of the two links: it ends, with the exchange joined and the engine stopped, provided the exchange's thread
  gets two turns after it was told to stop. Then the exchange's message counter is the number of messages in the
  datagrams it sent, no order was rejected, and the sent and matched counters of the report are those of the
  wire. If the feed link lost nothing, the queue dropped nothing and the strategy has caught up, it has processed every
  message, and its book shows exactly the exchange's last quotes.
\<close>

theorem latency_harness_end_to_end:
  assumes "report_setup_of pton cal argv feed_local fill_local order_local = Some (Inr r)" "sends_on clock (rs_exchange r)"
    and "length asleep + length joining + 1 < 2 ^ 64" "2 \<le> length (filter is_exchange joining)"
  shows "\<exists>h. harness_main cal clock asleep joining th r = Some h \<and>
    (let en = sy_en (mc_sys (hs_machine h)); sx = mc_exchange (hs_machine h); b = st_book (sr_strat (en_strat en));
         n = length (sy_orders (mc_sys (hs_machine h))) in
      \<not> en_running en \<and> sx_feed_count sx = of_nat (length (received (hs_feed h)))
      \<and> gw_risk_rejected (en_gw en) = 0 \<and> gw_sent (en_gw en) = of_nat n
      \<and> (\<exists>m. m \<le> n \<and> n \<le> m + 1 \<and> gw_fills_matched (en_gw en) = of_nat m)
      \<and> (hs_got h = [0..<length (hs_feed h)] \<and> length (received (hs_feed h)) < 2 ^ 64
          \<and> fh_dropped (en_feed en) = 0 \<and> spsc_contents (en_feed_q en) = []
         \<longrightarrow> sr_processed (en_strat en) = sx_feed_count sx \<and> two_sided b
             \<and> best_bid_price b = sx_best_bid sx \<and> best_bid_size b = sx_bid_sz sx
             \<and> best_ask_price b = sx_best_ask sx \<and> best_ask_size b = sx_ask_sz sx))"
  using assms by (rule harness_main_ends)

text \<open>A run without pacing: the opening quotes arrive in one datagram, are processed, and the exchange stops.\<close>

definition demo_argv :: "string list" where
  "demo_argv = [''latency_report'', ''--rate'', ''0'']"

definition demo_asleep :: "harness_action list" where
  "demo_asleep = [ExchangeThread [], ReceiveTurn (Some 0) 5 (\<lambda>k. 7), DecideTurn 8 9, DecideTurn 10 11]"

definition demo_joining :: "harness_action list" where
  "demo_joining = [ExchangeThread [], ExchangeThread []]"

lemma demo_argv_setup: "\<exists>r. report_setup_of (\<lambda>_. Some 0) demo_calibration demo_argv 5 6 7 = Some (Inr r)"
  by (simp add: report_setup_of_def report_wait_policy_def arg_string_def arg_str_def report_engine_config_def
      engine_config_default_def endpoint_v4_def demo_argv_def Let_def)

lemma strtol10_0: "strtol10 ''0'' = 0"
  by code_simp

lemma demo_argv_exchange:
  "sint (cf_rate (report_exchange_config demo_argv)) = 0" "sint (cf_batch (report_exchange_config demo_argv)) = 8"
  by (simp_all add: report_exchange_config_def demo_argv_def report_arg_long_def strtol10_0)

lemma demo_open:
  obtains d k sx where "sx_open clock (0, exchange_init cpn (report_exchange_config demo_argv)) = Some ([d], k, sx)"
    "sx_dgram_msgs sx = 0"
  by (simp add: sx_open_def sx_emit_def sx_flush_def exchange_init_def demo_argv_exchange Let_def)

lemma demo_harness_run:
  assumes "report_setup_of (\<lambda>_. Some 0) demo_calibration demo_argv 5 6 7 = Some (Inr r)"
  obtains h where "harness_run demo_calibration clock demo_asleep (harness_start th r) = Some h" "hs_pc h = Stepping"
    "hs_got h = [0..<length (hs_feed h)]" "length (received (hs_feed h)) = 2" "sx_dgram_msgs (mc_exchange (hs_machine h)) = 0"
    "fh_dropped (en_feed (sy_en (mc_sys (hs_machine h)))) = 0" "spsc_contents (en_feed_q (sy_en (mc_sys (hs_machine h)))) = []"
proof -
  let ?cal = demo_calibration and ?h0 = "harness_start th r" and ?cf = "report_exchange_config demo_argv"
  let ?b0 = "window_book ?cf 4096 2000"
  let ?q = "\<lambda>h. en_feed_q (sy_en (mc_sys (hs_machine h)))" and ?fh = "\<lambda>h. en_feed (sy_en (mc_sys (hs_machine h)))"
  obtain w ecfg dst where en: "rs_engine r = set_order_destination dst (engine_init kEngineSizes (cycles_per_ns ?cal) ecfg)"
    and exch: "rs_exchange r = exchange_init (cycles_per_ns ?cal) ?cf"
    using report_setup_cases [OF assms] .
  obtain d k sx where op: "sx_open clock (0, rs_exchange r) = Some ([d], k, sx)" "sx_dgram_msgs sx = 0"
    unfolding exch by (rule demo_open)
  have "pending sx = []"
    using op(2) by (simp add: pending_def frames_short kMsgSize_def)
  then have d: "datagram_ok d" "length (received [d]) = 2"
    using emits_open [OF op(1)] sx_ok_init [of "cycles_per_ns ?cal" ?cf] by (simp_all add: exch emits_def)
  have "sends_on clock (rs_exchange r)" "Suc (Suc (Suc (Suc 0))) < (2 :: nat) ^ 64"
    by (simp_all add: exch sends_on_def exchange_init_def demo_argv_exchange)
  from start_ok [OF assms this, of th] obtain z where
    ok0: "harness_ok ?b0 (window_index ?b0) (cycles_per_ns ?cal) ?cf z clock (Suc (Suc (Suc (Suc 0)))) ?h0"
    by blast
  have fits: "cfg_fits ?cf" "window_ok ?cf 4096 2000"
    by (rule report_exchange_config_fits)+
  note turn_ok = harness_turn_ok [OF _ window_sees_band [OF fits] fits(1), where cal = ?cal]
  define h1 where "h1 = publish Stepping ?h0 ([d], k, sx)"
  have t1: "harness_turn ?cal clock (ExchangeThread []) ?h0 = Some h1"
    using op(1) by (simp add: exchange_thread_def harness_start_def h1_def Let_def)
  with turn_ok [OF ok0, of "ExchangeThread []"] have ok1: "harness_ok ?b0 (window_index ?b0) (cycles_per_ns ?cal) ?cf z clock (Suc (Suc (Suc 0))) h1"
    by simp
  have h1: "hs_feed h1 = [d]" "hs_got h1 = []" "hs_pc h1 = Stepping" "mc_exchange (hs_machine h1) = sx"
    "spsc_contents (?q h1) = []" "spsc_cap (?q h1) = 65536" "fh_dropped (?fh h1) = 0"
    by (simp_all add: h1_def publish_def harness_start_def engine_start_def)
      (simp_all add: en set_order_destination_def engine_init_def feed_handler_init_def kEngineSizes_def capacity_ok_pos)
  obtain h2 where t2: "harness_turn ?cal clock (ReceiveTurn (Some 0) 5 (\<lambda>k. 7)) h1 = Some h2"
    and ok2: "harness_ok ?b0 (window_index ?b0) (cycles_per_ns ?cal) ?cf z clock (Suc (Suc 0)) h2"
    using turn_ok [OF ok1] by blast
  have "picked (Some 0) (hs_feed h1) = [0]" "datagram_ok (hs_feed h1 ! 0)"
    using d(1) by (simp_all add: picked_def h1)
  from receive_turn_datagram [OF t2 this] obtain mc2 where
    mc2: "engine_turn ?cal (FeedTurn (Some (hs_feed h1 ! 0)) 5 (\<lambda>k. 7)) (hs_machine h1) = Some mc2"
    "h2 = h1\<lparr>hs_machine := mc2, hs_got := hs_got h1 @ [0]\<rparr>" .
  have feed: "engine_turn ?cal (FeedTurn (Some d) 5 (\<lambda>k. 7)) (hs_machine h1) = Some mc2"
    using mc2(1) unfolding h1(1) nth_Cons_0 .
  have h2: "h2 = h1\<lparr>hs_machine := mc2, hs_got := [0]\<rparr>"
    using mc2(2) unfolding h1(2) append_Nil .
  let ?ms = "map parse_message (frames kMsgSize d)"
  obtain put where put: "put = min (queue_room (?q h1)) (length ?ms)"
    "map ev_msg (spsc_contents (en_feed_q (sy_en (mc_sys mc2)))) = map ev_msg (spsc_contents (?q h1)) @ take put ?ms"
    "fh_dropped (en_feed (sy_en (mc_sys mc2))) = fh_dropped (?fh h1) + of_nat (length ?ms - put)"
    using feed_turn_receives [OF feed harness_ok_engine(1,3) [OF ok1]] by metis
  have ms: "length ?ms = 2"
    using d(2) by simp
  then have "put = 2"
    unfolding put(1) queue_room_def h1(5,6) by simp
  then have q2: "length (spsc_contents (?q h2)) = 2" "fh_dropped (?fh h2) = 0"
    using arg_cong [OF put(2), of length] put(3) ms h1(5,7) by (simp_all add: h2)
  have "mc_exchange mc2 = sx"
    using stage_frame(3) [OF feed] h1(4) by simp
  then have h2_is: "hs_pc h2 = Stepping" "hs_feed h2 = [d]" "hs_got h2 = [0]" "mc_exchange (hs_machine h2) = sx"
    by (simp_all add: h2 h1)
  have decide: "spsc_contents (?q h') = tl (spsc_contents (?q h)) \<and> ?fh h' = ?fh h \<and> hs_pc h' = hs_pc h \<and> hs_feed h' = hs_feed h
      \<and> hs_got h' = hs_got h \<and> mc_exchange (hs_machine h') = mc_exchange (hs_machine h)"
    if "harness_turn ?cal clock (DecideTurn t0 t1) h = Some h'" "harness_ok ?b0 (window_index ?b0) (cycles_per_ns ?cal) ?cf z clock n h"
    for t0 t1 n h h'
    using that(1) strategy_turn_learns(1,2) [OF _ harness_ok_engine(1,2) [OF that(2)]] stage_frame(3) [where t = "StrategyTurn t0 t1"]
    by (auto simp: stage_turn_def simp del: engine_turn.simps)
  obtain h3 where t3: "harness_turn ?cal clock (DecideTurn 8 9) h2 = Some h3"
    and ok3: "harness_ok ?b0 (window_index ?b0) (cycles_per_ns ?cal) ?cf z clock (Suc 0) h3"
    using turn_ok [OF ok2] by blast
  obtain h4 where t4: "harness_turn ?cal clock (DecideTurn 10 11) h3 = Some h4"
    using turn_ok [OF ok3] by blast
  have "harness_run ?cal clock demo_asleep ?h0 = Some h4"
    by (simp add: demo_asleep_def t1 t2 t3 t4 del: harness_turn.simps)
  moreover have "spsc_contents (?q h4) = tl (tl (spsc_contents (?q h2)))"
    using decide [OF t3 ok2] decide [OF t4 ok3] by (simp only:)
  then have "spsc_contents (?q h4) = []"
    using q2(1) by (auto simp: numeral_2_eq_2 length_Suc_conv)
  moreover have "hs_pc h4 = Stepping" "hs_feed h4 = [d]" "hs_got h4 = [0]" "mc_exchange (hs_machine h4) = sx" "fh_dropped (?fh h4) = 0"
    using decide [OF t3 ok2] decide [OF t4 ok3] h2_is q2(2) by simp_all
  ultimately show thesis
    using that [of h4] d(2) op(2) by simp
qed

theorem latency_harness_end_to_end_witness:
  "\<forall>th. \<exists>r h. report_setup_of (\<lambda>_. Some 0) demo_calibration demo_argv 5 6 7 = Some (Inr r)
    \<and> harness_main demo_calibration (\<lambda>k. 0) demo_asleep demo_joining th r = Some h
    \<and> sr_processed (en_strat (sy_en (mc_sys (hs_machine h)))) = 2
    \<and> two_sided (st_book (sr_strat (en_strat (sy_en (mc_sys (hs_machine h))))))"
proof (rule allI)
  fix th
  obtain r where r: "report_setup_of (\<lambda>_. Some 0) demo_calibration demo_argv 5 6 7 = Some (Inr r)"
    using demo_argv_setup by blast
  obtain h1 where h1: "harness_run demo_calibration (\<lambda>k. 0) demo_asleep (harness_start th r) = Some h1" "hs_pc h1 = Stepping"
    "hs_got h1 = [0..<length (hs_feed h1)]" "length (received (hs_feed h1)) = 2" "sx_dgram_msgs (mc_exchange (hs_machine h1)) = 0"
    "fh_dropped (en_feed (sy_en (mc_sys (hs_machine h1)))) = 0" "spsc_contents (en_feed_q (sy_en (mc_sys (hs_machine h1)))) = []"
    using demo_harness_run [OF r] .
  have "sends_on (\<lambda>k. 0) (rs_exchange r)"
    by (rule report_setup_cases [OF r]) (simp add: sends_on_def exchange_init_def demo_argv_exchange)
  moreover have "length demo_asleep + length demo_joining + 1 < 2 ^ 64" "2 \<le> length (filter is_exchange demo_joining)"
    by (simp_all add: demo_asleep_def demo_joining_def)
  ultimately obtain h where h: "harness_main demo_calibration (\<lambda>k. 0) demo_asleep demo_joining th r = Some h"
    "sx_feed_count (mc_exchange (hs_machine h)) = of_nat (length (received (hs_feed h)))"
    "hs_got h = [0..<length (hs_feed h)] \<and> length (received (hs_feed h)) < 2 ^ 64
      \<and> fh_dropped (en_feed (sy_en (mc_sys (hs_machine h)))) = 0 \<and> spsc_contents (en_feed_q (sy_en (mc_sys (hs_machine h)))) = []
     \<longrightarrow> sr_processed (en_strat (sy_en (mc_sys (hs_machine h)))) = sx_feed_count (mc_exchange (hs_machine h))
       \<and> two_sided (st_book (sr_strat (en_strat (sy_en (mc_sys (hs_machine h))))))"
    using latency_harness_end_to_end [OF r, of "\<lambda>k. 0" demo_asleep demo_joining th] by (auto simp: Let_def)
  have "hs_feed h = hs_feed h1" "hs_got h = hs_got h1" "en_feed (sy_en (mc_sys (hs_machine h))) = en_feed (sy_en (mc_sys (hs_machine h1)))"
    "en_feed_q (sy_en (mc_sys (hs_machine h))) = en_feed_q (sy_en (mc_sys (hs_machine h1)))"
    using h(1) h1(1,2,5) by (auto simp: harness_main_def demo_joining_def exchange_thread_def publish_def sx_flush_def stage_turn_def
        engine_stop_def Let_def)
  with h h1 r show "\<exists>r h. report_setup_of (\<lambda>_. Some 0) demo_calibration demo_argv 5 6 7 = Some (Inr r)
      \<and> harness_main demo_calibration (\<lambda>k. 0) demo_asleep demo_joining th r = Some h
      \<and> sr_processed (en_strat (sy_en (mc_sys (hs_machine h)))) = 2
      \<and> two_sided (st_book (sr_strat (en_strat (sy_en (mc_sys (hs_machine h))))))"
    by (intro exI [of _ r] exI [of _ h]) simp
qed

end
