(* ===== verification/ProgramOutput.thy ===== *)
theory ProgramOutput
  imports Programs
begin

text \<open>
  What the three programs print and write when they are done, as functions of the objects they have run: the closing
  lines of \<open>tools/exchange_sim.cpp\<close> and \<open>apps/hft_main.cpp\<close>, and the report and the six files of
  \<open>tools/latency_report.cpp\<close>. Which files can be opened for writing is an argument.
\<close>

subsection \<open>The engine's histograms\<close>

definition feed_latency :: "engine \<Rightarrow> hist" where
  "feed_latency en = fh_latency (en_feed en)"

definition strategy_latency :: "engine \<Rightarrow> hist" where
  "strategy_latency en = sr_latency (en_strat en)"

definition gateway_latency :: "engine \<Rightarrow> hist" where
  "gateway_latency en = gw_latency (en_gw en)"

definition e2e_latency :: "engine \<Rightarrow> hist" where
  "e2e_latency en = gw_e2e (en_gw en)"

definition round_trip_latency :: "engine \<Rightarrow> hist" where
  "round_trip_latency en = gw_round_trip (en_gw en)"

text \<open>The precision of \<open>Histogram<>\<close>.\<close>

definition kReportPrecision :: nat where
  "kReportPrecision = 5"

definition engine_report :: "tsc_calibration \<Rightarrow> engine \<Rightarrow> string" where
  "engine_report cal en =
     print_engine_report cal kReportPrecision (feed_latency en) (strategy_latency en) (gateway_latency en)
       (e2e_latency en) (round_trip_latency en)"

definition show_int :: "int \<Rightarrow> string" where
  "show_int i = (if i < 0 then CHR ''-'' # show_nat (nat (- i)) else show_nat (nat i))"


subsection \<open>The engine program\<close>

definition main_banner :: "engine_config \<Rightarrow> string" where
  "main_banner cfg =
     ''hft_main: feed_port='' @ show_nat (unat (ec_feed_port cfg)) @ '' order_dst_port=0'' @
     '' fill_port='' @ show_nat (unat (ec_fill_port cfg)) @
     '' cores(feed='' @ show_int (sint (ec_feed_core cfg)) @ '' strat='' @ show_int (sint (ec_strategy_core cfg)) @
     '' gw='' @ show_int (sint (ec_gateway_core cfg)) @ '') threshold='' @ show_fixed 2 (ec_threshold cfg) @ [newline] @
     ''hft_main: ensure exchange_sim is running on matching ports.'' @ [newline]"

definition main_summary :: "tsc_calibration \<Rightarrow> engine \<Rightarrow> string" where
  "main_summary cal en =
     [newline] @ ''orders sent='' @ show_u64 (gw_sent (en_gw en)) @ ''  fills matched='' @ show_u64 (gw_fills_matched (en_gw en)) @
     ''  risk rejected='' @ show_u64 (gw_risk_rejected (en_gw en)) @ [newline] @ engine_report cal en"


subsection \<open>The exchange alone\<close>

text \<open>The line needs a run of more than no time: the rate of an empty interval is not a number, \<^const>\<open>None\<close>.\<close>

definition sim_summary :: "tsc_calibration \<Rightarrow> u64 \<Rightarrow> u64 \<Rightarrow> exchange \<Rightarrow> string option" where
  "sim_summary cal start now sx =
     (let elapsed_ns = tsc_to_ns cal (now - start); seconds = ddiv elapsed_ns 1000000000 in
      if seconds = 0 then None
      else Some (''exchange_sim: feed='' @ show_u64 (sx_feed_count sx) @ '' msgs ('' @
             show_fixed 2 (ddiv (ddiv (double_of_u64 (sx_feed_count sx)) seconds) 1000000) @ '' M/s), orders='' @
             show_u64 (sx_order_count sx) @ '', fills='' @ show_u64 (sx_fill_count sx) @ '', '' @
             show_fixed 1 (ddiv elapsed_ns 1000000) @ '' ms'' @ [newline]))"


subsection \<open>The latency harness\<close>

definition report_banner :: "string list \<Rightarrow> wait_policy \<Rightarrow> string" where
  "report_banner argv wait_policy =
     (let long = (\<lambda>key def. report_arg_long argv key def);
          core = (\<lambda>key. show_int (sint (ucast (long key (- 1)) :: i32)))
      in ''latency_report: rate='' @ show_int (sint (long ''--rate'' 500000)) @
         '' msg/s batch='' @ show_int (sint (long ''--batch'' 8)) @
         '' duration='' @ show_int (sint (long ''--duration-ms'' 3000)) @ ''ms '' @
         ''(cores feed='' @ core ''--feed-core'' @ '' strat='' @ core ''--strat-core'' @ '' gw='' @ core ''--gw-core'' @
         '' exch='' @ core ''--exch-core'' @ '' wait='' @ wait_policy_string wait_policy @ '')'' @ [newline])"

definition report_throughput :: "exchange \<Rightarrow> engine \<Rightarrow> string" where
  "report_throughput exch en =
     [newline] @ ''throughput: exchange sent '' @ show_u64 (sx_feed_count exch) @ '' feed msgs, engine processed '' @
     show_u64 (sr_processed (en_strat en)) @ '', orders sent '' @ show_u64 (gw_sent (en_gw en)) @
     '', fills matched '' @ show_u64 (gw_fills_matched (en_gw en)) @ [newline]"

definition summary_file :: "tsc_calibration \<Rightarrow> engine \<Rightarrow> string" where
  "summary_file cal en =
     summary_csv_header @
     write_summary_row cal kReportPrecision ''feed'' (feed_latency en) @
     write_summary_row cal kReportPrecision ''strategy'' (strategy_latency en) @
     write_summary_row cal kReportPrecision ''gateway'' (gateway_latency en) @
     write_summary_row cal kReportPrecision ''end_to_end'' (e2e_latency en) @
     write_summary_row cal kReportPrecision ''round_trip'' (round_trip_latency en)"

definition dump_file :: "(string \<Rightarrow> bool) \<Rightarrow> string \<Rightarrow> hist \<Rightarrow> (string \<times> string) list" where
  "dump_file can_open path h =
     (case dump_histogram_csv kReportPrecision (can_open path) h of None \<Rightarrow> [] | Some contents \<Rightarrow> [(path, contents)])"

text \<open>The files of \<open>--csv-dir\<close>, in the order they are written.\<close>

definition report_files :: "tsc_calibration \<Rightarrow> (string \<Rightarrow> bool) \<Rightarrow> string \<Rightarrow> engine \<Rightarrow> (string \<times> string) list" where
  "report_files cal can_open d en =
     dump_file can_open (d @ ''/feed.csv'') (feed_latency en) @
     dump_file can_open (d @ ''/strategy.csv'') (strategy_latency en) @
     dump_file can_open (d @ ''/gateway.csv'') (gateway_latency en) @
     dump_file can_open (d @ ''/e2e.csv'') (e2e_latency en) @
     dump_file can_open (d @ ''/round_trip.csv'') (round_trip_latency en) @
     (if can_open (d @ ''/summary.csv'') then [(d @ ''/summary.csv'', summary_file cal en)] else [])"

definition report_output ::
    "tsc_calibration \<Rightarrow> (string \<Rightarrow> bool) \<Rightarrow> string list \<Rightarrow> wait_policy \<Rightarrow> exchange \<Rightarrow> engine
     \<Rightarrow> string \<times> (string \<times> string) list" where
  "report_output cal can_open argv wait_policy exch en =
     (let text = report_banner argv wait_policy @ report_throughput exch en @ engine_report cal en in
      case arg_str argv ''--csv-dir'' None of
        None \<Rightarrow> (text, [])
      | Some d \<Rightarrow> (text @ [newline] @ ''CSV written to '' @ d @ ''/'' @ [newline], report_files cal can_open d en))"


subsection \<open>The files\<close>

text \<open>A file that cannot be opened is left out without a word: the closing line is printed all the same.\<close>

lemma report_files_unopened: "report_files cal (\<lambda>_. False) d en = []"
  by (simp add: report_files_def dump_file_def dump_histogram_csv_def)

text \<open>With a writable directory the six files are there, each once, the five dumps under their stages' names.\<close>

lemma report_files_all:
  "map fst (report_files cal (\<lambda>_. True) d en) =
     map ((@) d) [''/feed.csv'', ''/strategy.csv'', ''/gateway.csv'', ''/e2e.csv'', ''/round_trip.csv'', ''/summary.csv'']"
  by (simp add: report_files_def dump_file_def dump_histogram_csv_def)

text \<open>The lines of the summary are its header and one row for each stage.\<close>

definition summary_line :: "tsc_calibration \<Rightarrow> string \<Rightarrow> hist \<Rightarrow> string" where
  "summary_line cal stage h = butlast (write_summary_row cal kReportPrecision stage h)"

lemma format_ns_no_newline [simp]: "newline \<notin> set (format_ns cal cap ns)"
  using show_nat_no_sep(2) by (auto simp: format_ns_def newline_def dest: in_set_takeD)

lemma show_fixed_no_newline [simp]: "newline \<notin> set (show_fixed k x)"
  using show_nat_no_sep(2)
  by (auto simp: show_fixed_def Let_def newline_def dest!: in_set_takeD in_set_dropD split: if_splits)

lemma write_summary_row_line:
  assumes "newline \<notin> set stage"
  shows "write_summary_row cal kReportPrecision stage h = summary_line cal stage h @ [newline]"
    and "newline \<notin> set (summary_line cal stage h)"
proof -
  have "newline \<notin> set (clock_source_string (clock_source cal))" "newline \<noteq> comma"
    by (cases "clock_source cal"; simp add: newline_def) (simp add: newline_def comma_def)
  then show "write_summary_row cal kReportPrecision stage h = summary_line cal stage h @ [newline]"
    "newline \<notin> set (summary_line cal stage h)"
    using assms by (simp_all add: summary_line_def write_summary_row_def Let_def butlast_append)
qed

lemma summary_file_lines:
  "split_on newline (summary_file cal en) =
     [butlast summary_csv_header, summary_line cal ''feed'' (feed_latency en), summary_line cal ''strategy'' (strategy_latency en),
      summary_line cal ''gateway'' (gateway_latency en), summary_line cal ''end_to_end'' (e2e_latency en),
      summary_line cal ''round_trip'' (round_trip_latency en), []]"
proof -
  let ?lines = "[butlast summary_csv_header, summary_line cal ''feed'' (feed_latency en),
      summary_line cal ''strategy'' (strategy_latency en), summary_line cal ''gateway'' (gateway_latency en),
      summary_line cal ''end_to_end'' (e2e_latency en), summary_line cal ''round_trip'' (round_trip_latency en)]"
  have stages: "newline \<notin> set ''feed''" "newline \<notin> set ''strategy''" "newline \<notin> set ''gateway''"
    "newline \<notin> set ''end_to_end''" "newline \<notin> set ''round_trip''"
    by (simp_all add: newline_def)
  have header: "summary_csv_header = butlast summary_csv_header @ [newline]" "newline \<notin> set (butlast summary_csv_header)"
    by (simp_all add: summary_csv_header_def newline_def)
  have "summary_file cal en = concat (map (\<lambda>l. l @ [newline]) ?lines)"
    unfolding summary_file_def using header(1) stages [THEN write_summary_row_line(1)] by simp
  moreover have "newline \<notin> set l" if "l \<in> set ?lines" for l
    using that header(2) stages [THEN write_summary_row_line(2)] by auto
  ultimately show ?thesis
    using split_on_lines [of ?lines newline] by simp
qed

end
