(* ===== verification/Calibration.thy ===== *)
theory Calibration
  imports TscClock
begin

text \<open>
  The measuring half of \<open>include/hft/tsc.hpp\<close>: the nine windows of \<open>detail::calibrate_tsc\<close> and the calibration
  done once for the whole process. The two clocks are streams of readings: \<open>now k\<close> is the \<open>k\<close>-th reading
  of \<open>steady_clock\<close>, in nanoseconds, and \<open>tsc j\<close> the \<open>j\<close>-th of the cycle counter. A window that the steady
  clock never leaves is \<^const>\<open>None\<close>. The median and the fields computed from it are \<open>TscClock\<close>'s.
\<close>

datatype architecture = X86_64 | AArch64 | OtherArchitecture

primrec counter_source :: "architecture \<Rightarrow> clock_source" where
  "counter_source X86_64 = kX86InvariantTsc"
| "counter_source AArch64 = kArmCntvct"
| "counter_source OtherArchitecture = kSteadyClockFallback"

text \<open>\<open>cntfrq\<close> is what the frequency register of AArch64 holds; no other target has one.\<close>

primrec hardware_counter_hz :: "u64 \<Rightarrow> architecture \<Rightarrow> u64" where
  "hardware_counter_hz cntfrq X86_64 = 0"
| "hardware_counter_hz cntfrq AArch64 = cntfrq"
| "hardware_counter_hz cntfrq OtherArchitecture = 0"

text \<open>Which of the three readings \<open>tsc_now\<close> takes.\<close>

primrec tsc_now :: "u64 \<Rightarrow> u64 \<Rightarrow> i64 \<Rightarrow> architecture \<Rightarrow> u64" where
  "tsc_now rdtsc cntvct steady X86_64 = rdtsc"
| "tsc_now rdtsc cntvct steady AArch64 = cntvct"
| "tsc_now rdtsc cntvct steady OtherArchitecture = ucast steady"

text \<open>\<open>kWindow\<close>, 5 milliseconds.\<close>

definition kWindow :: int where
  "kWindow = 5000000"

text \<open>\<open>while (clock::now() < deadline)\<close>, from the \<open>k\<close>-th reading on; the result is the next reading's number.\<close>

definition window_spin :: "(nat \<Rightarrow> int) \<Rightarrow> int \<Rightarrow> nat \<Rightarrow> nat option" where
  "window_spin now deadline k = map_option Suc (spin_while (\<lambda>k. now k < deadline) k)"

text \<open>One window: the nanoseconds and the cycles that passed, and the numbers of the next readings.\<close>

definition measure_window :: "(nat \<Rightarrow> int) \<Rightarrow> (nat \<Rightarrow> u64) \<Rightarrow> nat \<times> nat \<Rightarrow> ((int \<times> u64) \<times> nat \<times> nat) option" where
  "measure_window now tsc r =
     (let (k, j) = r; w0 = now k; c0 = tsc j; deadline = w0 + kWindow in
      case window_spin now deadline (k + 1) of
        None \<Rightarrow> None
      | Some k1 \<Rightarrow> let c1 = tsc (j + 1); w1 = now k1 in Some ((w1 - w0, c1 - c0), k1 + 1, j + 2))"

primrec measure_windows ::
    "nat \<Rightarrow> (nat \<Rightarrow> int) \<Rightarrow> (nat \<Rightarrow> u64) \<Rightarrow> nat \<times> nat \<Rightarrow> ((int \<times> u64) list \<times> nat \<times> nat) option" where
  "measure_windows 0 now tsc r = Some ([], r)"
| "measure_windows (Suc n) now tsc r =
     (case measure_window now tsc r of
        None \<Rightarrow> None
      | Some (w, r) \<Rightarrow> map_option (\<lambda>(ws, r). (w # ws, r)) (measure_windows n now tsc r))"

text \<open>The first reading of each clock warms up the path and is thrown away.\<close>

definition detail_calibrate_tsc :: "architecture \<Rightarrow> u64 \<Rightarrow> (nat \<Rightarrow> int) \<Rightarrow> (nat \<Rightarrow> u64) \<Rightarrow> tsc_calibration option" where
  "detail_calibrate_tsc arch cntfrq now tsc =
     map_option (\<lambda>(ws, r). calibrate_tsc (counter_source arch) (hardware_counter_hz cntfrq arch)
                             (map (\<lambda>(ns, cycles). (b64_round (of_int ns), cycles)) ws))
       (measure_windows kRounds now tsc (1, 1))"

text \<open>The function-local static: computed at the first call and kept; a call returns the value and the new cache.\<close>

definition tsc_calibration_once ::
    "architecture \<Rightarrow> u64 \<Rightarrow> (nat \<Rightarrow> int) \<Rightarrow> (nat \<Rightarrow> u64) \<Rightarrow> tsc_calibration option
     \<Rightarrow> (tsc_calibration \<times> tsc_calibration option) option" where
  "tsc_calibration_once arch cntfrq now tsc cache =
     (case cache of
        Some cal \<Rightarrow> Some (cal, cache)
      | None \<Rightarrow> map_option (\<lambda>cal. (cal, Some cal)) (detail_calibrate_tsc arch cntfrq now tsc))"

text \<open>So reports and conversions never see two calibrations.\<close>

lemma tsc_calibration_stable:
  "tsc_calibration_once arch cntfrq now tsc cache = Some (cal, cache')
    \<Longrightarrow> tsc_calibration_once arch cntfrq' now' tsc' cache' = Some (cal, cache')"
  by (auto simp: tsc_calibration_once_def split: option.splits)


subsection \<open>The windows\<close>

text \<open>A monotone clock that passes every point in time, as \<open>steady_clock\<close> promises.\<close>

definition steady :: "(nat \<Rightarrow> int) \<Rightarrow> bool" where
  "steady now \<longleftrightarrow> (\<forall>i j. i \<le> j \<longrightarrow> now i \<le> now j) \<and> (\<forall>t. \<exists>k. t \<le> now k)"

lemma window_spin_returns:
  assumes "steady now"
  obtains k' where "window_spin now deadline k = Some k'" "k < k'" "deadline \<le> now k'"
proof -
  obtain j where "deadline \<le> now j"
    using assms unfolding steady_def by blast
  moreover have "now j \<le> now (max j k)"
    using assms by (simp add: steady_def)
  ultimately have "\<not> now (max j k) < deadline"
    by simp
  then obtain i where i: "spin_while (\<lambda>k. now k < deadline) k = Some i" "k \<le> i" "\<not> now i < deadline"
    using spin_while_returns [of "\<lambda>k. now k < deadline" "max j k" k] by auto
  moreover have "now i \<le> now (Suc i)"
    using assms by (simp add: steady_def)
  ultimately show thesis
    by (intro that [of "Suc i"]) (auto simp: window_spin_def)
qed

text \<open>Every window is measured, and none is shorter than \<^const>\<open>kWindow\<close>.\<close>

lemma measure_window_returns:
  assumes "steady now"
  obtains ns c r' where "measure_window now tsc r = Some ((ns, c), r')" "kWindow \<le> ns"
proof -
  obtain k j where r: "r = (k, j)"
    by (cases r)
  obtain k1 where "window_spin now (now k + kWindow) (k + 1) = Some k1" "now k + kWindow \<le> now k1"
    using window_spin_returns [OF assms] by blast
  then show thesis
    by (intro that) (auto simp: measure_window_def r Let_def)
qed

lemma measure_windows_return:
  assumes "steady now"
  shows "\<exists>ws r'. measure_windows n now tsc r = Some (ws, r') \<and> length ws = n \<and> (\<forall>(ns, c) \<in> set ws. kWindow \<le> ns)"
proof (induction n arbitrary: r)
  case (Suc n)
  obtain ns c r1 where "measure_window now tsc r = Some ((ns, c), r1)" "kWindow \<le> ns"
    using measure_window_returns [OF assms] by blast
  with Suc.IH [of r1] show ?case
    by auto
qed simp


subsection \<open>Accuracy\<close>

text \<open>
  A window agrees with a true tick period \<open>rho\<close> to within \<open>jit\<close> nanoseconds: the time it took and the ticks it
  counted differ by no more than that. A window of usable length loses nothing when its counts become doubles.
\<close>

definition agrees :: "rat \<Rightarrow> rat \<Rightarrow> int \<times> u64 \<Rightarrow> bool" where
  "agrees rho jit w \<longleftrightarrow> \<bar>of_int (fst w) - rho * of_nat (unat (snd w))\<bar> \<le> jit
     \<and> fst w \<le> 2 ^ 53 \<and> unat (snd w) \<le> 2 ^ 53"

lemma ratio_of_agreeing:
  assumes "agrees rho jit (ns, c)" "kWindow \<le> ns" "0 < rho" "0 \<le> jit" "jit < of_int kWindow"
  defines "w \<equiv> of_int kWindow :: rat"
  shows "b64_round (rho * (w / (w + jit))) \<le> round_ratio (b64_round (of_int ns), c)
    \<and> round_ratio (b64_round (of_int ns), c) \<le> b64_round (rho * (w / (w - jit)))"
proof -
  let ?n = "of_int ns :: rat" and ?c = "of_nat (unat c) :: rat"
  have n: "w \<le> ?n" "0 < w"
    using assms(2) by (simp_all add: w_def kWindow_def)
  have "\<bar>?n - rho * ?c\<bar> \<le> jit"
    using assms(1) by (simp only: agrees_def fst_conv snd_conv)
  then have near: "rho * ?c \<le> ?n + jit" "?n - jit \<le> rho * ?c"
    by linarith+
  have c: "0 < ?c"
  proof (rule ccontr)
    assume "\<not> 0 < ?c"
    then have "?c = 0"
      by (simp only: of_nat_0_less_iff not_gr_zero of_nat_0)
    then have "?n \<le> jit"
      using near(2) by (simp only: mult_zero_right diff_le_0_iff_le)
    then show False
      using n(1) assms(5) by (simp add: w_def)
  qed
  have "nat ns \<le> 2 ^ 53"
    using assms(1) by (simp add: agrees_def nat_le_iff)
  then have exact: "b64_round ?n = ?n" "double_of_u64 c = ?c"
    using assms(1,2) b64_round_nat [of "nat ns"] double_of_u64_exact [of c] by (simp_all add: agrees_def kWindow_def)
  have lo: "rho * (w / (w + jit)) \<le> ?n / ?c"
  proof -
    have "w * jit \<le> ?n * jit"
      using n assms(4) by (intro mult_right_mono)
    then have "w * (rho * ?c) \<le> ?n * (w + jit)"
      using mult_left_mono [OF near(1), of w] n(2) by (simp add: algebra_simps)
    then show ?thesis
      using c n assms(4) by (simp add: field_simps)
  qed
  have hi: "?n / ?c \<le> rho * (w / (w - jit))"
  proof -
    have "w * jit \<le> ?n * jit"
      using n assms(4) by (intro mult_right_mono)
    then have "?n * (w - jit) \<le> w * (rho * ?c)"
      using mult_left_mono [OF near(2), of w] n(2) by (simp add: algebra_simps)
    then show ?thesis
      using c n assms(4,5) by (simp add: field_simps w_def)
  qed
  show ?thesis
    using lo hi c exact by (auto simp: round_ratio_def ddiv_def intro: b64_round_mono)
qed


subsection \<open>Property\<close>

text \<open>
  C21. The calibration returns on any monotone clock that keeps going, after nine windows of at least 5 milliseconds
  each, and it is accurate and robust: if in any five of the nine the steady clock and the counter agree to within
  \<open>jit\<close> nanoseconds on a tick period \<open>rho\<close>, the factor every measurement is multiplied by is \<open>rho\<close> up to the
  relative error \<open>jit\<close> makes in 5 milliseconds and one rounding, whatever the other four measured.
\<close>

theorem calibration_accurate:
  fixes rho jit :: rat and now :: "nat \<Rightarrow> int" and tsc :: "nat \<Rightarrow> u64"
  assumes "steady now" "0 < rho" "0 \<le> jit" "jit < of_int kWindow"
  shows "\<exists>ws r cal. measure_windows kRounds now tsc (1, 1) = Some (ws, r) \<and> length ws = kRounds
    \<and> (\<forall>(ns, cycles) \<in> set ws. kWindow \<le> ns) \<and> detail_calibrate_tsc arch cntfrq now tsc = Some cal
    \<and> (5 \<le> length (filter (agrees rho jit) ws)
        \<longrightarrow> b64_round (rho * (of_int kWindow / (of_int kWindow + jit))) \<le> ns_per_cycle cal
          \<and> ns_per_cycle cal \<le> b64_round (rho * (of_int kWindow / (of_int kWindow - jit))))"
proof -
  obtain ws r where ws: "measure_windows kRounds now tsc (1, 1) = Some (ws, r)" "length ws = kRounds"
    "\<forall>(ns, cycles) \<in> set ws. kWindow \<le> ns"
    using measure_windows_return [OF assms(1)] by blast
  let ?lo = "b64_round (rho * (of_int kWindow / (of_int kWindow + jit)))"
  let ?hi = "b64_round (rho * (of_int kWindow / (of_int kWindow - jit)))"
  let ?rounds = "map (\<lambda>(ns, cycles). (b64_round (of_int ns), cycles)) ws"
  let ?cal = "calibrate_tsc (counter_source arch) (hardware_counter_hz cntfrq arch) ?rounds"
  have "?lo \<le> ns_per_cycle ?cal \<and> ns_per_cycle ?cal \<le> ?hi" if five: "5 \<le> length (filter (agrees rho jit) ws)"
  proof -
    let ?good = "\<lambda>r. ?lo \<le> round_ratio r \<and> round_ratio r \<le> ?hi"
    have "length (filter (agrees rho jit) ws) \<le> length (filter (\<lambda>w. ?good (case w of (ns, c) \<Rightarrow> (b64_round (of_int ns), c))) ws)"
    proof (rule length_filter_imp)
      fix w
      assume "w \<in> set ws" "agrees rho jit w"
      then show "?good (case w of (ns, c) \<Rightarrow> (b64_round (of_int ns), c))"
        using ws(3) ratio_of_agreeing [OF _ _ assms(2-4)] by (cases w) auto
    qed
    then have "5 \<le> length (filter ?good ?rounds)"
      using five by (simp add: filter_map comp_def)
    from calibration_outlier_robust [OF _ this] ws(2) show ?thesis
      by simp
  qed
  with ws show ?thesis
    by (intro exI [of _ ws] exI [of _ r] exI [of _ ?cal]) (simp add: detail_calibrate_tsc_def)
qed

text \<open>Two clocks that tick alike: every window of the demonstration measures the same.\<close>

lemma demo_windows:
  "measure_windows n (\<lambda>k. int k * kWindow) (\<lambda>j. of_nat j * 10000000) r
     = Some (replicate n (2 * kWindow, 10000000), fst r + 3 * n, snd r + 2 * n)"
proof (induction n arbitrary: r)
  case (Suc n)
  have "spin_while (\<lambda>k. int k * kWindow < int i * kWindow + kWindow) (i + 1) = Some (i + 1)" for i
    using spin_while_first [of "i + 1" 0] by (simp add: algebra_simps)
  then have "measure_window (\<lambda>k. int k * kWindow) (\<lambda>j. of_nat j * 10000000) r = Some ((2 * kWindow, 10000000), fst r + 3, snd r + 2)"
    by (cases r) (simp add: measure_window_def window_spin_def Let_def algebra_simps)
  with Suc show ?case
    by (simp add: algebra_simps)
qed (simp add: kWindow_def)

theorem calibration_accurate_witness:
  "\<exists>cal. detail_calibrate_tsc X86_64 0 (\<lambda>k. int k * kWindow) (\<lambda>j. of_nat j * 10000000) = Some cal \<and> ns_per_cycle cal = 1"
proof -
  have "steady (\<lambda>k. int k * kWindow)"
    unfolding steady_def
  proof (intro conjI allI)
    show "\<exists>k. t \<le> int k * kWindow" for t
      by (rule exI [of _ "nat t"]) (simp add: kWindow_def)
  qed (simp add: kWindow_def)
  moreover have "length (filter (agrees 1 0) (replicate kRounds (2 * kWindow, 10000000))) = kRounds"
    by (simp add: agrees_def kWindow_def)
  moreover have "5 \<le> kRounds"
    by (simp add: kRounds_def)
  moreover have "b64_round 1 = 1"
    using b64_round_nat [of 1] by simp
  moreover have "(0 :: rat) < of_int kWindow"
    by (simp add: kWindow_def)
  ultimately obtain cal where "detail_calibrate_tsc X86_64 0 (\<lambda>k. int k * kWindow) (\<lambda>j. of_nat j * 10000000) = Some cal"
    "1 \<le> ns_per_cycle cal" "ns_per_cycle cal \<le> 1"
    using calibration_accurate [of "\<lambda>k. int k * kWindow" 1 0 "\<lambda>j. of_nat j * 10000000" X86_64 0]
    by (auto simp: demo_windows)
  then show ?thesis
    by (intro exI [of _ cal]) simp
qed

end
