(* ===== verification/ProgramRun.thy ===== *)
theory ProgramRun
  imports HarnessRun ProgramOutput Calibration
begin

text \<open>
  The three programs from their command line to their exit: \<open>apps/hft_main.cpp\<close>, \<open>tools/exchange_sim.cpp\<close> and
  \<open>tools/latency_report.cpp\<close>. Each \<open>main\<close> calibrates, reads its configuration, constructs what it runs with its
  sockets, runs it, prints, and destroys it. What the process finds around it is the record \<open>process\<close>; the
  schedule of the threads and the moments at which signals arrive are arguments.

  An \<open>outcome\<close> is the exit status with the text on standard output, the files written and the calls on descriptors, or
  the end of the process by an exception that nobody catches. \<^const>\<open>None\<close> is a program that does not end.
\<close>

datatype outcome = Exited int "string option" "(string \<times> string) list" "fd_call list" | Uncaught

record process =
  pr_pton :: "string \<Rightarrow> u32 option"
  pr_underflow :: "rat \<Rightarrow> rat option"
  pr_read_file :: "string \<Rightarrow> string option"
  pr_can_open :: "string \<Rightarrow> bool"
  pr_os :: os_calls
  pr_getsockname :: "int \<Rightarrow> sockaddr_in option"
  pr_arch :: architecture
  pr_cntfrq :: u64
  pr_steady :: "nat \<Rightarrow> int"
  pr_counter :: "nat \<Rightarrow> u64"
  pr_cpus :: "nat option"
  pr_affinity :: "nat \<Rightarrow> int"

definition process_calibration :: "process \<Rightarrow> tsc_calibration option" where
  "process_calibration pr = detail_calibrate_tsc (pr_arch pr) (pr_cntfrq pr) (pr_steady pr) (pr_counter pr)"


subsection \<open>The engine program\<close>

text \<open>
  The wait for a signal or the deadline: \<open>stop k\<close> is the \<open>k\<close>-th reading of \<open>g_stop\<close>, \<open>now\<close> the readings of the steady clock in
  nanoseconds, the first of which sets the deadline. The result is the number of the reading that ended it.
\<close>

definition main_wait :: "i64 \<Rightarrow> (nat \<Rightarrow> bool) \<Rightarrow> (nat \<Rightarrow> i64) \<Rightarrow> nat option" where
  "main_wait duration_ms stop now =
     (if 0 < sint duration_ms
      then let deadline = now 0 + duration_ms * 1000000
           in spin_while (\<lambda>k. \<not> stop k \<and> sint (now (Suc k)) < sint deadline) 0
      else spin_while (\<lambda>k. \<not> stop k) 0)"

text \<open>\<open>turns k\<close> is what the threads do before the \<open>k\<close>-th reading; the joins after \<open>stop\<close> let the polls under way end.\<close>

definition main_turns :: "(nat \<Rightarrow> turn list) \<Rightarrow> nat \<Rightarrow> turn list" where
  "main_turns turns k = concat (map turns [0..<Suc k]) @ [StopTurn]"

definition hft_main ::
    "process \<Rightarrow> string list \<Rightarrow> (nat \<Rightarrow> bool) \<Rightarrow> (nat \<Rightarrow> i64) \<Rightarrow> (nat \<Rightarrow> turn list) \<Rightarrow> exchange \<Rightarrow> outcome option" where
  "hft_main pr argv stop now turns sx =
     Option.bind (process_calibration pr) (\<lambda>cal.
     let duration_ms = arg_long argv ''--duration-ms'' 0 in
     case engine_config_default (pr_pton pr) of
       None \<Rightarrow> Some Uncaught
     | Some cfg \<Rightarrow>
         Option.bind (main_config (pr_underflow pr) (pr_pton pr) (pr_read_file pr) argv cfg) (\<lambda>parsed.
         case parsed of
           Inl e \<Rightarrow> Some (Exited 1 (Some []) [] [])
         | Inr cfg \<Rightarrow>
             (case engine_sockets (pr_os pr) cfg 0 of
                (calls, Inl e) \<Rightarrow> Some Uncaught
              | (calls, Inr fds) \<Rightarrow>
                  Option.bind (main_wait duration_ms stop now) (\<lambda>k.
                  map_option (\<lambda>mc. Exited 0 (Some (main_banner cfg @ main_summary cal (sy_en (mc_sys mc)))) []
                                     (calls @ engine_close fds))
                    (engine_run cal (main_turns turns k)
                      (machine_start (pr_cpus pr) (pr_affinity pr) kEngineSizes (cycles_per_ns cal) cfg sx))))))"


subsection \<open>The exchange alone\<close>

text \<open>
  The run is told to stop by a signal or by the stopper thread, which exists when there is a duration: it sleeps that long
  and clears \<open>g_running\<close>. After the run \<open>main\<close> joins the stopper, so it goes on only when the sleep is over, also after a
  signal. The moments are numbered from the start of the stopper: at moment \<open>k\<close> a signal has arrived or not
  (\<open>signalled k\<close>) and the stopper sees the steady clock at \<open>now k\<close> nanoseconds. The \<open>k\<close>-th round of the run reads
  \<open>g_running\<close> at moment \<open>k\<close>, and \<open>inbox k\<close> holds the orders that wait in it. The result has the outcome and, when there was a
  run, the moments at which it stopped and at which the join returned. The closing line goes to standard error.
\<close>

definition stopper_asleep :: "i64 \<Rightarrow> (nat \<Rightarrow> int) \<Rightarrow> nat \<Rightarrow> bool" where
  "stopper_asleep duration_ms now k \<longleftrightarrow> 0 < sint duration_ms \<and> now k < now 0 + sint duration_ms * 1000000"

definition sim_running :: "i64 \<Rightarrow> (nat \<Rightarrow> bool) \<Rightarrow> (nat \<Rightarrow> int) \<Rightarrow> nat \<Rightarrow> bool" where
  "sim_running duration_ms signalled now k \<longleftrightarrow>
     \<not> signalled k \<and> (if 0 < sint duration_ms then stopper_asleep duration_ms now k else True)"

definition exchange_sim ::
    "process \<Rightarrow> string list \<Rightarrow> (nat \<Rightarrow> bool) \<Rightarrow> (nat \<Rightarrow> int) \<Rightarrow> (nat \<Rightarrow> u8 list list) \<Rightarrow> (nat \<Rightarrow> u64)
     \<Rightarrow> (outcome \<times> (nat \<times> nat \<times> u8 list list \<times> u8 list list \<times> exchange) option) option" where
  "exchange_sim pr argv signalled now inbox clock =
     Option.bind (process_calibration pr) (\<lambda>cal.
     case sim_setup_of (pr_pton pr) argv of
       None \<Rightarrow> Some (Uncaught, None)
     | Some su \<Rightarrow>
         (case exchange_sockets (pr_os pr) (ss_order_port su) 0 of
            (calls, Inl e) \<Rightarrow> Some (Uncaught, None)
          | (calls, Inr fds) \<Rightarrow>
              Option.bind (spin_while (sim_running (ss_duration_ms su) signalled now) 0) (\<lambda>stopped.
              Option.bind (sx_run clock (map inbox [0..<stopped]) (exchange_init (cycles_per_ns cal) (ss_config su))) (\<lambda>run.
              map_option (\<lambda>joined. (Exited 0 (Some []) [] (calls @ exchange_close fds), Some (stopped, joined, run)))
                (spin_while (stopper_asleep (ss_duration_ms su) now) stopped)))))"


subsection \<open>The latency harness\<close>

definition latency_report ::
    "process \<Rightarrow> string list \<Rightarrow> (nat \<Rightarrow> u64) \<Rightarrow> harness_action list \<Rightarrow> harness_action list \<Rightarrow> outcome option" where
  "latency_report pr argv clock asleep joining =
     (case report_wait_policy argv of
        Inl status \<Rightarrow> Some (Exited status (Some []) [] [])
      | Inr wait_policy \<Rightarrow>
          Option.bind (process_calibration pr) (\<lambda>cal.
          case report_engine_config (pr_pton pr) argv wait_policy of
            None \<Rightarrow> Some Uncaught
          | Some ecfg \<Rightarrow>
              (case engine_sockets (pr_os pr) ecfg 0 of
                 (calls1, Inl e) \<Rightarrow> Some Uncaught
               | (calls1, Inr (feed_rx, order_tx, fill_rx)) \<Rightarrow>
                   (case exchange_sockets (pr_os pr) 0 3 of
                      (calls2, Inl e) \<Rightarrow> Some Uncaught
                    | (calls2, Inr (feed_tx, fill_tx, order_rx)) \<Rightarrow>
                        let local = (\<lambda>fd. udp_local_port (pr_getsockname pr fd)) in
                        case report_setup_of (pr_pton pr) cal argv (local feed_rx) (local fill_rx) (local order_rx) of
                          None \<Rightarrow> Some Uncaught
                        | Some (Inl status) \<Rightarrow> Some (Exited status (Some []) [] [])
                        | Some (Inr r) \<Rightarrow>
                            map_option (\<lambda>h.
                              case report_output cal (pr_can_open pr) argv wait_policy (mc_exchange (hs_machine h))
                                     (sy_en (mc_sys (hs_machine h))) of
                                (text, files) \<Rightarrow>
                                  Exited 0 (Some text) files
                                    (calls1 @ calls2 @ exchange_close (feed_tx, fill_tx, order_rx)
                                      @ engine_close (feed_rx, order_tx, fill_rx)))
                              (harness_main cal clock asleep joining
                                 (start_threads (pr_cpus pr) (pr_affinity pr) ecfg) r)))))"


subsection \<open>The waits end\<close>

lemma spin_while_ends: "(\<exists>i. spin_while busy k = Some i) \<longleftrightarrow> (\<exists>j \<ge> k. \<not> busy j)"
  using spin_while_result [of busy k] spin_while_returns [of busy _ k] by (metis option.inject)

definition wait_over :: "i64 \<Rightarrow> (nat \<Rightarrow> bool) \<Rightarrow> (nat \<Rightarrow> i64) \<Rightarrow> nat \<Rightarrow> bool" where
  "wait_over duration_ms stop now k \<longleftrightarrow>
     stop k \<or> 0 < sint duration_ms \<and> sint (now 0 + duration_ms * 1000000) \<le> sint (now (Suc k))"

text \<open>The wait is over at a signal, or at the deadline when there is one; without either it never is.\<close>

lemma main_wait_ends: "(\<exists>k. main_wait duration_ms stop now = Some k) \<longleftrightarrow> (\<exists>k. wait_over duration_ms stop now k)"
  by (auto simp: main_wait_def wait_over_def spin_while_ends Let_def not_less)

text \<open>
  The conversion of the duration to nanoseconds can overflow: with the greatest duration the command line can give, the
  deadline lies in the past and the program ends at once.
\<close>

lemma main_wait_overflow:
  assumes "sint (now 0) = 0" "0 \<le> sint (now 1)"
  shows "main_wait 9223372036854775807 (\<lambda>k. False) now = Some 0"
proof -
  have "now 0 = 0"
    using assms(1) by (metis signed_0 signed_word_eqI)
  moreover have "sint (9223372036854775807 * 1000000 :: i64) = - 1000000"
    by simp
  ultimately have "\<not> sint (now (Suc 0)) < sint (now 0 + 9223372036854775807 * 1000000)"
    using assms(2) by simp
  moreover have "0 < sint (9223372036854775807 :: i64)"
    by simp
  ultimately show ?thesis
    using spin_while_first [of 0 0 "\<lambda>k. sint (now (Suc k)) < sint (now 0 + 9223372036854775807 * 1000000)"]
    unfolding main_wait_def Let_def by (simp only: if_True not_False_eq_True simp_thms add_0 not_less_zero)
qed


subsection \<open>The descriptors\<close>

lemma engine_lifetime: "engine_sockets os cfg k = (calls, Inr fds) \<Longrightarrow> open_fds fs (calls @ engine_close fds) = Some fs"
  using engine_owner.lifetime_neutral [of os cfg k calls "Inr fds" fs] by simp

lemma exchange_lifetime: "exchange_sockets os port k = (calls, Inr fds) \<Longrightarrow> open_fds fs (calls @ exchange_close fds) = Some fs"
  using exchange_owner.lifetime_neutral [of os port k calls "Inr fds" fs] by simp

text \<open>The exchange of the harness lives inside the life of the engine.\<close>

lemma harness_lifetime:
  assumes "engine_sockets os cfg k = (calls1, Inr fds1)" "exchange_sockets os port j = (calls2, Inr fds2)"
  shows "open_fds fs (calls1 @ calls2 @ exchange_close fds2 @ engine_close fds1) = Some fs"
proof -
  have "open_fds fs calls1 = Some (engine_fds fds1 @ fs)"
    by (rule engine_owner.returns_open [OF assms(1)])
  moreover have "open_fds (engine_fds fds1 @ fs) (calls2 @ exchange_close fds2) = Some (engine_fds fds1 @ fs)"
    by (rule exchange_lifetime [OF assms(2)])
  moreover have "open_fds (engine_fds fds1 @ fs) (engine_close fds1) = Some fs"
    using engine_owner.destroy_ok [of os cfg k fds1 fs] assms(1) by simp
  ultimately show ?thesis
    using open_fds_append [of fs calls1] open_fds_append [of "engine_fds fds1 @ fs" "calls2 @ exchange_close fds2" "engine_close fds1"]
    by simp
qed


subsection \<open>The engine's run\<close>

lemma process_calibrates:
  assumes "steady (pr_steady pr)"
  obtains cal where "process_calibration pr = Some cal"
  using measure_windows_return [OF assms, of kRounds "pr_counter pr" "(1, 1)"]
  by (auto simp: process_calibration_def detail_calibrate_tsc_def)

lemma main_config_returns: "main_config uf pton read_file argv cfg \<noteq> None"
  using parse_document_ends [of uf]
  by (auto simp: main_config_def load_file_def and_then_def split: option.split sum.split) (metis option.distinct(1))+

text \<open>The configuration the engine is constructed from, or why there is none.\<close>

definition main_configured :: "process \<Rightarrow> string list \<Rightarrow> engine_config parsed" where
  "main_configured pr argv =
     Option.bind (engine_config_default (pr_pton pr)) (main_config (pr_underflow pr) (pr_pton pr) (pr_read_file pr) argv)"

text \<open>The first line of the summary, when its counters are what they are in a reachable state.\<close>

lemma main_run:
  assumes "length ts < 2 ^ 64"
  obtains mc n m r where "engine_run cal ts (machine_start cpus aff kEngineSizes cpn cfg sx) = Some mc" "accounts (mc_sys mc) n m r"
    "main_summary cal (sy_en (mc_sys mc)) = [newline] @ ''orders sent='' @ show_nat n @ ''  fills matched='' @ show_nat m @
       ''  risk rejected='' @ show_nat r @ [newline] @ engine_report cal (sy_en (mc_sys mc))"
proof -
  have "reached cal kEngineSizes cpn cfg (length ts + 0) (machine_start cpus aff kEngineSizes cpn cfg sx)"
    using reached_start [OF kEngineSizes_ok, of "length ts"] assms by simp
  then obtain mc where mc: "engine_run cal ts (machine_start cpus aff kEngineSizes cpn cfg sx) = Some mc"
    and "reached cal kEngineSizes cpn cfg 0 mc"
    by (rule reached_run)
  then have "sys_runs cal (system_init kEngineSizes cpn cfg) (mc_sys mc)" "length (sy_orders (mc_sys mc)) < 2 ^ 64"
    by (simp_all add: reached_def)
  then obtain n m r where "accounts (mc_sys mc) n m r"
    using reachable_accounts [OF _ kEngineSizes_ok] by blast
  then show thesis
    by (intro that [OF mc]) (simp_all add: main_summary_def show_u64_def accountsD)
qed


subsection \<open>The exchange's run\<close>

lemma stopper_waits_end:
  assumes "steady now" "0 < sint duration_ms \<or> signalled j"
  obtains stopped joined where "spin_while (sim_running duration_ms signalled now) 0 = Some stopped"
    "spin_while (stopper_asleep duration_ms now) stopped = Some joined"
proof -
  obtain d where d: "now 0 + sint duration_ms * 1000000 \<le> now d"
    using assms(1) unfolding steady_def by blast
  have over: "\<not> stopper_asleep duration_ms now k" if "d \<le> k" for k
  proof -
    have "now d \<le> now k"
      using assms(1) that unfolding steady_def by blast
    with d show ?thesis
      by (simp add: stopper_asleep_def)
  qed
  have "\<not> sim_running duration_ms signalled now (if 0 < sint duration_ms then d else j)"
    using assms(2) over [of d] by (auto simp: sim_running_def)
  then obtain stopped where "spin_while (sim_running duration_ms signalled now) 0 = Some stopped"
    using spin_while_returns by (metis le0)
  moreover have "\<not> stopper_asleep duration_ms now (max d stopped)"
    by (simp add: over)
  then obtain joined where "spin_while (stopper_asleep duration_ms now) stopped = Some joined"
    using spin_while_returns by (metis max.cobounded2)
  ultimately show thesis
    by (rule that)
qed

lemma sim_run_shows_quotes:
  assumes "sim_setup_of pton argv = Some su" "sends_on clock (exchange_init cpn (ss_config su))"
  obtains sent fills sx where "sx_run clock inboxes (exchange_init cpn (ss_config su)) = Some (sent, fills, sx)" "pending sx = []"
    "let b = fold apply_msg (received sent) (book_init 4096 (price_from_double 80) (i64_div kPriceScale 100)) in
      two_sided b \<and> best_bid_price b = sx_best_bid sx \<and> best_bid_size b = sx_bid_sz sx
      \<and> best_ask_price b = sx_best_ask sx \<and> best_ask_size b = sx_ask_sz sx"
proof -
  let ?cf = "ss_config su"
  have cf: "cf_base_price ?cf = 1000000" "cf_tick ?cf = 100"
    using assms(1) by (auto simp: sim_setup_of_def default_values Let_def split: option.splits)
  have fits: "cfg_fits ?cf" "window_ok ?cf 4096 2000"
    by (simp_all add: cfg_fits_def window_ok_def cf in_i64_def)
  have book: "window_book ?cf 4096 2000 = book_init 4096 (price_from_double 80) (i64_div kPriceScale 100)"
    by (simp add: window_book_def grid_def cf default_values)
  from run_shows_quotes [OF fits assms(2), of inboxes] show thesis
    unfolding book using that by blast
qed


subsection \<open>Properties\<close>

text \<open>
  C39. The engine program ends whenever its wait does - at a signal or at the deadline - for every command line, every
  configuration file and every schedule of its threads: with status 1 on a configuration it cannot read, by an uncaught
  exception when an address or a socket is refused, and otherwise with status 0. Every descriptor it opened is then
  closed, and the numbers it prints are true (\<^const>\<open>accounts\<close>): the orders sent are the datagrams on the wire; the fills
  matched are those of them that are no longer outstanding at the gateway, whose signed sum is the risk position; and
  with the orders still queued and the rejected ones they are all the orders the strategy numbered.
\<close>

theorem hft_main_ends:
  fixes argv :: "string list"
  defines "duration_ms \<equiv> arg_long argv ''--duration-ms'' 0"
  assumes "steady (pr_steady pr)" "wait_over duration_ms stop now j"
    and "\<And>k. main_wait duration_ms stop now = Some k \<Longrightarrow> length (main_turns turns k) < 2 ^ 64"
  shows "\<exists>out. hft_main pr argv stop now turns sx = Some out \<and>
    (case out of
       Uncaught \<Rightarrow> engine_config_default (pr_pton pr) = None
         \<or> (\<exists>cfg calls e. main_configured pr argv = Some (Inr cfg) \<and> engine_sockets (pr_os pr) cfg 0 = (calls, Inl e))
     | Exited status printed files calls \<Rightarrow>
         files = [] \<and> open_fds fs calls = Some fs \<and>
         (status = 1 \<and> printed = Some [] \<and> (\<exists>e. main_configured pr argv = Some (Inl e)) \<or>
          status = 0 \<and> (\<exists>cal cfg k mc n m r. accounts (mc_sys mc) n m r \<and>
            main_configured pr argv = Some (Inr cfg) \<and> process_calibration pr = Some cal \<and> main_wait duration_ms stop now = Some k \<and>
            engine_run cal (main_turns turns k)
              (machine_start (pr_cpus pr) (pr_affinity pr) kEngineSizes (cycles_per_ns cal) cfg sx) = Some mc \<and>
            printed = Some (main_banner cfg @ [newline] @ ''orders sent='' @ show_nat n @ ''  fills matched='' @ show_nat m @
              ''  risk rejected='' @ show_nat r @ [newline] @ engine_report cal (sy_en (mc_sys mc))))))"
proof -
  obtain cal where cal: "process_calibration pr = Some cal"
    using process_calibrates [OF assms(2)] .
  obtain k where k: "main_wait duration_ms stop now = Some k"
    using main_wait_ends assms(3) by blast
  note configured = main_configured_def
  consider "engine_config_default (pr_pton pr) = None"
    | cfg0 e where "engine_config_default (pr_pton pr) = Some cfg0"
        "main_config (pr_underflow pr) (pr_pton pr) (pr_read_file pr) argv cfg0 = Some (Inl e)"
    | cfg0 cfg calls e where "engine_config_default (pr_pton pr) = Some cfg0"
        "main_config (pr_underflow pr) (pr_pton pr) (pr_read_file pr) argv cfg0 = Some (Inr cfg)"
        "engine_sockets (pr_os pr) cfg 0 = (calls, Inl e)"
    | cfg0 cfg calls fds where "engine_config_default (pr_pton pr) = Some cfg0"
        "main_config (pr_underflow pr) (pr_pton pr) (pr_read_file pr) argv cfg0 = Some (Inr cfg)"
        "engine_sockets (pr_os pr) cfg 0 = (calls, Inr fds)"
    using main_config_returns by (metis option.exhaust prod.exhaust sum.exhaust)
  then show ?thesis
  proof cases
    case 4
    obtain mc n m r where run: "engine_run cal (main_turns turns k)
        (machine_start (pr_cpus pr) (pr_affinity pr) kEngineSizes (cycles_per_ns cal) cfg sx) = Some mc"
      and counts: "accounts (mc_sys mc) n m r"
      and printed: "main_summary cal (sy_en (mc_sys mc)) = [newline] @ ''orders sent='' @ show_nat n @ ''  fills matched='' @ show_nat m @
         ''  risk rejected='' @ show_nat r @ [newline] @ engine_report cal (sy_en (mc_sys mc))"
      using main_run [OF assms(4) [OF k]] .
    have "hft_main pr argv stop now turns sx =
        Some (Exited 0 (Some (main_banner cfg @ main_summary cal (sy_en (mc_sys mc)))) [] (calls @ engine_close fds))"
      using 4 cal k run by (simp add: hft_main_def Let_def flip: duration_ms_def)
    moreover have "main_configured pr argv = Some (Inr cfg)"
      using 4 by (simp add: configured)
    moreover have "open_fds fs (calls @ engine_close fds) = Some fs"
      using 4(3) by (rule engine_lifetime)
    ultimately show ?thesis
      using cal k run counts printed by (intro exI conjI) (assumption, simp, blast)
  qed (use cal in \<open>simp_all add: hft_main_def configured Let_def\<close>)
qed

text \<open>
  C40. The exchange program ends once it is told to stop, whatever orders arrive: with a duration always, and without one if
  a signal comes. It stops publishing at the first moment at which it sees a signal or the end of the duration, and exits
  when the duration has passed, which after a signal may be much later. Then every descriptor is closed and no message
  is left unsent, and a book with the default window of the engine program that receives all of its feed shows its last
  quotes exactly, whatever rate, batch and symbol the command line asks for.
\<close>

theorem exchange_sim_ends:
  fixes argv :: "string list"
  defines "duration_ms \<equiv> arg_long argv ''--duration-ms'' 0"
  assumes "steady (pr_steady pr)" "clock_passes clock" "steady now" "0 < sint duration_ms \<or> signalled j"
  shows "\<exists>out run. exchange_sim pr argv signalled now inbox clock = Some (out, run) \<and>
    (case run of
       None \<Rightarrow> out = Uncaught \<and> (\<forall>su. sim_setup_of (pr_pton pr) argv = Some su \<longrightarrow>
         (\<exists>calls e. exchange_sockets (pr_os pr) (ss_order_port su) 0 = (calls, Inl e)))
     | Some (stopped, joined, sent, fills, sx) \<Rightarrow>
         (\<exists>calls. out = Exited 0 (Some []) [] calls \<and> open_fds fs calls = Some fs) \<and>
         (\<forall>k < stopped. sim_running duration_ms signalled now k) \<and> \<not> sim_running duration_ms signalled now stopped \<and>
         stopped \<le> joined \<and> (0 < sint duration_ms \<longrightarrow> now 0 + sint duration_ms * 1000000 \<le> now joined) \<and>
         (\<forall>k. stopped \<le> k \<and> k < joined \<longrightarrow> stopper_asleep duration_ms now k) \<and> pending sx = [] \<and>
         (let b = fold apply_msg (received sent) (book_init 4096 (price_from_double 80) (i64_div kPriceScale 100)) in
          two_sided b \<and> best_bid_price b = sx_best_bid sx \<and> best_bid_size b = sx_bid_sz sx
          \<and> best_ask_price b = sx_best_ask sx \<and> best_ask_size b = sx_ask_sz sx))"
proof -
  obtain cal where cal: "process_calibration pr = Some cal"
    using process_calibrates [OF assms(2)] .
  obtain stopped joined where
    waits: "spin_while (sim_running duration_ms signalled now) 0 = Some stopped"
      "spin_while (stopper_asleep duration_ms now) stopped = Some joined"
    using stopper_waits_end [where signalled = signalled and j = j, OF assms(4,5)] .
  note moments = spin_while_result [OF waits(1)] spin_while_result [OF waits(2)]
  consider "sim_setup_of (pr_pton pr) argv = None"
    | su calls e where "sim_setup_of (pr_pton pr) argv = Some su" "exchange_sockets (pr_os pr) (ss_order_port su) 0 = (calls, Inl e)"
    | su calls fds where "sim_setup_of (pr_pton pr) argv = Some su" "exchange_sockets (pr_os pr) (ss_order_port su) 0 = (calls, Inr fds)"
    by (metis option.exhaust prod.exhaust sum.exhaust)
  then show ?thesis
  proof cases
    case 3
    have duration: "ss_duration_ms su = duration_ms"
      using 3(1) by (auto simp: sim_setup_of_def duration_ms_def Let_def split: option.splits)
    have "sends_on clock (exchange_init (cycles_per_ns cal) (ss_config su))"
      using assms(3) by (simp add: sends_on_def)
    from sim_run_shows_quotes [OF 3(1) this, of "map inbox [0..<stopped]"] obtain sent fills sx where
      run: "sx_run clock (map inbox [0..<stopped]) (exchange_init (cycles_per_ns cal) (ss_config su)) = Some (sent, fills, sx)"
      and rest: "pending sx = []"
      "let b = fold apply_msg (received sent) (book_init 4096 (price_from_double 80) (i64_div kPriceScale 100)) in
        two_sided b \<and> best_bid_price b = sx_best_bid sx \<and> best_bid_size b = sx_bid_sz sx
        \<and> best_ask_price b = sx_best_ask sx \<and> best_ask_size b = sx_ask_sz sx" .
    have "exchange_sim pr argv signalled now inbox clock =
        Some (Exited 0 (Some []) [] (calls @ exchange_close fds), Some (stopped, joined, sent, fills, sx))"
      using 3 cal waits run by (simp add: exchange_sim_def duration)
    moreover have "open_fds fs (calls @ exchange_close fds) = Some fs"
      using 3(2) by (rule exchange_lifetime)
    moreover have "0 < sint duration_ms \<longrightarrow> now 0 + sint duration_ms * 1000000 \<le> now joined"
      using moments(2) by (auto simp: stopper_asleep_def)
    ultimately show ?thesis
      using rest moments by (intro exI conjI) (assumption, simp)
  qed (use cal in \<open>simp_all add: exchange_sim_def\<close>)
qed

lemma outcome_exited:
  assumes "\<exists>out. x = Some out \<and> (case out of Uncaught \<Rightarrow> P | Exited status printed files calls \<Rightarrow> Q status printed files calls)"
    and "\<not> P"
  obtains status printed files calls where "x = Some (Exited status printed files calls)" "Q status printed files calls"
proof -
  obtain out where "x = Some out"
    "case out of Uncaught \<Rightarrow> P | Exited status printed files calls \<Rightarrow> Q status printed files calls"
    using assms(1) by blast
  with assms(2) that show thesis
    by (cases out) auto
qed

text \<open>A machine that grants every call, and a signal at the third reading.\<close>

definition demo_process :: process where
  "demo_process = \<lparr>pr_pton = \<lambda>_. Some 0, pr_underflow = \<lambda>_. None, pr_read_file = \<lambda>_. None, pr_can_open = \<lambda>_. True,
     pr_os = demo_os (\<lambda>_. 0), pr_getsockname = \<lambda>_. None, pr_arch = X86_64, pr_cntfrq = 0,
     pr_steady = \<lambda>k. int k * kWindow, pr_counter = \<lambda>j. of_nat j * 10000000, pr_cpus = None, pr_affinity = \<lambda>_. 0\<rparr>"

lemma demo_process_steady: "steady (pr_steady demo_process)"
  unfolding steady_def demo_process_def
proof (simp, intro conjI allI)
  show "\<exists>k. t \<le> int k * kWindow" for t
    by (rule exI [of _ "nat t"]) (simp add: kWindow_def)
qed (simp add: kWindow_def)

lemma demo_engine_sockets: "\<exists>calls fds. engine_sockets (demo_os (\<lambda>_. 0)) cfg 0 = (calls, Inr fds)"
  by (simp add: engine_sockets_def feed_handler_sockets_def gateway_sockets_def sock_then_def sock_call_def make_socket_def
      make_bound_def udp_bound_def udp_construct_def nonblocking_def udp_set_nonblocking_def demo_os_def Let_def)

lemma demo_exchange_sockets: "\<exists>calls fds. exchange_sockets (demo_os (\<lambda>_. 0)) port k = (calls, Inr fds)"
  by (simp add: exchange_sockets_def sock_then_def sock_call_def make_socket_def
      make_bound_def udp_bound_def udp_construct_def nonblocking_def udp_set_nonblocking_def demo_os_def Let_def)

theorem hft_main_ends_witness:
  "\<forall>sx. \<exists>printed calls. hft_main demo_process [''hft_main''] (\<lambda>k. k = 2) (\<lambda>k. 0) (\<lambda>k. []) sx = Some (Exited 0 (Some printed) [] calls)
    \<and> open_fds [0, 1, 2] calls = Some [0, 1, 2]"
proof (rule allI)
  fix sx
  have over: "wait_over (arg_long [''hft_main''] ''--duration-ms'' 0) (\<lambda>k. k = 2) (\<lambda>k. 0) 2"
    by (simp add: wait_over_def)
  have none: "concat (map (\<lambda>k. []) ks) = ([] :: turn list)" for ks :: "nat list"
    by (induction ks) simp_all
  have few: "length (main_turns (\<lambda>k. []) k) < 2 ^ 64" for k
    unfolding main_turns_def none append_Nil by simp
  obtain cfg where configured: "main_configured demo_process [''hft_main''] = Some (Inr cfg)"
    "engine_config_default (pr_pton demo_process) \<noteq> None"
    by (simp add: main_configured_def main_config_def engine_config_default_def endpoint_v4_def demo_process_def arg_str_def)
  moreover obtain calls fds where "engine_sockets (pr_os demo_process) cfg 0 = (calls, Inr fds)"
    using demo_engine_sockets [of cfg] by (auto simp: demo_process_def)
  ultimately have granted: "\<not> (engine_config_default (pr_pton demo_process) = None
      \<or> (\<exists>cfg calls e. main_configured demo_process [''hft_main''] = Some (Inr cfg) \<and> engine_sockets (pr_os demo_process) cfg 0 = (calls, Inl e)))"
    by auto
  show "\<exists>printed calls. hft_main demo_process [''hft_main''] (\<lambda>k. k = 2) (\<lambda>k. 0) (\<lambda>k. []) sx = Some (Exited 0 (Some printed) [] calls)
    \<and> open_fds [0, 1, 2] calls = Some [0, 1, 2]"
    using hft_main_ends [OF demo_process_steady over, of "\<lambda>k. []" sx "[0, 1, 2]", OF few] granted
    by (rule outcome_exited) (use configured in auto)
qed

text \<open>
  A signal in the third moment of a run of one second, seen by a clock that advances a tenth of a second between two
  moments: the run stops then, and the program exits at the tenth moment.
\<close>

lemma demo_seconds: "steady (\<lambda>k. int k * 100000000)"
  unfolding steady_def
proof (intro conjI allI impI)
  show "\<exists>k. t \<le> int k * 100000000" for t
    by (rule exI [of _ "nat t"]) simp
qed simp

lemma demo_duration: "arg_long [''exchange_sim'', ''--duration-ms'', ''1000''] ''--duration-ms'' 0 = 1000"
  by (simp add: arg_long_def arg_str_def strtol10_def is_ws_def opt_sign_def is_digit_def less_eq_char_def digits_value_def
      digit_value_def Let_def)

theorem exchange_sim_ends_witness:
  "\<exists>calls run. exchange_sim demo_process [''exchange_sim'', ''--duration-ms'', ''1000''] (\<lambda>k. 3 \<le> k) (\<lambda>k. int k * 100000000)
        (\<lambda>k. []) (\<lambda>k. of_nat k)
      = Some (Exited 0 (Some []) [] calls, Some (3, 10, run))
    \<and> open_fds [0, 1, 2] calls = Some [0, 1, 2]"
proof -
  let ?argv = "[''exchange_sim'', ''--duration-ms'', ''1000'']"
  obtain su where su: "sim_setup_of (pr_pton demo_process) ?argv = Some su"
    by (simp add: sim_setup_of_def arg_string_def arg_str_def endpoint_v4_def demo_process_def Let_def)
  obtain calls fds where fds: "exchange_sockets (pr_os demo_process) (ss_order_port su) 0 = (calls, Inr fds)"
    using demo_exchange_sockets [of "ss_order_port su" 0] by (auto simp: demo_process_def)
  have "0 < sint (arg_long ?argv ''--duration-ms'' 0) \<or> 3 \<le> (3 :: nat)"
    by simp
  note ends = exchange_sim_ends [where signalled = "\<lambda>k. 3 \<le> k" and j = 3,
    OF demo_process_steady counting_clock_passes demo_seconds this, of "\<lambda>k. []" "[0, 1, 2]", unfolded demo_duration]
  have running: "sim_running 1000 (\<lambda>k. 3 \<le> k) (\<lambda>k. int k * 100000000) k \<longleftrightarrow> k < 3"
    and asleep: "stopper_asleep 1000 (\<lambda>k. int k * 100000000) k \<longleftrightarrow> k < 10" for k
    by (auto simp: sim_running_def stopper_asleep_def)
  obtain stopped joined calls' run where
    sim: "exchange_sim demo_process ?argv (\<lambda>k. 3 \<le> k) (\<lambda>k. int k * 100000000) (\<lambda>k. []) (\<lambda>k. of_nat k)
      = Some (Exited 0 (Some []) [] calls', Some (stopped, joined, run))" "open_fds [0, 1, 2] calls' = Some [0, 1, 2]"
    and moments: "\<forall>k < stopped. k < 3" "3 \<le> stopped" "10 \<le> joined" "\<forall>k. stopped \<le> k \<and> k < joined \<longrightarrow> k < 10"
    using ends su fds by (auto simp: running asleep split: option.split_asm)
  have "stopped = 3"
    using moments(1,2) by (metis le_neq_implies_less less_irrefl)
  moreover have "joined = 10"
    using moments(3) moments(4) [rule_format, of 10] calculation by (cases "10 < joined") simp_all
  ultimately show ?thesis
    using sim by blast
qed


subsection \<open>The harness\<close>

text \<open>
  The harness ends as well: with status 2 on an unknown waiting policy, and otherwise its descriptors are closed and what it
  prints is \<^const>\<open>report_output\<close> of a run of \<^const>\<open>harness_main\<close>, of which \<open>latency_harness_end_to_end\<close> says what it is.
\<close>

lemma report_wait_policy_unknown:
  "report_wait_policy argv = Inl status \<longleftrightarrow>
     status = 2 \<and> arg_string argv ''--wait'' ''adaptive'' \<notin> {''spin'', ''yield'', ''adaptive''}"
  by (auto simp: report_wait_policy_def Let_def)

lemma latency_report_ends:
  assumes "steady (pr_steady pr)" "clock_passes clock" "length asleep + length joining + 1 < 2 ^ 64"
    and "2 \<le> length (filter is_exchange joining)"
  shows "\<exists>out. latency_report pr argv clock asleep joining = Some out \<and>
    (case out of
       Uncaught \<Rightarrow> True
     | Exited status printed files calls \<Rightarrow>
         open_fds fs calls = Some fs \<and>
         (status = 2 \<and> printed = Some [] \<and> files = [] \<or>
          status = 0 \<and> (\<exists>cal wait_policy ecfg r h.
            harness_main cal clock asleep joining (start_threads (pr_cpus pr) (pr_affinity pr) ecfg) r = Some h \<and>
            report_output cal (pr_can_open pr) argv wait_policy (mc_exchange (hs_machine h))
               (sy_en (mc_sys (hs_machine h))) = (the printed, files))))"
proof (cases "report_wait_policy argv")
  case (Inl status)
  then have "status = 2"
    by (simp add: report_wait_policy_unknown)
  with Inl show ?thesis
    by (simp add: latency_report_def)
next
  case (Inr wait_policy)
  obtain cal where cal: "process_calibration pr = Some cal"
    using process_calibrates [OF assms(1)] .
  let ?local = "\<lambda>fd. udp_local_port (pr_getsockname pr fd)"
  let ?wired = "\<lambda>rx fill ord. report_setup_of (pr_pton pr) cal argv (?local rx) (?local fill) (?local ord)"
  consider "report_engine_config (pr_pton pr) argv wait_policy = None"
    | ecfg calls e where "report_engine_config (pr_pton pr) argv wait_policy = Some ecfg" "engine_sockets (pr_os pr) ecfg 0 = (calls, Inl e)"
    | ecfg calls1 fds calls e where "report_engine_config (pr_pton pr) argv wait_policy = Some ecfg"
        "engine_sockets (pr_os pr) ecfg 0 = (calls1, Inr fds)" "exchange_sockets (pr_os pr) 0 3 = (calls, Inl e)"
    | ecfg calls1 feed_rx order_tx fill_rx calls2 feed_tx fill_tx order_rx where
        "report_engine_config (pr_pton pr) argv wait_policy = Some ecfg"
        "engine_sockets (pr_os pr) ecfg 0 = (calls1, Inr (feed_rx, order_tx, fill_rx))"
        "exchange_sockets (pr_os pr) 0 3 = (calls2, Inr (feed_tx, fill_tx, order_rx))"
    by (metis option.exhaust prod_cases3 prod.exhaust sum.exhaust)
  then show ?thesis
  proof cases
    case 4
    show ?thesis
    proof (cases "?wired feed_rx fill_rx order_rx")
      case None
      with 4 Inr cal show ?thesis
        by (simp add: latency_report_def Let_def)
    next
      case (Some q)
      show ?thesis
      proof (cases q)
        case (Inl status)
        with Some Inr show ?thesis
          by (auto simp: report_setup_of_def Let_def split: option.splits)
      next
        case (Inr r)
        have "sends_on clock (rs_exchange r)"
          using assms(2) by (simp add: sends_on_def)
        from harness_main_ends [OF Some [unfolded Inr] this assms(3,4)] obtain h where
          h: "harness_main cal clock asleep joining (start_threads (pr_cpus pr) (pr_affinity pr) ecfg) r = Some h"
          by blast
        obtain printed files where out: "report_output cal (pr_can_open pr) argv wait_policy (mc_exchange (hs_machine h))
            (sy_en (mc_sys (hs_machine h))) = (printed, files)"
          by (rule prod.exhaust)
        have "latency_report pr argv clock asleep joining = Some (Exited 0 (Some printed) files
            (calls1 @ calls2 @ exchange_close (feed_tx, fill_tx, order_rx) @ engine_close (feed_rx, order_tx, fill_rx)))"
          using 4 \<open>report_wait_policy argv = Inr wait_policy\<close> cal Some Inr h out by (simp add: latency_report_def Let_def)
        with harness_lifetime [OF 4(2,3), of fs] h out show ?thesis
          by (intro exI conjI) (assumption, simp, blast)
      qed
    qed
  qed (use Inr cal in \<open>auto simp: latency_report_def split: prod.split\<close>)
qed

end
