(* ===== verification/Spec2Isabelle.thy ===== *)
theory Spec2Isabelle
  imports ReplayTool FuzzTargets ProgramRun
begin

text \<open>
  A verification development for the high-frequency trading engine (C++, \<open>src/include/hft\<close> and the programs
  around it). All paths below are relative to \<open>src/\<close>.

  \<^bold>\<open>The program.\<close> Three threads joined by single-producer single-consumer queues. The feed handler receives UDP
  datagrams of 32-byte market-data messages and queues them with an arrival time; the strategy keeps a limit order
  book, decides on its imbalance and queues at most one order at a time; the order gateway checks each order against the
  risk limits, sends it, and matches the execution reports that come back, which it forwards to the strategy. Every
  stage records latencies in a histogram. Around the engine: a simulated exchange that publishes a random walk and fills
  every order, a decoder of NASDAQ ITCH 5.0 files with a replay tool, a JSON configuration, the cycle counter, a
  waiting policy for idle threads, reports and CSV files, and two fuzz targets.

  \<^bold>\<open>Theories.\<close> In the order of their imports; each opens with the conventions of its own model.

  \<^item> \<open>HftPrelude\<close>: the integer types at their widths, conversions, little-endian fields, splitting a text at
    a separator, and the lemmas on words and lists the components share.
  \<^item> \<open>WireMessages\<close> (\<open>itch_message.hpp\<close>, \<open>order_msg.hpp\<close>, \<open>itch_parser.hpp\<close>): the packed structs, their byte layouts, the frame reader,
    ticker packing. The locale \<open>wire_codec\<close> is what a fixed-width codec promises; the three codecs interpret it.
  \<^item> \<open>SpscQueue\<close> (\<open>spsc_queue.hpp\<close>): push and pop on the ring with its 64-bit positions and cached positions, and the two threads
    as a step relation over single memory accesses. The locale \<open>bounded_fifo\<close> is the queue contract; the stages use
    only its facts.
  \<^item> \<open>Binary64\<close>, \<open>TscClock\<close> (\<open>tsc.hpp\<close>): double arithmetic as rounding on rationals; calibration and conversion of the cycle counter.
    \<open>Calibration\<close>: the measuring windows themselves, from the readings of the two clocks.
  \<^item> \<open>Histogram\<close> (\<open>histogram.hpp\<close>): recording, merging, percentiles; the locale \<open>bucketing\<close> separates the order statistics from the
    index arithmetic.
  \<^item> \<open>BookView\<close> (\<open>book_view.hpp\<close>): the flat-array book with its cached best levels; the locale \<open>touch\<close> is one side of it.
  \<^item> \<open>RiskGate\<close> (\<open>risk_gate.hpp\<close>): limits, rate bucket, kill flag, position.
  \<^item> \<open>Itch50\<close>, \<open>ItchReplay\<close>, \<open>ReplayTool\<close> (\<open>itch50.hpp\<close>, \<open>tools/itch50_replay.cpp\<close>): the ITCH 5.0 decoder, the replay into a book, and the
    tool from its command line to its report.
  \<^item> \<open>FeedHandler\<close>, \<open>Strategy\<close>, \<open>OrderGateway\<close> (the headers of the same names): the state and the poll of each stage. The locale
    \<open>position_keeper\<close> is what the strategy and the risk gate have in common.
  \<^item> \<open>SimExchange\<close> (\<open>sim_exchange.hpp\<close>), \<open>Sockets\<close> (\<open>net.hpp\<close>), \<open>WaitPolicy\<close> (\<open>wait_policy.hpp\<close>, \<open>affinity.hpp\<close>).
  \<^item> \<open>EngineModel\<close> (\<open>engine.hpp\<close>): the engine, the network and the exchange as one step relation \<open>sys_step\<close> whose steps are the
    accesses to shared queues. \<open>EngineRun\<close>: the threads' own loops, executed poll by poll over a schedule.
    \<open>Ledger\<close>: the gateway's counters against the orders on the wire.
  \<^item> \<open>Construction\<close>: the constructors of the stages, the engine and the exchange as sequences of system calls any of which may fail.
    The locale \<open>scoped_object\<close> is what a constructor and its destructor promise about descriptors; six classes interpret it.
  \<^item> \<open>JsonConfig\<close> (\<open>config.hpp\<close>, \<open>apps/hft_main.cpp\<close>), \<open>LatencyReport\<close> (\<open>latency_report.hpp\<close>), \<open>Programs\<close> and \<open>ProgramOutput\<close>
    (\<open>tools/exchange_sim.cpp\<close>, \<open>tools/latency_report.cpp\<close>, \<open>apps/hft_main.cpp\<close>), \<open>FuzzTargets\<close> (\<open>fuzz/\<close>).
  \<^item> \<open>HarnessRun\<close> (\<open>tools/latency_report.cpp\<close>, \<open>SimExchange::run\<close>): engine and exchange as four threads of one process, started, joined and
    stopped by the main thread. \<open>ProgramRun\<close>: the three programs as functions from command line to exit status, output and descriptors.

  \<^bold>\<open>What is shown.\<close>

  \<^item> Queue: every interleaving of the two threads' accesses is a bounded FIFO, no slot is written while it may be read, and
    the sequential operations refine a bounded list, also when the positions wrap.
  \<^item> Data structures: the book refines a pair of price maps; a histogram's percentile is the bucket top of the order statistic, with the
    promised relative error; merging and resetting behave like the recorded sequence.
  \<^item> Formats: the codecs are inverse on their ranges; the JSON parser builds what its grammar says, for numbers in the normal range and but for
    \<open>\u\<close> escapes, and always returns; a CSV dump read back lists the reported values; the replay tool's report counts the frames by their fate and type.
  \<^item> Decoder: in-bounds reads for bodies of the standard's lengths, share conservation between the order table and the book over
    the replay of a consistent file; the two theorems of kind error exhibit the over-read of a short body and the lost level of an unknown replace.
  \<^item> Stages: exact accounting of received, pushed and dropped messages; a decision on the exact imbalance; at most one order
    outstanding; only checked orders are sent; a report is matched at most once.
  \<^item> Risk: the first failing limit is the one reported; the rate limit bounds every window and passes a burst exactly; the
    position check looks at fills only.
  \<^item> Engine: \<open>in_phase\<close> locates the one order the strategy's latch admits. From it: the positions agree, the limit holds, the
    unbounded waits never wait, a rejection silences the strategy for good, and without the kill switch no rejection occurs
    under limits that admit the order. \<open>EngineRun\<close> adds that every schedule of polls runs to its end inside
    these states, and that without loss one round of polls settles everything but a rejected order; \<open>Ledger\<close>, that the counters, the position and the
    wire agree in all of them.
  \<^item> Programs: the harness wires an exchange whose quotes stay inside the engine's book, ends whenever its threads are scheduled, and
    if nothing was lost leaves the engine with the exchange's last quotes; the engine program and the exchange program end when their waits end, the first
    with counters that are true, the second only when its duration has passed. Descriptors have one owner and are closed once, whichever call fails while an object is constructed; the calibrated
    ratio is as accurate as the reading of the clocks at the window's ends. Idle threads yield exactly as the policy says; no input traps a fuzz target.

  \<^bold>\<open>Conventions.\<close> Integers keep their width and wrap; a conversion C++ leaves undefined or implementation-defined (a
  double outside the target's range, as in \<open>get_int\<close>) wraps too, and no theorem rests on it, but for the deadline of
  \<open>main_wait\<close>, which overflows for durations beyond \<open>2 ^ 63\<close> nanoseconds and is exhibited by a lemma of \<open>ProgramRun\<close>. A double is a rational
  rounded to 53 bits; infinities and NaN do not occur in the values the engine computes, and where a program could
  print one the model returns \<^const>\<open>None\<close>. \<^const>\<open>None\<close> is also a read outside a buffer, an uncaught exception, or a wait
  that never ends; which one is said where it is used, and the theorems of termination and liveness say that it does not
  occur. Clock readings, received bytes, file contents and the results of system calls are arguments. The network may
  lose, duplicate, delay and reorder what was sent, and adds nothing of its own to the order and fill ports.

  \<^bold>\<open>Bounds.\<close> Recursion is structural or has a measure, except that the loops that wait for a clock or a flag (\<open>pace\<close> of the
  exchange, \<open>window_spin\<close> of the calibration, the waits of the programs) are instances of the partial function \<open>spin_while\<close>, which returns
  exactly when its condition is once false, that \<open>buckets_needed\<close> is a partial function whose result is proved to exist, and that the JSON parser has fuel: twice
  the length of the text plus two, one unit per call, which is enough because every pair of nested calls consumes
  a character. The engine's theorems ask for fewer than \<open>2 ^ 64\<close> orders, the range of the order numbers; those on schedules, for fewer than \<open>2 ^ 64\<close> turns. Loops bounded in
  the source keep its bounds: 65536 attempts of a push, 16 fills and 32 reports per poll, 64 spins before a yield.

  \<^bold>\<open>Granularity.\<close> \<open>sys_step\<close> takes one whole queue operation per step. The theorems on the concurrent queue justify that: under
  the acquire and release order of its positions each operation acts at one moment. The kill flag and the running flag are
  relaxed atomics; a step reads the current value, and since another thread may set them at any step, a late
  reading is an earlier place in the interleaving.

  \<^bold>\<open>Not modelled.\<close> \<open>compiler.hpp\<close> (inlining and branch hints, prefetching, optimisation barriers: no effect on values);
  \<open>version.hpp\<close> (constants only a test reads); the counter instructions and the operating system's calls (arguments); the sizes
  of socket buffers; names of threads beyond their length; the texts on standard error; how long a sleep lasts
  (signals and deadlines are readings of a flag and a clock); the weak-memory semantics below acquire and release; the benchmarks
  under \<open>benchmarks/\<close>, the tests, and the scripts that plot and tabulate results.
\<close>

end
